(* ===== verification/Prelude.thy ===== *)
theory Prelude
  imports Main "HOL-Library.Word" "HOL-Library.Monad_Syntax" "HOL-Library.Signed_Division"
begin

text \<open>
  Shared ground of the development: the constants of the headers, the reading of C integers,
  arrays and byte buffers, and the singly linked lists of the heap.

  A C function that can dereference NULL, index outside an array, write past a buffer or wait
  for a flag that nobody clears is a function into \<open>'a option\<close>: \<open>None\<close> is "this call does not
  return normally", every error code the source returns is a value inside \<open>Some\<close>. The
  functions are composed with the \<open>do\<close> notation of \<^theory_text>\<open>Option.bind\<close>.
\<close>

section \<open>Collections of the development\<close>

lemma option_bind_cong [fundef_cong]:
  "x = y \<Longrightarrow> (\<And>a. y = Some a \<Longrightarrow> f a = g a) \<Longrightarrow> Option.bind x f = Option.bind y g"
  by (cases y) auto

named_theorems midsm_consts \<open>definitions of the constants of the C headers\<close>
named_theorems heap_simps \<open>reads of an updated heap, array or buffer\<close>

section \<open>Constants of the headers\<close>

definition MAX_HOST_NUM :: nat where "MAX_HOST_NUM = 20"
definition WORDSIZE :: nat where "WORDSIZE = 80"
definition PAGESIZE :: nat where "PAGESIZE = 4096"
definition MAX_MEM_SIZE :: nat where "MAX_MEM_SIZE = 134217728"
definition MAX_PAGE_NUM :: nat where "MAX_PAGE_NUM = MAX_MEM_SIZE div PAGESIZE"
definition START_ADDRESS :: nat where "START_ADDRESS = 1610612736"
definition MAX_WN_NUM :: nat where "MAX_WN_NUM = 1024"
definition MSG_HEAD_SIZE :: nat where "MSG_HEAD_SIZE = (MAX_HOST_NUM + 5) * 4"
definition MAX_MSG_SIZE :: nat where "MAX_MSG_SIZE = 40960"
definition MAX_QUEUE_SIZE :: nat where "MAX_QUEUE_SIZE = MAX_HOST_NUM"
definition BASEPORT :: nat where "BASEPORT = 12345"
definition MAX_RETRY_NUM :: nat where "MAX_RETRY_NUM = 64"
definition TIMEOUT :: nat where "TIMEOUT = 1000"
definition LOCK_NUM :: nat where "LOCK_NUM = 1024"

text \<open>The size of the array \<open>data\<close> of a message.\<close>

definition DATA_SIZE :: nat where "DATA_SIZE = MAX_MSG_SIZE - MSG_HEAD_SIZE"

lemmas size_consts =
  MAX_HOST_NUM_def WORDSIZE_def PAGESIZE_def MAX_MEM_SIZE_def MAX_PAGE_NUM_def START_ADDRESS_def
  MAX_WN_NUM_def MSG_HEAD_SIZE_def MAX_MSG_SIZE_def MAX_QUEUE_SIZE_def BASEPORT_def
  MAX_RETRY_NUM_def TIMEOUT_def LOCK_NUM_def DATA_SIZE_def

declare size_consts [midsm_consts]

lemma consts_pos [simp]:
  "0 < MAX_HOST_NUM" "0 < PAGESIZE" "0 < MAX_PAGE_NUM" "0 < MAX_QUEUE_SIZE" "0 < LOCK_NUM"
  "0 < MAX_WN_NUM" "0 < DATA_SIZE"
  by (simp_all add: size_consts)

section \<open>C integers and arrays\<close>

type_synonym byte = "8 word"

text \<open>
  A C \<open>int\<close> is an \<open>int\<close> in the range of 32 bits. \<open>s32\<close> is the conversion to that range (two's
  complement), written where the code computes a value that can leave it.
\<close>

definition in32 :: "int \<Rightarrow> bool" where
  "in32 x \<longleftrightarrow> - 2147483648 \<le> x \<and> x < 2147483648"

definition s32 :: "int \<Rightarrow> int" where
  "s32 x = (x + 2147483648) mod 4294967296 - 2147483648"

lemma in32_s32 [simp]: "in32 (s32 x)"
  by (simp add: in32_def s32_def)

lemma s32_id [simp]: "in32 x \<Longrightarrow> s32 x = x"
  by (simp add: in32_def s32_def)

text \<open>An array index: the C index as a position below the length, or out of range.\<close>

definition aidx :: "int \<Rightarrow> nat \<Rightarrow> nat option" where
  "aidx i n = (if 0 \<le> i \<and> i < int n then Some (nat i) else None)"

lemma aidx_int [simp]: "aidx (int k) n = (if k < n then Some k else None)"
  by (simp add: aidx_def)

lemma aidx_numeral [simp]:
  "aidx 0 n = (if 0 < n then Some 0 else None)"
  "aidx 1 n = (if 1 < n then Some 1 else None)"
  "aidx (numeral w) n = (if numeral w < n then Some (numeral w) else None)"
  by (simp_all add: aidx_def)

lemma aidx_SomeD: "aidx i n = Some k \<Longrightarrow> i = int k \<and> k < n"
  by (auto simp: aidx_def split: if_splits)

lemma aidx_Some_iff: "aidx i n = Some k \<longleftrightarrow> i = int k \<and> k < n"
  by (auto simp: aidx_def)

lemma aidx_in_range: "0 \<le> i \<Longrightarrow> i < int n \<Longrightarrow> aidx i n = Some (nat i)"
  by (simp add: aidx_def)

text \<open>The remainder \<open>%\<close> of C, which truncates; a zero divisor is undefined.\<close>

definition crem :: "int \<Rightarrow> int \<Rightarrow> int option" where
  "crem a b = (if b = 0 then None else Some (a smod b))"

lemma smod_nonneg: "0 \<le> a \<Longrightarrow> 0 < b \<Longrightarrow> (a::int) smod b = a mod b"
  by (cases "a = 0") (auto simp: signed_modulo_int_def)

lemma crem_nonneg: "0 \<le> a \<Longrightarrow> 0 < b \<Longrightarrow> crem a b = Some (a mod b)"
  by (simp add: crem_def smod_nonneg)

lemma nth_update [heap_simps]: "k < length xs \<Longrightarrow> xs[j := x] ! k = (if j = k then x else xs ! k)"
  by (cases "j = k") auto

lemma map_update_same: "f y = f (xs ! j) \<Longrightarrow> map f (xs[j := y]) = map f xs"
  by (rule nth_equalityI) (auto simp: nth_update)

section \<open>Byte buffers\<close>

text \<open>
  An array of \<open>char\<close> is a function from positions to bytes; its length is checked where the code
  writes. \<open>peek\<close> reads a run of bytes, \<open>poke\<close> is \<open>memcpy\<close> into the buffer.
\<close>

type_synonym buffer = "nat \<Rightarrow> byte"

definition peek :: "buffer \<Rightarrow> nat \<Rightarrow> nat \<Rightarrow> byte list" where
  "peek d off n = map d [off..<off + n]"

definition poke :: "buffer \<Rightarrow> nat \<Rightarrow> byte list \<Rightarrow> buffer" where
  "poke d off bs = (\<lambda>i. if off \<le> i \<and> i < off + length bs then bs ! (i - off) else d i)"

lemma length_peek [simp]: "length (peek d off n) = n"
  by (simp add: peek_def)

lemma nth_peek [simp]: "i < n \<Longrightarrow> peek d off n ! i = d (off + i)"
  by (simp add: peek_def)

lemma peek_0 [simp]: "peek d off 0 = []"
  by (simp add: peek_def)

lemma peek_poke_same [heap_simps]: "length bs = n \<Longrightarrow> peek (poke d off bs) off n = bs"
  by (rule nth_equalityI) (auto simp: poke_def)

lemma peek_poke_other [heap_simps]:
  "off' + n \<le> off \<or> off + length bs \<le> off' \<Longrightarrow> peek (poke d off bs) off' n = peek d off' n"
  by (rule nth_equalityI) (auto simp: poke_def)

lemma poke_nil [simp]: "poke d off [] = d"
  by (rule ext) (auto simp: poke_def)

lemma poke_outside [heap_simps]: "i < off \<or> off + length bs \<le> i \<Longrightarrow> poke d off bs i = d i"
  by (auto simp: poke_def)

lemma poke_append: "poke (poke d off as) (off + length as) bs = poke d off (as @ bs)"
  by (rule ext) (auto simp: poke_def nth_append)

lemma peek_add: "peek d off (m + n) = peek d off m @ peek d (off + m) n"
  by (rule nth_equalityI) (auto simp: nth_append)

section \<open>Integers in a buffer\<close>

text \<open>\<open>memcpy\<close> of an \<open>int\<close>: four bytes, the least significant first.\<close>

definition int_bytes :: "int \<Rightarrow> byte list" where
  "int_bytes x = map (\<lambda>k. word_of_int (x div k)) [1, 256, 65536, 16777216]"

definition bytes_int :: "byte list \<Rightarrow> int" where
  "bytes_int bs = s32 (uint (bs ! 0) + 256 * uint (bs ! 1) + 65536 * uint (bs ! 2)
     + 16777216 * uint (bs ! 3))"

lemma length_int_bytes [simp]: "length (int_bytes x) = 4"
  by (simp add: int_bytes_def)

lemma bytes_int_sum:
  "x mod 256 + 256 * (x div 256 mod 256) + 65536 * (x div 65536 mod 256)
     + 16777216 * (x div 16777216 mod 256) = (x::int) mod 4294967296"
proof -
  have a: "x mod 65536 = x mod 256 + 256 * (x div 256 mod 256)"
    using zmod_zmult2_eq [of 256 x 256] by simp
  have b: "x mod 16777216 = x mod 65536 + 65536 * (x div 65536 mod 256)"
    using zmod_zmult2_eq [of 256 x 65536] by simp
  have c: "x mod 4294967296 = x mod 16777216 + 16777216 * (x div 16777216 mod 256)"
    using zmod_zmult2_eq [of 256 x 16777216] by simp
  show ?thesis unfolding c b a by linarith
qed

lemma bytes_int_bytes: "bytes_int (int_bytes x) = s32 x"
proof -
  have "bytes_int (int_bytes x) = s32 (x mod 4294967296)"
    by (simp add: bytes_int_def int_bytes_def uint_word_of_int take_bit_eq_mod bytes_int_sum)
  also have "\<dots> = s32 x"
    by (simp add: s32_def mod_simps)
  finally show ?thesis .
qed

lemma bytes_int_bytes_id [simp]: "in32 x \<Longrightarrow> bytes_int (int_bytes x) = x"
  by (simp add: bytes_int_bytes)

lemma in32_bytes_int [simp]: "in32 (bytes_int bs)"
  by (simp add: bytes_int_def)

definition peek_int :: "buffer \<Rightarrow> nat \<Rightarrow> int" where
  "peek_int d off = bytes_int (peek d off 4)"

definition peek_ints :: "buffer \<Rightarrow> nat \<Rightarrow> nat \<Rightarrow> int list" where
  "peek_ints d off n = map (\<lambda>i. peek_int d (off + 4 * i)) [0..<n]"

definition ints_bytes :: "int list \<Rightarrow> byte list" where
  "ints_bytes xs = concat (map int_bytes xs)"

lemma length_ints_bytes [simp]: "length (ints_bytes xs) = 4 * length xs"
  by (induction xs) (simp_all add: ints_bytes_def)

lemma ints_bytes_simps [simp]:
  "ints_bytes [] = []" "ints_bytes (x # xs) = int_bytes x @ ints_bytes xs"
  by (simp_all add: ints_bytes_def)

lemma length_peek_ints [simp]: "length (peek_ints d off n) = n"
  by (simp add: peek_ints_def)

lemma peek_ints_Suc:
  "peek_ints d off (Suc n) = peek_int d off # peek_ints d (off + 4) n"
  by (rule nth_equalityI) (auto simp: peek_ints_def nth_Cons algebra_simps simp del: upt_Suc
      split: nat.splits)

lemma peek_ints_of_bytes:
  "peek d off (4 * length xs) = ints_bytes xs \<Longrightarrow> list_all in32 xs \<Longrightarrow> n = length xs \<Longrightarrow>
    peek_ints d off n = xs"
proof (induction xs arbitrary: off n)
  case Nil
  then show ?case by (simp add: peek_ints_def)
next
  case (Cons x xs)
  have "peek d off 4 @ peek d (off + 4) (4 * length xs) = int_bytes x @ ints_bytes xs"
    using Cons.prems(1) peek_add [of d off 4 "4 * length xs"] by (simp add: algebra_simps)
  then have "peek d off 4 = int_bytes x" "peek d (off + 4) (4 * length xs) = ints_bytes xs"
    by simp_all
  with Cons show ?case by (simp add: peek_ints_Suc peek_int_def)
qed

section \<open>Linked lists on the heap\<close>

text \<open>
  A heap of nodes is seen through the reading of one link field: \<open>nx k\<close> is \<open>None\<close> where \<open>k\<close> is
  no allocated node, otherwise the pointer held by the field. \<open>chain nx p ks\<close> says that the list
  that starts at the pointer \<open>p\<close> ends with NULL and visits exactly the nodes \<open>ks\<close>, in this order.
\<close>

type_synonym ptr = "nat option"

fun chain :: "(nat \<Rightarrow> ptr option) \<Rightarrow> ptr \<Rightarrow> nat list \<Rightarrow> bool" where
  "chain nx p [] \<longleftrightarrow> p = None"
| "chain nx p (k # ks) \<longleftrightarrow> p = Some k \<and> (case nx k of None \<Rightarrow> False | Some q \<Rightarrow> chain nx q ks)"

lemma chain_None [simp]: "chain nx None ks \<longleftrightarrow> ks = []"
  by (cases ks) auto

lemma chain_Some: "chain nx (Some k) ks \<longleftrightarrow> (\<exists>q ks'. ks = k # ks' \<and> nx k = Some q \<and> chain nx q ks')"
  by (cases ks) (auto split: option.splits)

lemma chain_unique: "chain nx p ks \<Longrightarrow> chain nx p ks' \<Longrightarrow> ks = ks'"
proof (induction ks arbitrary: p ks')
  case Nil
  then show ?case by simp
next
  case (Cons k ks)
  then show ?case by (cases ks') (auto split: option.splits)
qed

lemma chain_cong: "(\<And>k. k \<in> set ks \<Longrightarrow> nx k = nx' k) \<Longrightarrow> chain nx p ks = chain nx' p ks"
  by (induction ks arbitrary: p) (auto split: option.splits)

lemma chain_alloc: "chain nx p ks \<Longrightarrow> k \<in> set ks \<Longrightarrow> nx k \<noteq> None"
  by (induction ks arbitrary: p) (auto split: option.splits)

lemma chain_distinct: "chain nx p ks \<Longrightarrow> distinct ks"
proof (induction ks arbitrary: p rule: length_induct)
  case (1 ks)
  show ?case
  proof (cases ks)
    case (Cons k ks')
    with "1.prems" obtain q where q: "p = Some k" "nx k = Some q" "chain nx q ks'"
      by (auto split: option.splits)
    have "k \<notin> set ks'"
    proof
      assume "k \<in> set ks'"
      then obtain as bs where ks': "ks' = as @ k # bs" by (auto simp: in_set_conv_decomp)
      have suffix: "chain nx q (as @ ys) \<Longrightarrow> \<exists>r. chain nx r ys" for q as ys
        by (induction as arbitrary: q) (auto split: option.splits)
      obtain r where "chain nx r (k # bs)" using q(3) ks' suffix by blast
      then have "chain nx (Some k) (k # bs)" by (auto split: option.splits)
      moreover have "chain nx (Some k) (k # ks')" using q by simp
      ultimately have "bs = ks'" using chain_unique by blast
      with ks' show False by (metis append_Cons length_append length_Cons less_add_Suc2 less_irrefl)
    qed
    with "1.IH" q Cons show ?thesis by auto
  qed simp
qed

lemma chain_fresh: "chain nx p ks \<Longrightarrow> k \<notin> set ks \<Longrightarrow> chain (nx(k := v)) p ks"
  by (subst chain_cong [where nx' = nx]) auto

text \<open>Pushing a new node in front, and linking a new node behind the last one.\<close>

lemma chain_push: "chain nx p ks \<Longrightarrow> k \<notin> set ks \<Longrightarrow> chain (nx(k := Some p)) (Some k) (k # ks)"
  by (simp add: chain_fresh)

lemma chain_snoc:
  "chain nx p ks \<Longrightarrow> ks \<noteq> [] \<Longrightarrow> k \<notin> set ks \<Longrightarrow>
    chain (nx(last ks := Some (Some k), k := Some None)) p (ks @ [k])"
proof (induction ks arbitrary: p)
  case Nil
  then show ?case by simp
next
  case (Cons j ks)
  then obtain q where q: "p = Some j" "nx j = Some q" "chain nx q ks"
    by (auto split: option.splits)
  have d: "j \<notin> set ks"
    using chain_distinct [OF Cons.prems(1)] by simp
  show ?case
  proof (cases "ks = []")
    case True
    with q Cons.prems show ?thesis by simp
  next
    case False
    then have "last ks \<noteq> j" using d last_in_set by metis
    with q Cons d False show ?thesis by (auto split: option.splits)
  qed
qed

text \<open>
  The two loops over linked lists the code repeats: \<open>while(p->next != NULL) p = p->next;\<close> and
  \<open>while(p != NULL){ if(found) break; p = p->next; }\<close>. A list that never ends gives \<open>None\<close>.
\<close>

partial_function (option) chain_last :: "(nat \<Rightarrow> ptr option) \<Rightarrow> nat \<Rightarrow> nat option" where
  "chain_last nx k = (case nx k of None \<Rightarrow> None | Some q \<Rightarrow>
     (case q of None \<Rightarrow> Some k | Some j \<Rightarrow> chain_last nx j))"

partial_function (option) chain_find ::
    "(nat \<Rightarrow> ptr option) \<Rightarrow> (nat \<Rightarrow> bool option) \<Rightarrow> ptr \<Rightarrow> ptr option" where
  "chain_find nx found p = (case p of None \<Rightarrow> Some None | Some k \<Rightarrow>
     do { q \<leftarrow> nx k; b \<leftarrow> found k; if b then Some (Some k) else chain_find nx found q })"

lemma chain_last_eq: "chain nx (Some k) ks \<Longrightarrow> chain_last nx k = Some (last ks)"
proof (induction ks arbitrary: k)
  case Nil
  then show ?case by simp
next
  case (Cons j ks)
  then show ?case
    by (cases ks) (auto simp: chain_last.simps [of nx j] chain_Some split: option.splits)
qed

lemma chain_find_eq:
  "chain nx p ks \<Longrightarrow> (\<And>k. k \<in> set ks \<Longrightarrow> found k = Some (P k)) \<Longrightarrow>
    chain_find nx found p = Some (find P ks)"
proof (induction ks arbitrary: p)
  case Nil
  then show ?case by (simp add: chain_find.simps)
next
  case (Cons j ks)
  then show ?case by (auto simp: chain_find.simps [of nx found "Some j"] split: option.splits)
qed

end
