(* ===== verification/Init.thy ===== *)
theory Init
  imports Prelude
begin

text \<open>
  Start-up (\<open>src/init.c\<close>): the host file, the identity of this host and the command lines that
  start the program on the other hosts. The lines of the file, the user name and \<open>argv\<close> are
  arguments; opening the file, \<open>getpwuid\<close> and \<open>system\<close> belong to the operating system.
\<close>

section \<open>State\<close>

record host_t =
  address :: string
  username :: string

record init_st =
  hosts :: "nat \<Rightarrow> host_t"
  hostnum :: int
  myhostid :: int

text \<open>The zero-initialised globals of \<open>init.c\<close>.\<close>

definition init_globals :: init_st where
  "init_globals = \<lparr>hosts = (\<lambda>_. \<lparr>address = [], username = []\<rparr>), hostnum = 0, myhostid = 0\<rparr>"

section \<open>Segments of a line\<close>

text \<open>A C string is the list of its characters; past the end the code reads the NUL.\<close>

definition c_at :: "string \<Rightarrow> char" where
  "c_at s = (case s of [] \<Rightarrow> CHR 0x00 | c # _ \<Rightarrow> c)"

definition is_blank :: "char \<Rightarrow> bool" where
  "is_blank c \<longleftrightarrow> c = CHR '' '' \<or> c = CHR 0x09"

definition is_end :: "char \<Rightarrow> bool" where
  "is_end c \<longleftrightarrow> c = CHR 0x00 \<or> c = CHR 0x0A"

fun skip_blanks :: "string \<Rightarrow> string" where
  "skip_blanks [] = []"
| "skip_blanks (c # cs) = (if is_blank c \<and> \<not> is_end c then skip_blanks cs else c # cs)"

text \<open>The inner loop of \<open>readSegFromStr\<close>: the rest of the string and the length of the segment.\<close>

fun take_seg :: "string \<Rightarrow> nat \<Rightarrow> int \<Rightarrow> string \<times> nat" where
  "take_seg [] len contentsize = ([], len)"
| "take_seg (c # cs) len contentsize =
     (if \<not> is_blank c \<and> \<not> is_end c \<and> int len < contentsize - 1
      then take_seg cs (Suc len) contentsize else (c # cs, len))"

text \<open>
  The outer loop, \<open>index\<close> counting down. The result is the return code and, when the segment is
  copied, the C string left in \<open>content\<close>.
\<close>

fun seg_loop :: "string \<Rightarrow> nat \<Rightarrow> int \<Rightarrow> int \<times> string option" where
  "seg_loop head index contentsize =
     (let (tail, len) = take_seg head 0 contentsize; ch = c_at tail in
      if \<not> is_blank ch \<and> \<not> is_end ch \<and> int len = contentsize - 1 then (- 1, None)
      else let tail = skip_blanks tail; ch = c_at tail in
        if is_end ch then (if int index - 1 > 0 then (- 1, None) else (0, Some (take len head)))
        else (case index of 0 \<Rightarrow> (0, Some (take len head)) | Suc i \<Rightarrow> seg_loop tail i contentsize))"

declare seg_loop.simps [simp del]

definition readSegFromStr :: "string option \<Rightarrow> int \<Rightarrow> bool \<Rightarrow> int \<Rightarrow> int \<times> string option" where
  "readSegFromStr str index has_content contentsize =
     (case str of None \<Rightarrow> (- 1, None) | Some s \<Rightarrow>
        if index < 0 \<or> \<not> has_content \<or> contentsize \<le> 0 then (- 1, None)
        else seg_loop (skip_blanks s) (nat index) contentsize)"

definition readAddrFromStr :: "string option \<Rightarrow> bool \<Rightarrow> int \<Rightarrow> int \<times> string option" where
  "readAddrFromStr str has_addr addrsize = readSegFromStr str 0 has_addr addrsize"

definition readNameFromStr :: "string option \<Rightarrow> bool \<Rightarrow> int \<Rightarrow> int \<times> string option" where
  "readNameFromStr str has_name usernamesize = readSegFromStr str 1 has_name usernamesize"

section \<open>The host table\<close>

text \<open>One turn of the loop of \<open>readHosts\<close>; the results of the two reads are ignored, a failed
  read leaves the zeroed field. A line past the last slot of \<open>hosts\<close> is undefined.\<close>

fun read_lines :: "string list \<Rightarrow> nat \<Rightarrow> 'a init_st_scheme \<Rightarrow> 'a init_st_scheme option" where
  "read_lines [] hosti s = Some s"
| "read_lines (line # lines) hosti s =
     do { k \<leftarrow> aidx (int hosti) MAX_HOST_NUM;
          let h = hosts s k;
          let h = (case snd (readAddrFromStr (Some line) True (int WORDSIZE)) of
                     None \<Rightarrow> h | Some a \<Rightarrow> h\<lparr>address := a\<rparr>);
          let h = (case snd (readNameFromStr (Some line) True (int WORDSIZE)) of
                     None \<Rightarrow> h | Some u \<Rightarrow> h\<lparr>username := u\<rparr>);
          read_lines lines (Suc hosti) (s\<lparr>hosts := (hosts s)(k := h), hostnum := hostnum s + 1\<rparr>) }"

text \<open>\<open>readHosts\<close> exits when the file cannot be opened.\<close>

definition readHosts :: "string list option \<Rightarrow> 'a init_st_scheme \<Rightarrow> 'a init_st_scheme option" where
  "readHosts file s = (case file of None \<Rightarrow> None | Some lines \<Rightarrow> read_lines lines 0 s)"

function findHost_loop :: "string \<Rightarrow> nat \<Rightarrow> 'a init_st_scheme \<Rightarrow> int option" where
  "findHost_loop name i s =
     (if int i < hostnum s then
        do { k \<leftarrow> aidx (int i) MAX_HOST_NUM;
             if username (hosts s k) = name then Some (int i) else findHost_loop name (Suc i) s }
      else Some (- 1))"
  by pat_completeness auto
termination
  by (relation "measure (\<lambda>(name, i, s). nat (hostnum s - int i))") auto

declare findHost_loop.simps [simp del]

definition findHostIdByName :: "string option \<Rightarrow> 'a init_st_scheme \<Rightarrow> int option" where
  "findHostIdByName name s = (case name of None \<Rightarrow> Some (- 1) | Some n \<Rightarrow> findHost_loop n 0 s)"

section \<open>Starting the other hosts\<close>

text \<open>\<open>strcat\<close> into a buffer of \<open>size\<close> bytes, the terminating NUL included.\<close>

definition strcat_into :: "nat \<Rightarrow> string \<Rightarrow> string \<Rightarrow> string option" where
  "strcat_into n buf s = (if length buf + length s < n then Some (buf @ s) else None)"

definition node_command :: "string \<Rightarrow> host_t \<Rightarrow> string option" where
  "node_command argv0 h =
     do { wd \<leftarrow> strcat_into WORDSIZE [] ''/home/'';
          wd \<leftarrow> strcat_into WORDSIZE wd (username h);
          wd \<leftarrow> strcat_into WORDSIZE wd ''/Desktop/MiDSM/tests/'';
          addr \<leftarrow> strcat_into WORDSIZE [] (username h);
          addr \<leftarrow> strcat_into WORDSIZE addr ''@'';
          addr \<leftarrow> strcat_into WORDSIZE addr (address h);
          cmd \<leftarrow> strcat_into (WORDSIZE * 2) []
                   (''ssh '' @ addr @ '' '' @ [CHR 0x22] @ ''cd '' @ wd @ ''; nohup '');
          cmd \<leftarrow> strcat_into (WORDSIZE * 2) cmd argv0;
          cmd \<leftarrow> strcat_into (WORDSIZE * 2) cmd '' > '';
          cmd \<leftarrow> strcat_into (WORDSIZE * 2) cmd wd;
          strcat_into (WORDSIZE * 2) cmd (''out 2>&1 &'' @ [CHR 0x22]) }"

text \<open>The commands passed to \<open>system\<close>, in order.\<close>

function startNode_loop :: "string \<Rightarrow> nat \<Rightarrow> 'a init_st_scheme \<Rightarrow> string list option" where
  "startNode_loop argv0 i s =
     (if int i < hostnum s then
        do { k \<leftarrow> aidx (int i) MAX_HOST_NUM;
             cmd \<leftarrow> node_command argv0 (hosts s k);
             cmds \<leftarrow> startNode_loop argv0 (Suc i) s;
             Some (cmd # cmds) }
      else Some [])"
  by pat_completeness auto
termination
  by (relation "measure (\<lambda>(argv0, i, s). nat (hostnum s - int i))") auto

declare startNode_loop.simps [simp del]

definition startNodePrograms :: "string \<Rightarrow> 'a init_st_scheme \<Rightarrow> string list option" where
  "startNodePrograms argv0 s = startNode_loop argv0 1 s"

section \<open>What the parser computes\<close>

text \<open>
  The reference: the segments of a line are its maximal runs of characters that are neither
  blank nor the end of the line.
\<close>

definition in_seg :: "char \<Rightarrow> bool" where
  "in_seg c \<longleftrightarrow> \<not> is_blank c \<and> \<not> is_end c"

lemma length_skip_blanks: "length (skip_blanks s) \<le> length s"
  by (induction s) auto

lemma skip_blanks_idem [simp]: "skip_blanks (skip_blanks s) = skip_blanks s"
  by (induction s) auto

lemma is_end_nul [simp]: "is_end CHR 0x00" "is_end CHR 0x0A" "\<not> is_blank CHR 0x00" "\<not> is_blank CHR 0x0A"
  by (simp_all add: is_end_def is_blank_def)

lemma in_seg_hd:
  "skip_blanks s = s \<Longrightarrow> \<not> is_end (c_at s) \<Longrightarrow> \<exists>c cs. s = c # cs \<and> in_seg c"
  using length_skip_blanks
  by (cases s) (auto simp: c_at_def in_seg_def split: if_splits, metis impossible_Cons length_skip_blanks)

function segments :: "string \<Rightarrow> string list" where
  "segments s =
     (let r = skip_blanks s in
      if is_end (c_at r) then [] else takeWhile in_seg r # segments (dropWhile in_seg r))"
  by pat_completeness auto
termination
proof (relation "measure length", goal_cases)
  case (2 s r)
  then obtain c cs where "r = c # cs" "in_seg c"
    using in_seg_hd [of r] by auto
  then have "length (dropWhile in_seg r) < length r"
    by (simp add: length_dropWhile_le less_Suc_eq_le)
  also have "length r \<le> length s"
    using 2 length_skip_blanks by simp
  finally show ?case by simp
qed simp

declare segments.simps [simp del]

lemma segments_skip: "segments (skip_blanks s) = segments s"
  by (simp add: segments.simps [of s] segments.simps [of "skip_blanks s"])

lemma segments_Nil_iff: "segments s = [] \<longleftrightarrow> is_end (c_at (skip_blanks s))"
  by (simp add: segments.simps [of s] Let_def)

lemma take_seg_eq:
  "int len + int (length (takeWhile in_seg s)) < csz \<Longrightarrow>
    take_seg s len csz = (dropWhile in_seg s, len + length (takeWhile in_seg s))"
  by (induction s arbitrary: len) (auto simp: in_seg_def)

lemma take_seg_bound:
  "take_seg s len csz = (t, n) \<Longrightarrow> int len < csz \<Longrightarrow>
    len \<le> n \<and> int n < csz \<and> n \<le> len + length s"
  by (induction s len csz rule: take_seg.induct) (auto split: if_splits)

lemma not_in_seg_rest: "\<not> in_seg (c_at (dropWhile in_seg s))"
proof (cases "dropWhile in_seg s")
  case Nil
  show ?thesis unfolding Nil by (simp add: c_at_def in_seg_def)
next
  case (Cons c cs)
  then show ?thesis using hd_dropWhile [of in_seg s] by (auto simp: c_at_def)
qed

lemma seg_loop_step:
  assumes "int (length (takeWhile in_seg s)) < csz"
  shows "seg_loop s n csz =
    (if segments (dropWhile in_seg s) = []
     then (if 1 < n then (- 1, None) else (0, Some (takeWhile in_seg s)))
     else if n = 0 then (0, Some (takeWhile in_seg s))
     else seg_loop (skip_blanks (dropWhile in_seg s)) (n - 1) csz)"
proof -
  have t: "take_seg s 0 csz = (dropWhile in_seg s, length (takeWhile in_seg s))"
    using take_seg_eq [of 0 s csz] assms by simp
  have w: "take (length (takeWhile in_seg s)) s = takeWhile in_seg s"
    using takeWhile_eq_take [of in_seg s] by simp
  have d: "is_blank (c_at (dropWhile in_seg s)) \<or> is_end (c_at (dropWhile in_seg s))"
    using not_in_seg_rest [of s] by (simp add: in_seg_def)
  show ?thesis
    using d by (auto simp: seg_loop.simps [of s] t w segments_Nil_iff Let_def split: nat.splits)
qed

lemma seg_loop_eq:
  assumes "skip_blanks s = s" "segments s \<noteq> []" "\<forall>w \<in> set (segments s). int (length w) < csz"
  shows "seg_loop s n csz =
    (if n < length (segments s) then (0, Some (segments s ! n))
     else if n = length (segments s) then (0, Some (last (segments s)))
     else (- 1, None))"
  using assms
proof (induction n arbitrary: s rule: less_induct)
  case (less n)
  let ?w = "takeWhile in_seg s" and ?t = "dropWhile in_seg s"
  have S: "segments s = ?w # segments ?t"
    using less.prems by (subst segments.simps) (simp add: segments_Nil_iff)
  have st: "seg_loop s n csz =
    (if segments ?t = [] then (if 1 < n then (- 1, None) else (0, Some ?w))
     else if n = 0 then (0, Some ?w) else seg_loop (skip_blanks ?t) (n - 1) csz)"
    by (rule seg_loop_step) (use less.prems S in simp)
  show ?case
  proof (cases "segments ?t = [] \<or> n = 0")
    case True
    then show ?thesis by (auto simp: st S nth_Cons split: nat.splits)
  next
    case False
    then have "seg_loop s n csz = seg_loop (skip_blanks ?t) (n - 1) csz"
      by (simp add: st)
    also have "\<dots> = (if n - 1 < length (segments ?t) then (0, Some (segments ?t ! (n - 1)))
       else if n - 1 = length (segments ?t) then (0, Some (last (segments ?t))) else (- 1, None))"
      using less.IH [of "n - 1" "skip_blanks ?t"] False less.prems S by (simp add: segments_skip)
    also have "\<dots> = (if n < length (segments s) then (0, Some (segments s ! n))
       else if n = length (segments s) then (0, Some (last (segments s))) else (- 1, None))"
      using False by (cases n) (auto simp: S)
    finally show ?thesis .
  qed
qed

lemma seg_loop_bound:
  "seg_loop s n csz = (r, c) \<Longrightarrow> 0 < csz \<Longrightarrow>
    (case c of None \<Rightarrow> r = - 1 | Some w \<Rightarrow> r = 0 \<and> int (length w) < csz)"
proof (induction n arbitrary: s)
  case 0
  obtain t k where t: "take_seg s 0 csz = (t, k)" by fastforce
  with 0 take_seg_bound [OF t] show ?case
    by (auto simp: seg_loop.simps [of s] Let_def split: if_splits)
next
  case (Suc n)
  obtain t k where t: "take_seg s 0 csz = (t, k)" by fastforce
  with Suc take_seg_bound [OF t] show ?case
    by (auto simp: seg_loop.simps [of s] Let_def split: if_splits)
qed

text \<open>The line of a host file: an address, then a user name, each shorter than its buffer.\<close>

definition host_line :: "string \<Rightarrow> bool" where
  "host_line line \<longleftrightarrow> (\<exists>a u. segments line = [a, u] \<and> length a < WORDSIZE \<and> length u < WORDSIZE)"

definition host_of :: "string \<Rightarrow> host_t" where
  "host_of line = \<lparr>address = segments line ! 0, username = segments line ! 1\<rparr>"

lemma readSeg_host_line:
  assumes "host_line line" "n < 2"
  shows "seg_loop (skip_blanks line) n (int WORDSIZE) = (0, Some (segments line ! n))"
  using assms seg_loop_eq [of "skip_blanks line" "int WORDSIZE" n]
  by (auto simp: host_line_def segments_skip)

lemma read_host_line:
  assumes "host_line line"
  shows "readAddrFromStr (Some line) True (int WORDSIZE) = (0, Some (address (host_of line)))"
    "readNameFromStr (Some line) True (int WORDSIZE) = (0, Some (username (host_of line)))"
  using readSeg_host_line [OF assms, of 0] readSeg_host_line [OF assms, of 1]
  by (simp_all add: readAddrFromStr_def readNameFromStr_def readSegFromStr_def host_of_def WORDSIZE_def)

definition host_rows :: "nat \<Rightarrow> string list \<Rightarrow> (nat \<Rightarrow> host_t) \<Rightarrow> nat \<Rightarrow> host_t" where
  "host_rows i lines f =
     (\<lambda>k. if i \<le> k \<and> k < i + length lines then host_of (lines ! (k - i)) else f k)"

lemma host_rows_Nil: "host_rows i [] f = f"
  by (rule ext) (auto simp: host_rows_def)

lemma host_rows_Cons: "host_rows (Suc i) ls (f(i := host_of l)) = host_rows i (l # ls) f"
  by (rule ext) (auto simp: host_rows_def nth_Cons not_less_eq_eq split: nat.splits
      intro!: arg_cong [where f = host_of] arg_cong [where f = "(!) ls"])

lemma host_of_fields [simp]:
  "h\<lparr>address := address (host_of l), username := username (host_of l)\<rparr> = host_of l"
  by (cases h) (simp add: host_of_def)

lemma read_lines_eq:
  "list_all host_line lines \<Longrightarrow> i + length lines \<le> MAX_HOST_NUM \<Longrightarrow>
    read_lines lines i s = Some (s\<lparr>hosts := host_rows i lines (hosts s),
       hostnum := hostnum s + int (length lines)\<rparr>)"
proof (induction lines arbitrary: i s)
  case Nil
  then show ?case by (simp add: host_rows_Nil)
next
  case (Cons l ls)
  then show ?case
    by (simp add: read_host_line host_rows_Cons algebra_simps)
qed

lemma read_lines_overflow:
  "MAX_HOST_NUM < i + length lines \<Longrightarrow> i \<le> MAX_HOST_NUM \<Longrightarrow> read_lines lines i s = None"
  by (induction lines arbitrary: i s) auto

lemma findHost_loop_eq:
  assumes "hostnum s \<le> int MAX_HOST_NUM"
  shows "findHost_loop name i s = Some (case find (\<lambda>k. username (hosts s k) = name)
    [i..<nat (hostnum s)] of None \<Rightarrow> - 1 | Some k \<Rightarrow> int k)"
  using assms
proof (induction name i s rule: findHost_loop.induct)
  case (1 name i s)
  then show ?case
    by (cases "int i < hostnum s")
      (auto simp: findHost_loop.simps [of name i s] upt_rec [of i "nat (hostnum s)"] zless_nat_eq_int_zless)
qed

section \<open>Properties\<close>

text \<open>C31: \<open>readSegFromStr\<close> on every call. A NULL line or buffer, a negative index or an empty buffer
  give -1. On a line whose segments fit the buffer, segment \<open>index\<close> is returned when there is one, the
  last segment is returned for the first index behind it, and every other index gives -1.\<close>

theorem readSegFromStr_spec:
  assumes "segments line \<noteq> []" "\<forall>w \<in> set (segments line). int (length w) < csz"
  shows "readSegFromStr (Some line) index True csz =
      (if index < 0 \<or> csz \<le> 0 then (- 1, None)
       else if nat index < length (segments line) then (0, Some (segments line ! nat index))
       else if nat index = length (segments line) then (0, Some (last (segments line)))
       else (- 1, None)) \<and>
    readSegFromStr None index True csz = (- 1, None) \<and>
    readSegFromStr (Some line) index False csz = (- 1, None)"
  using seg_loop_eq [of "skip_blanks line" csz "nat index"] assms
  by (auto simp: readSegFromStr_def segments_skip)

theorem readSegFromStr_spec_witness:
  "readSegFromStr (Some '' ab  c'') 1 True 80 = (0, Some ''c'') \<and>
   readSegFromStr (Some '' ab  c'') 2 True 80 = (0, Some ''c'') \<and>
   readSegFromStr (Some '' ab  c'') 3 True 80 = (- 1, None)"
proof -
  have s: "segments '' ab  c'' = [''ab'', ''c'']"
    by (simp add: segments.simps [of "'' ab  c''"] segments.simps [of "''  c''"]
        segments.simps [of "''''"] is_blank_def is_end_def in_seg_def c_at_def)
  have h: "segments '' ab  c'' \<noteq> []" "\<forall>w \<in> set (segments '' ab  c''). int (length w) < 80"
    by (simp_all add: s)
  show ?thesis
    using readSegFromStr_spec [OF h, of 1] readSegFromStr_spec [OF h, of 2]
      readSegFromStr_spec [OF h, of 3] by (simp add: s)
qed

text \<open>\<open>readSegFromStr\<close> never writes past its buffer, whatever the line: when it returns 0, the
  C string it leaves and its NUL fit into \<open>contentsize\<close> bytes, otherwise it writes nothing.\<close>

theorem readSegFromStr_bounds:
  "case readSegFromStr line index has_content csz of
     (r, None) \<Rightarrow> r = - 1 | (r, Some w) \<Rightarrow> r = 0 \<and> int (length w) + 1 \<le> csz"
proof -
  obtain r c where rc: "readSegFromStr line index has_content csz = (r, c)" by fastforce
  show ?thesis
  proof (cases "line = None \<or> index < 0 \<or> \<not> has_content \<or> csz \<le> 0")
    case True
    with rc show ?thesis by (auto simp: readSegFromStr_def split: option.splits)
  next
    case False
    then obtain s where "line = Some s" by auto
    with False rc seg_loop_bound [of "skip_blanks s" "nat index" csz r c] show ?thesis
      by (auto simp: readSegFromStr_def split: option.splits)
  qed
qed

text \<open>C32: \<open>readHosts\<close> on a file of well formed lines (an address and a user name each) fills slot \<open>i\<close>
  of \<open>hosts\<close> from line \<open>i\<close> and counts the lines in \<open>hostnum\<close>; a file with more lines than
  \<open>MAX_HOST_NUM\<close> runs past the array.\<close>

theorem readHosts_table:
  assumes "list_all host_line lines"
  shows "(length lines \<le> MAX_HOST_NUM \<longrightarrow> (\<exists>s. readHosts (Some lines) init_globals = Some s \<and>
      hostnum s = int (length lines) \<and>
      (\<forall>i<length lines. [address (hosts s i), username (hosts s i)] = segments (lines ! i)))) \<and>
    (MAX_HOST_NUM < length lines \<longrightarrow> readHosts (Some lines) init_globals = None)"
proof (intro conjI impI)
  assume n: "length lines \<le> MAX_HOST_NUM"
  have "[address (host_of l), username (host_of l)] = segments l" if "host_line l" for l
    using that by (auto simp: host_line_def host_of_def)
  then have "\<forall>i<length lines. [address (host_of (lines ! i)), username (host_of (lines ! i))] =
      segments (lines ! i)"
    using assms by (simp add: list_all_length)
  then show "\<exists>s. readHosts (Some lines) init_globals = Some s \<and> hostnum s = int (length lines) \<and>
      (\<forall>i<length lines. [address (hosts s i), username (hosts s i)] = segments (lines ! i))"
    using read_lines_eq [OF assms, of 0 init_globals] n
    by (simp add: readHosts_def init_globals_def host_rows_def)
next
  assume "MAX_HOST_NUM < length lines"
  then show "readHosts (Some lines) init_globals = None"
    using read_lines_overflow [of 0 lines] by (simp add: readHosts_def)
qed

theorem readHosts_table_witness:
  "\<exists>s. readHosts (Some [''1.2 u'', ''1.3 v'']) init_globals = Some s \<and> hostnum s = 2 \<and>
    username (hosts s 1) = ''v''"
proof -
  have s: "segments ''1.2 u'' = [''1.2'', ''u'']" "segments ''1.3 v'' = [''1.3'', ''v'']"
    by (simp_all add: segments.simps [of "''1.2 u''"] segments.simps [of "'' u''"]
        segments.simps [of "''1.3 v''"] segments.simps [of "'' v''"]
        segments.simps [of "''''"] is_blank_def is_end_def in_seg_def c_at_def)
  have "list_all host_line [''1.2 u'', ''1.3 v'']"
    by (simp add: host_line_def s WORDSIZE_def)
  from readHosts_table [OF this] show ?thesis
    by (auto simp: s MAX_HOST_NUM_def numeral_2_eq_2 All_less_Suc)
qed

text \<open>\<open>findHostIdByName\<close> returns for every name: the first host with that user name, -1 when no
  host has it, -1 for NULL.\<close>

theorem findHostIdByName_spec:
  assumes "hostnum s \<le> int MAX_HOST_NUM"
  shows "\<exists>r. findHostIdByName (Some name) s = Some r \<and>
    (if \<exists>k<nat (hostnum s). username (hosts s k) = name
     then 0 \<le> r \<and> r < hostnum s \<and> username (hosts s (nat r)) = name \<and>
       (\<forall>j<nat r. username (hosts s j) \<noteq> name)
     else r = - 1) \<and> findHostIdByName None s = Some (- 1)"
proof (cases "find (\<lambda>k. username (hosts s k) = name) [0..<nat (hostnum s)]")
  case None
  then show ?thesis
    using findHost_loop_eq [OF assms, of name 0] None
    by (simp add: findHostIdByName_def) (auto simp: find_None_iff)
next
  case (Some k)
  then have k: "k < nat (hostnum s)" "username (hosts s k) = name"
    "\<forall>j<k. username (hosts s j) \<noteq> name"
    by (auto simp: find_Some_iff)
  then show ?thesis
    using findHost_loop_eq [OF assms, of name 0] Some by (auto simp: findHostIdByName_def)
qed

theorem findHostIdByName_spec_witness:
  "findHostIdByName (Some ''v'') \<lparr>hosts = (\<lambda>k. \<lparr>address = [], username = (if k = 0 then ''u'' else ''v'')\<rparr>),
     hostnum = 3, myhostid = 0\<rparr> = Some 1"
proof -
  let ?s = "\<lparr>hosts = (\<lambda>k. \<lparr>address = [], username = (if k = 0 then ''u'' else ''v'')\<rparr>),
     hostnum = 3, myhostid = 0\<rparr>"
  have hn: "hostnum ?s \<le> int MAX_HOST_NUM" by (simp add: MAX_HOST_NUM_def)
  have ex: "\<exists>k<nat (hostnum ?s). username (hosts ?s k) = ''v''"
    by (rule exI [of _ 1]) simp
  obtain r where r: "findHostIdByName (Some ''v'') ?s = Some r" "0 \<le> r"
    "username (hosts ?s (nat r)) = ''v''" "\<forall>j<nat r. username (hosts ?s j) \<noteq> ''v''"
    using findHostIdByName_spec [OF hn, of "''v''"] unfolding if_P [OF ex] by blast
  have "nat r \<noteq> 0" using r(3) by (auto split: if_splits)
  moreover have "\<not> 1 < nat r" using r(4) by (auto dest!: spec [of _ 1])
  ultimately have "nat r = 1" by simp
  with r(1,2) show ?thesis by (simp add: nat_eq_iff)
qed

end
