(* ===== verification/Timestamps.thy ===== *)
theory Timestamps
  imports Prelude
begin

text \<open>
  Vector timestamps (\<open>isAfterInterval\<close> in \<open>src/mem.c\<close>): an \<open>int\<close> array with one component per
  host, of which the first \<open>hostnum\<close> are compared. The loop of the source is shown to decide a
  strict partial order, and the order is stated as a locale whose lemmas the users of timestamps
  share.
\<close>

section \<open>The comparison of the source\<close>

type_synonym timestamp = "int list"

definition zero_ts :: timestamp where
  "zero_ts = replicate MAX_HOST_NUM 0"

text \<open>The loop of \<open>isAfterInterval\<close>; an index outside one of the arrays is undefined.\<close>

function isAfter_loop :: "int \<Rightarrow> timestamp \<Rightarrow> timestamp \<Rightarrow> nat \<Rightarrow> int \<Rightarrow> int option" where
  "isAfter_loop hostnum ts target i bigger =
     (if int i < hostnum then
        (if i < length ts \<and> i < length target then
           (if ts ! i > target ! i then isAfter_loop hostnum ts target (Suc i) 1
            else if ts ! i < target ! i then Some 0
            else isAfter_loop hostnum ts target (Suc i) bigger)
         else None)
      else if bigger = 1 then Some 1 else Some 0)"
  by pat_completeness auto
termination
  by (relation "measure (\<lambda>(hostnum, ts, target, i, bigger). nat (hostnum - int i))") auto

declare isAfter_loop.simps [simp del]

definition isAfterInterval :: "int \<Rightarrow> timestamp option \<Rightarrow> timestamp option \<Rightarrow> int option" where
  "isAfterInterval hostnum ts target =
     (case (ts, target) of
        (Some t, Some u) \<Rightarrow> isAfter_loop hostnum t u 0 0
      | _ \<Rightarrow> Some (- 1))"

section \<open>The order it decides\<close>

text \<open>\<open>ts_after n t u\<close>: every one of the first \<open>n\<close> components of \<open>t\<close> is at least that of \<open>u\<close>,
  and one is bigger.\<close>

definition ts_after :: "nat \<Rightarrow> timestamp \<Rightarrow> timestamp \<Rightarrow> bool" where
  "ts_after n t u \<longleftrightarrow> (\<forall>i<n. u ! i \<le> t ! i) \<and> (\<exists>i<n. u ! i < t ! i)"

lemma isAfter_loop_eq:
  assumes "hostnum \<le> int (length t)" "hostnum \<le> int (length u)"
  shows "isAfter_loop hostnum t u i b =
    Some (if (\<forall>j. i \<le> j \<and> int j < hostnum \<longrightarrow> u ! j \<le> t ! j) \<and>
             (b = 1 \<or> (\<exists>j. i \<le> j \<and> int j < hostnum \<and> u ! j < t ! j)) then 1 else 0)"
  using assms
proof (induction hostnum t u i b rule: isAfter_loop.induct)
  case (1 hostnum t u i b)
  have le: "i \<le> j \<longleftrightarrow> j = i \<or> Suc i \<le> j" for j by auto
  have split: "(\<forall>j. i \<le> j \<and> int j < hostnum \<longrightarrow> P j) \<longleftrightarrow>
      P i \<and> (\<forall>j. Suc i \<le> j \<and> int j < hostnum \<longrightarrow> P j)"
    "(\<exists>j. i \<le> j \<and> int j < hostnum \<and> P j) \<longleftrightarrow>
      P i \<or> (\<exists>j. Suc i \<le> j \<and> int j < hostnum \<and> P j)" if "int i < hostnum" for P
    using that unfolding le by blast+
  show ?case
  proof (cases "int i < hostnum")
    case True
    have len: "i < length t" "i < length u"
      using True "1.prems" by linarith+
    consider "t ! i > u ! i" | "t ! i < u ! i" | "t ! i = u ! i" by linarith
    then show ?thesis
    proof cases
      case 1
      show ?thesis
        by (subst isAfter_loop.simps) (use True len 1 "1.IH"(1) "1.prems" in \<open>simp add: split\<close>)
    next
      case 2
      show ?thesis
        by (subst isAfter_loop.simps) (use True len 2 in \<open>simp add: split\<close>)
    next
      case 3
      show ?thesis
        by (subst isAfter_loop.simps) (use True len 3 "1.IH"(2) "1.prems" in \<open>simp add: split\<close>)
    qed
  next
    case False
    then show ?thesis by (subst isAfter_loop.simps) auto
  qed
qed

lemma isAfterInterval_eq:
  assumes "0 \<le> hostnum" "hostnum \<le> int (length t)" "hostnum \<le> int (length u)"
  shows "isAfterInterval hostnum (Some t) (Some u) =
    Some (if ts_after (nat hostnum) t u then 1 else 0)"
  using assms by (simp add: isAfterInterval_def isAfter_loop_eq ts_after_def nat_less_iff zless_nat_eq_int_zless)

lemma ts_after_irrefl: "\<not> ts_after n t t"
  by (simp add: ts_after_def)

lemma ts_after_trans: "ts_after n t u \<Longrightarrow> ts_after n u v \<Longrightarrow> ts_after n t v"
  unfolding ts_after_def by (meson order.strict_trans1 order_trans)

section \<open>The order as an interface\<close>

text \<open>
  What the users of timestamps rely on: the comparison is a strict order. The lemmas on the
  selection of a latest element (the loop of \<open>fetchPage\<close>) hold for every such comparison.
\<close>

fun pick_latest :: "('t \<Rightarrow> 't \<Rightarrow> bool) \<Rightarrow> ('k \<times> 't) option \<Rightarrow> ('k \<times> 't) list \<Rightarrow> ('k \<times> 't) option" where
  "pick_latest after best [] = best"
| "pick_latest after None (x # xs) = pick_latest after (Some x) xs"
| "pick_latest after (Some b) (x # xs) =
     pick_latest after (Some (if after (snd x) (snd b) then x else b)) xs"

locale timestamp_order =
  fixes after :: "'t \<Rightarrow> 't \<Rightarrow> bool"
  assumes irrefl: "\<not> after t t"
    and trans: "after t u \<Longrightarrow> after u v \<Longrightarrow> after t v"
begin

lemma asym: "after t u \<Longrightarrow> \<not> after u t"
  using irrefl trans by blast

lemma pick_latest_Some:
  "\<exists>r. pick_latest after (Some b) xs = Some r \<and> r \<in> insert b (set xs) \<and>
     (r = b \<or> after (snd r) (snd b)) \<and> (\<forall>x \<in> insert b (set xs). \<not> after (snd x) (snd r))"
proof (induction xs arbitrary: b)
  case Nil
  then show ?case by (simp add: irrefl)
next
  case (Cons x xs)
  let ?b = "if after (snd x) (snd b) then x else b"
  obtain r where r: "pick_latest after (Some ?b) xs = Some r" "r \<in> insert ?b (set xs)"
    "r = ?b \<or> after (snd r) (snd ?b)" "\<forall>y \<in> insert ?b (set xs). \<not> after (snd y) (snd r)"
    using Cons.IH by blast
  have up: "r = b \<or> after (snd r) (snd b)"
    using r(3) by (cases "after (snd x) (snd b)") (auto intro: trans)
  have "\<not> after (snd b) (snd r)"
    using up irrefl asym by blast
  moreover have "\<not> after (snd x) (snd r)"
  proof (cases "after (snd x) (snd b)")
    case True
    with r(4) show ?thesis by simp
  next
    case False
    with up show ?thesis by (blast intro: trans)
  qed
  ultimately show ?case using r up by (auto split: if_splits)
qed

lemma pick_latest_maximal:
  assumes "xs \<noteq> []"
  shows "\<exists>r. pick_latest after None xs = Some r \<and> r \<in> set xs \<and>
    (\<forall>x \<in> set xs. \<not> after (snd x) (snd r))"
proof (cases xs)
  case (Cons y ys)
  then show ?thesis using pick_latest_Some [of y ys] by auto
qed (use assms in simp)

end

interpretation ts: timestamp_order "ts_after n" for n
  by unfold_locales (auto intro: ts_after_trans simp: ts_after_irrefl)

section \<open>Properties\<close>

text \<open>The loop of \<open>isAfterInterval\<close> returns for every pair of timestamps that have at least
  \<open>hostnum\<close> components, with 1 exactly when no component of the first is below its counterpart and
  one is above it, and with 0 otherwise; a NULL timestamp gives -1.\<close>

theorem isAfterInterval_decides:
  assumes "0 \<le> hn" "hn \<le> int (length t)" "hn \<le> int (length u)"
  shows "isAfterInterval hn (Some t) (Some u) =
      Some (if (\<forall>i<nat hn. u ! i \<le> t ! i) \<and> (\<exists>i<nat hn. u ! i < t ! i) then 1 else 0) \<and>
    isAfterInterval hn None (Some u) = Some (- 1) \<and> isAfterInterval hn (Some t) None = Some (- 1)"
  using isAfterInterval_eq [OF assms] by (simp add: ts_after_def isAfterInterval_def)

theorem isAfterInterval_decides_witness:
  "isAfterInterval 3 (Some [2, 1, 5]) (Some [1, 1, 5]) = Some 1 \<and>
   isAfterInterval 3 (Some [2, 1, 5]) (Some [1, 2, 5]) = Some 0"
  using isAfterInterval_decides [of 3 "[2, 1, 5]" "[1, 1, 5]"]
    isAfterInterval_decides [of 3 "[2, 1, 5]" "[1, 2, 5]"]
  by (simp add: numeral_3_eq_3 All_less_Suc Ex_less_Suc)

text \<open>"Is after" is a strict order on timestamps: it is never true of a timestamp and itself, it
  is not true in both directions, and it is transitive. Intervals that neither precede nor follow
  each other are concurrent.\<close>

theorem isAfterInterval_strict_order:
  assumes "0 \<le> hn" "hn \<le> int (length t)" "hn \<le> int (length u)" "hn \<le> int (length v)"
    and "isAfterInterval hn (Some t) (Some u) = Some 1" "isAfterInterval hn (Some u) (Some v) = Some 1"
  shows "isAfterInterval hn (Some t) (Some v) = Some 1 \<and>
    isAfterInterval hn (Some u) (Some t) = Some 0 \<and> isAfterInterval hn (Some t) (Some t) = Some 0"
proof -
  have "ts_after (nat hn) t u" "ts_after (nat hn) u v"
    using assms by (simp_all add: isAfterInterval_eq split: if_splits)
  then have "ts_after (nat hn) t v" "\<not> ts_after (nat hn) u t" "\<not> ts_after (nat hn) t t"
    using ts.trans ts.asym ts.irrefl by blast+
  then show ?thesis
    using assms by (simp_all add: isAfterInterval_eq)
qed

theorem isAfterInterval_strict_order_witness:
  "isAfterInterval 2 (Some [3, 2]) (Some [1, 1]) = Some 1 \<and>
   isAfterInterval 2 (Some [2, 1]) (Some [3, 2]) = Some 0"
proof -
  have "isAfterInterval 2 (Some [3, 2]) (Some [2, 1]) = Some 1"
    "isAfterInterval 2 (Some [2, 1]) (Some [1, 1]) = Some 1"
    by (simp_all add: isAfterInterval_def isAfter_loop.simps)
  from isAfterInterval_strict_order [OF _ _ _ _ this] show ?thesis by simp
qed

end
