(* ===== verification/Net.thy ===== *)
theory Net
  imports Init Timestamps
begin

text \<open>
  Messages, the two message queues, the ports and reliable sending (\<open>src/net.h\<close>, \<open>src/net.c\<close>).
  The operating system appears as data: \<open>wire\<close> and \<open>acks_out\<close> record the datagrams handed to
  \<open>sendto\<close>, \<open>ack_env\<close> holds for every transmission the acknowledgements \<open>recvfrom\<close> yields before
  the timeout of that transmission, \<open>junk\<close> is the content of uninitialised stack memory.
\<close>

section \<open>Messages\<close>

datatype command_t = TEST_COMMAND | ACQ_LOCK | RLS_LOCK | GRANT_LOCK | ENTER_BARRIER | EXIT_BARRIER
  | GRANT_WN_I | GRANT_DIFF | GRANT_PAGE | FETCH_PAGE | FETCH_WN_I | FETCH_DIFF
  | GRANT_ENTER_BARRIER_INFO | GRANT_EXIT_BARRIER_INFO

text \<open>The value of an enumerator, and the enumerator the \<open>switch\<close> of \<open>dispatchMsg\<close> selects.\<close>

definition commands :: "command_t list" where
  "commands = [TEST_COMMAND, ACQ_LOCK, RLS_LOCK, GRANT_LOCK, ENTER_BARRIER, EXIT_BARRIER,
     GRANT_WN_I, GRANT_DIFF, GRANT_PAGE, FETCH_PAGE, FETCH_WN_I, FETCH_DIFF,
     GRANT_ENTER_BARRIER_INFO, GRANT_EXIT_BARRIER_INFO]"

fun cmd_code :: "command_t \<Rightarrow> int" where
  "cmd_code TEST_COMMAND = 0"
| "cmd_code ACQ_LOCK = 1"
| "cmd_code RLS_LOCK = 2"
| "cmd_code GRANT_LOCK = 3"
| "cmd_code ENTER_BARRIER = 4"
| "cmd_code EXIT_BARRIER = 5"
| "cmd_code GRANT_WN_I = 6"
| "cmd_code GRANT_DIFF = 7"
| "cmd_code GRANT_PAGE = 8"
| "cmd_code FETCH_PAGE = 9"
| "cmd_code FETCH_WN_I = 10"
| "cmd_code FETCH_DIFF = 11"
| "cmd_code GRANT_ENTER_BARRIER_INFO = 12"
| "cmd_code GRANT_EXIT_BARRIER_INFO = 13"

definition command_of :: "int \<Rightarrow> command_t option" where
  "command_of c = find (\<lambda>k. cmd_code k = c) commands"

lemma cmd_code_inj [simp]: "cmd_code a = cmd_code b \<longleftrightarrow> a = b"
  by (cases a; cases b) simp_all

lemma cmd_code_nonneg [simp]: "cmd_code c \<noteq> - 1" "0 \<le> cmd_code c"
  by (cases c; simp)+

lemma command_of_code [simp]: "command_of (cmd_code c) = Some c"
  by (cases c) (simp_all add: command_of_def commands_def)

record mimsg_t =
  m_from :: int
  m_to :: int
  m_command :: int
  m_size :: int
  m_seqno :: int
  m_timestamp :: timestamp
  m_data :: buffer

text \<open>A message slot after \<open>nextFreeMsgInQueue\<close> has cleared it.\<close>

definition empty_msg :: mimsg_t where
  "empty_msg = \<lparr>m_from = - 1, m_to = - 1, m_command = - 1, m_size = 0, m_seqno = - 1,
     m_timestamp = replicate MAX_HOST_NUM (- 1), m_data = (\<lambda>_. 0)\<rparr>"

lemma empty_msg_fields [simp]:
  "m_from empty_msg = - 1" "m_to empty_msg = - 1" "m_command empty_msg = - 1"
  "m_size empty_msg = 0" "m_seqno empty_msg = - 1"
  "m_timestamp empty_msg = replicate MAX_HOST_NUM (- 1)" "m_data empty_msg = (\<lambda>_. 0)"
  by (simp_all add: empty_msg_def)

text \<open>What \<open>sendto\<close> transmits: the head and the first \<open>m->size\<close> bytes of \<open>data\<close>; the receiver
  reads it into a cleared slot.\<close>

definition wire_msg :: "mimsg_t \<Rightarrow> mimsg_t" where
  "wire_msg m = m\<lparr>m_data := (\<lambda>i. if int i < m_size m then m_data m i else 0)\<rparr>"

section \<open>State\<close>

record netmanager =
  snd_fds :: "nat \<Rightarrow> int"
  snd_seqs :: "nat \<Rightarrow> int"
  recv_fds :: "nat \<Rightarrow> int"
  recv_seqs :: "nat \<Rightarrow> int"
  recv_fdset :: "int set"
  recv_maxfd :: int

definition empty_manager :: netmanager where
  "empty_manager = \<lparr>snd_fds = (\<lambda>_. 0), snd_seqs = (\<lambda>_. 0), recv_fds = (\<lambda>_. 0),
     recv_seqs = (\<lambda>_. 0), recv_fdset = {}, recv_maxfd = 0\<rparr>"

text \<open>A datagram: destination host, destination port, content.\<close>

type_synonym datagram = "nat \<times> int \<times> mimsg_t"

record net_st = init_st +
  sndQueue :: "nat \<Rightarrow> mimsg_t"
  recvQueue :: "nat \<Rightarrow> mimsg_t"
  sndHead :: nat
  sndTail :: nat
  sndQueueSize :: nat
  recvHead :: nat
  recvTail :: nat
  recvQueueSize :: nat
  dataPorts :: "nat \<Rightarrow> nat \<Rightarrow> int"
  ackPorts :: "nat \<Rightarrow> nat \<Rightarrow> int"
  datamanager :: netmanager
  ackmanager :: netmanager
  isSigioDisabled :: int
  isSendingMsg :: int
  wire :: "datagram list"
  acks_out :: "(nat \<times> int \<times> int) list"
  ack_env :: "int list list"
  junk :: buffer

text \<open>The zero-initialised globals of \<open>net.c\<close>, with nothing sent and nothing to be received.\<close>

definition zero_msg :: mimsg_t where
  "zero_msg = \<lparr>m_from = 0, m_to = 0, m_command = 0, m_size = 0, m_seqno = 0,
     m_timestamp = replicate MAX_HOST_NUM 0, m_data = (\<lambda>_. 0)\<rparr>"

definition net_globals :: net_st where
  "net_globals = init_st.extend init_globals (net_st.fields (\<lambda>_. zero_msg) (\<lambda>_. zero_msg)
     0 0 0 0 0 0 (\<lambda>_ _. 0) (\<lambda>_ _. 0) empty_manager empty_manager 0 0 [] [] [] (\<lambda>_. 0))"

lemma net_globals_simps [simp]:
  "myhostid net_globals = 0" "hostnum net_globals = 0" "sndQueueSize net_globals = 0"
  "recvQueueSize net_globals = 0" "sndHead net_globals = 0" "sndTail net_globals = 0"
  "recvHead net_globals = 0" "recvTail net_globals = 0" "isSendingMsg net_globals = 0"
  "isSigioDisabled net_globals = 0" "sndQueue net_globals = (\<lambda>_. zero_msg)"
  "recvQueue net_globals = (\<lambda>_. zero_msg)" "wire net_globals = []" "ack_env net_globals = []"
  "acks_out net_globals = []" "datamanager net_globals = empty_manager" "dataPorts net_globals = (\<lambda>_ _. 0)"
  by (simp_all add: net_globals_def init_globals_def init_st.defs net_st.defs)

definition disableSigio :: "'a net_st_scheme \<Rightarrow> 'a net_st_scheme" where
  "disableSigio s = s\<lparr>isSigioDisabled := 1\<rparr>"

definition enableSigio :: "'a net_st_scheme \<Rightarrow> 'a net_st_scheme" where
  "enableSigio s = s\<lparr>isSigioDisabled := 0\<rparr>"

section \<open>The message queues\<close>

text \<open>A \<open>mimsg_t *\<close> that points into one of the two queues.\<close>

datatype msgref = SndSlot nat | RcvSlot nat

fun msg_at :: "'a net_st_scheme \<Rightarrow> msgref \<Rightarrow> mimsg_t" where
  "msg_at s (SndSlot k) = sndQueue s k"
| "msg_at s (RcvSlot k) = recvQueue s k"

fun set_msg :: "msgref \<Rightarrow> mimsg_t \<Rightarrow> 'a net_st_scheme \<Rightarrow> 'a net_st_scheme" where
  "set_msg (SndSlot k) m s = s\<lparr>sndQueue := (sndQueue s)(k := m)\<rparr>"
| "set_msg (RcvSlot k) m s = s\<lparr>recvQueue := (recvQueue s)(k := m)\<rparr>"

text \<open>Assignments through the pointer; through NULL they are undefined.\<close>

fun msg_upd :: "msgref option \<Rightarrow> (mimsg_t \<Rightarrow> mimsg_t) \<Rightarrow> 'a net_st_scheme \<Rightarrow> 'a net_st_scheme option" where
  "msg_upd None f s = None"
| "msg_upd (Some r) f s = Some (set_msg r (f (msg_at s r)) s)"

definition msgEnqueue :: "int \<Rightarrow> 'a net_st_scheme \<Rightarrow> int \<times> 'a net_st_scheme" where
  "msgEnqueue ty s =
     (if ty \<noteq> 0 \<and> ty \<noteq> 1 then (- 1, s)
      else if ty = 0 then
        (if sndQueueSize s = MAX_QUEUE_SIZE then (- 2, s)
         else (0, s\<lparr>sndTail := (sndTail s + 1) mod MAX_QUEUE_SIZE, sndQueueSize := sndQueueSize s + 1\<rparr>))
      else
        (if recvQueueSize s = MAX_QUEUE_SIZE then (- 2, s)
         else (0, s\<lparr>recvTail := (recvTail s + 1) mod MAX_QUEUE_SIZE, recvQueueSize := recvQueueSize s + 1\<rparr>)))"

definition nextFreeMsgInQueue :: "int \<Rightarrow> 'a net_st_scheme \<Rightarrow> msgref option \<times> 'a net_st_scheme" where
  "nextFreeMsgInQueue ty s =
     (if ty \<noteq> 0 \<and> ty \<noteq> 1 then (None, s)
      else if ty = 0 then
        (if sndQueueSize s = MAX_QUEUE_SIZE then (None, s)
         else (Some (SndSlot (sndTail s)), set_msg (SndSlot (sndTail s)) empty_msg s))
      else
        (if recvQueueSize s = MAX_QUEUE_SIZE then (None, s)
         else (Some (RcvSlot (recvTail s)), set_msg (RcvSlot (recvTail s)) empty_msg s)))"

definition queueTop :: "int \<Rightarrow> 'a net_st_scheme \<Rightarrow> msgref option" where
  "queueTop ty s =
     (if ty \<noteq> 0 \<and> ty \<noteq> 1 then None
      else if ty = 0 then (if sndQueueSize s = 0 then None else Some (SndSlot (sndHead s)))
      else (if recvQueueSize s = 0 then None else Some (RcvSlot (recvHead s))))"

definition msgDequeue :: "int \<Rightarrow> 'a net_st_scheme \<Rightarrow> int \<times> 'a net_st_scheme" where
  "msgDequeue ty s =
     (if ty \<noteq> 0 \<and> ty \<noteq> 1 then (- 1, s)
      else if ty = 0 then
        (if sndQueueSize s = 0 then (- 2, s)
         else (0, s\<lparr>sndHead := (sndHead s + 1) mod MAX_QUEUE_SIZE, sndQueueSize := sndQueueSize s - 1\<rparr>))
      else
        (if recvQueueSize s = 0 then (- 2, s)
         else (0, s\<lparr>recvHead := (recvHead s + 1) mod MAX_QUEUE_SIZE, recvQueueSize := recvQueueSize s - 1\<rparr>)))"

text \<open>
  \<open>apendMsgData(msg, data, len)\<close>: \<open>data\<close> is the memory the pointer leads to, or NULL. A copy past
  the end of \<open>msg->data\<close>, or past the end of the source, is undefined.
\<close>

definition apendMsgData :: "msgref option \<Rightarrow> byte list option \<Rightarrow> int \<Rightarrow> 'a net_st_scheme \<Rightarrow>
    (int \<times> 'a net_st_scheme) option" where
  "apendMsgData msg src len s =
     (case (msg, src) of
        (Some r, Some bs) \<Rightarrow>
          (if len \<le> 0 then Some (- 1, s)
           else if len > int DATA_SIZE then Some (- 2, s)
           else let m = msg_at s r in
             if 0 \<le> m_size m \<and> m_size m + len \<le> int DATA_SIZE \<and> nat len \<le> length bs
             then Some (0, set_msg r (m\<lparr>m_data := poke (m_data m) (nat (m_size m)) (take (nat len) bs),
                                       m_size := m_size m + len\<rparr>) s)
             else None)
      | _ \<Rightarrow> Some (- 1, s))"

section \<open>Sockets and ports\<close>

text \<open>\<open>createSocket\<close>; \<open>fd\<close> is the descriptor \<open>socket\<close> returns.\<close>

definition createSocket :: "int \<Rightarrow> int \<Rightarrow> int \<Rightarrow> int \<Rightarrow> int" where
  "createSocket port isRecv bufSize fd =
     (if (0 \<le> port \<and> port < 1024) \<or> (isRecv \<noteq> 0 \<and> isRecv \<noteq> 1) \<or> bufSize \<le> 0 then - 1 else fd)"

definition data_port :: "nat \<Rightarrow> nat \<Rightarrow> int" where
  "data_port i j = int (BASEPORT + (i + 1) * MAX_HOST_NUM + j + 1)"

definition ack_port :: "nat \<Rightarrow> nat \<Rightarrow> int" where
  "ack_port i j = int (BASEPORT + (i + 1) * MAX_HOST_NUM * MAX_HOST_NUM + (j + 1) * MAX_HOST_NUM)"

text \<open>The socket loops of \<open>initnet\<close>: turn \<open>i\<close> of the loop creates a receiving and a sending socket;
  \<open>fds\<close> lists the descriptors the calls of \<open>socket\<close> return.\<close>

fun open_sockets :: "(nat \<Rightarrow> int) \<Rightarrow> int \<Rightarrow> nat \<Rightarrow> nat \<Rightarrow> (int \<times> int) list \<Rightarrow> netmanager \<Rightarrow> netmanager" where
  "open_sockets ports bufSize i 0 fds nm = nm"
| "open_sockets ports bufSize i (Suc n) [] nm = nm"
| "open_sockets ports bufSize i (Suc n) ((fr, fw) # fds) nm =
     (let fd = createSocket (ports i) 1 bufSize fr;
          nm = nm\<lparr>recv_fds := (recv_fds nm)(i := fd),
                  recv_maxfd := (if recv_maxfd nm \<ge> fd + 1 then recv_maxfd nm else fd + 1),
                  recv_fdset := insert fd (recv_fdset nm)\<rparr>;
          fd = createSocket (- 1) 0 bufSize fw;
          nm = nm\<lparr>snd_fds := (snd_fds nm)(i := fd)\<rparr>
      in open_sockets ports bufSize (Suc i) n fds nm)"

definition initnet :: "(int \<times> int) list \<Rightarrow> (int \<times> int) list \<Rightarrow> 'a net_st_scheme \<Rightarrow> 'a net_st_scheme option" where
  "initnet data_fds ack_fds s =
     do { me \<leftarrow> aidx (myhostid s) MAX_HOST_NUM;
          Some (s\<lparr>sndHead := 0, sndTail := 0, sndQueueSize := 0,
                  recvHead := 0, recvTail := 0, recvQueueSize := 0,
                  dataPorts := data_port, ackPorts := ack_port,
                  datamanager := open_sockets (data_port me) (int ((MAX_MSG_SIZE + 128) * 16)) 0
                                   MAX_HOST_NUM data_fds empty_manager,
                  ackmanager := open_sockets (ack_port me) 4 0 MAX_HOST_NUM ack_fds empty_manager\<rparr>) }"

section \<open>Sending\<close>

text \<open>The timeout of one attempt, in milliseconds (an \<open>unsigned long\<close>).\<close>

definition mytimeout :: "int \<Rightarrow> int \<Rightarrow> int" where
  "mytimeout hosts_n me =
     (if hosts_n \<le> 8 then int TIMEOUT - me * 100 else int TIMEOUT - me * 50) mod 2 ^ 64"

text \<open>The polling loop of one attempt, over the sequence numbers \<open>recvfrom\<close> delivers in time.\<close>

fun poll_acks :: "int \<Rightarrow> int list \<Rightarrow> bool" where
  "poll_acks seqno [] = False"
| "poll_acks seqno (a # as) = (if a = seqno then True else poll_acks seqno as)"

text \<open>
  The retry loop for the message \<open>m\<close>, transmitted to the host \<open>to\<close> at \<open>port\<close>. An acknowledgement
  increments the sequence number of \<open>msg->to\<close>, here \<open>orig\<close>: the destination of the message
  \<open>sendMsg\<close> was called with.
\<close>

function retry_loop :: "nat \<Rightarrow> mimsg_t \<Rightarrow> nat \<Rightarrow> int \<Rightarrow> nat \<Rightarrow> 'a net_st_scheme \<Rightarrow> 'a net_st_scheme" where
  "retry_loop retryNum m to port orig s =
     (if retryNum < MAX_RETRY_NUM then
        let s = s\<lparr>wire := wire s @ [(to, port, wire_msg m)]\<rparr>;
            acks = (case ack_env s of [] \<Rightarrow> [] | a # _ \<Rightarrow> a);
            s = s\<lparr>ack_env := tl (ack_env s)\<rparr>
        in if poll_acks (m_seqno m) acks
           then s\<lparr>datamanager := (datamanager s)\<lparr>snd_seqs := (snd_seqs (datamanager s))
                    (orig := s32 (snd_seqs (datamanager s) orig + 1))\<rparr>\<rparr>
           else retry_loop (Suc retryNum) m to port orig s
      else s)"
  by pat_completeness auto
termination
  by (relation "measure (\<lambda>(n, m, to, port, orig, s). MAX_RETRY_NUM - n)") auto

declare retry_loop.simps [simp del]

lemma retry_loop_frame:
  "\<exists>w e d. retry_loop n m to port orig s = s\<lparr>wire := w, ack_env := e, datamanager := d\<rparr>"
proof (induction n m to port orig s rule: retry_loop.induct)
  case (1 n m to port orig s)
  show ?case
  proof (cases "n < MAX_RETRY_NUM")
    case True
    show ?thesis
    proof (cases "poll_acks (m_seqno m) (case ack_env s of [] \<Rightarrow> [] | a # _ \<Rightarrow> a)")
      case poll: True
      show ?thesis
        by (subst retry_loop.simps) (simp add: True poll Let_def, blast)
    next
      case False
      with "1.IH" [OF True refl refl refl] show ?thesis
        by (subst retry_loop.simps) (auto simp: True Let_def)
    qed
  next
    case False
    then show ?thesis
      by (subst retry_loop.simps) (auto intro!: exI [of _ "wire s"] exI [of _ "ack_env s"]
          exI [of _ "datamanager s"])
  qed
qed

lemma retry_loop_queues [simp]:
  "sndQueueSize (retry_loop n m to port orig s) = sndQueueSize s"
  "sndHead (retry_loop n m to port orig s) = sndHead s"
  "sndTail (retry_loop n m to port orig s) = sndTail s"
  "sndQueue (retry_loop n m to port orig s) = sndQueue s"
  using retry_loop_frame [of n m to port orig s] by auto

text \<open>The loop of \<open>sendMsg\<close> that empties the sending queue; \<open>msg\<close> is the pointer it was called with.\<close>

function send_queue :: "msgref \<Rightarrow> 'a net_st_scheme \<Rightarrow> 'a net_st_scheme option" where
  "send_queue msg s =
     (if sndQueueSize s > 0 then
        (case queueTop 0 s of None \<Rightarrow> None
         | Some h \<Rightarrow>
             let m = msg_at s h in
             do { to \<leftarrow> aidx (m_to m) MAX_HOST_NUM;
                  from \<leftarrow> aidx (m_from m) MAX_HOST_NUM;
                  orig \<leftarrow> aidx (m_to (msg_at s msg)) MAX_HOST_NUM;
                  (if 0 \<le> m_size m \<and> m_size m \<le> int DATA_SIZE
                   then send_queue msg (snd (msgDequeue 0
                          (retry_loop 0 m to (dataPorts s to from) orig s)))
                   else None) })
      else Some s)"
  by pat_completeness auto
termination
  by (relation "measure (\<lambda>(msg, s). sndQueueSize s)") (auto simp: msgDequeue_def)

declare send_queue.simps [simp del]

definition sendMsg :: "msgref option \<Rightarrow> 'a net_st_scheme \<Rightarrow> (int \<times> 'a net_st_scheme) option" where
  "sendMsg msg s =
     (case msg of None \<Rightarrow> Some (- 1, s)
      | Some r \<Rightarrow>
          (if m_from (msg_at s r) \<noteq> myhostid s \<or> m_to (msg_at s r) = - 1 \<or> m_command (msg_at s r) = - 1
           then Some (- 1, s)
           else do { to \<leftarrow> aidx (m_to (msg_at s r)) MAX_HOST_NUM;
                     let s = set_msg r ((msg_at s r)\<lparr>m_seqno := snd_seqs (datamanager s) to\<rparr>) s;
                     let s = snd (msgEnqueue 0 s);
                     (if isSendingMsg s = 1 then Some (0, s)
                      else do { s \<leftarrow> send_queue r (s\<lparr>isSendingMsg := 1\<rparr>);
                                Some (0, s\<lparr>isSendingMsg := 0\<rparr>) }) }))"

section \<open>Properties\<close>

text \<open>C30: \<open>apendMsgData\<close> on every branch. A NULL message or NULL data gives -1 whatever the length; so does
  a length that is not positive; a length above the size of \<open>data\<close> gives -2, all without any change.
  Data that fits behind what the message holds is appended: nothing before it and no other field or slot
  changes and the size grows by the length. A length that passes the test and still does not fit behind
  the data the message holds overruns the array.\<close>

theorem apendMsgData_appends:
  assumes "0 \<le> m_size (msg_at s r)" "m_size (msg_at s r) \<le> int DATA_SIZE" "nat len \<le> length bs"
  shows "apendMsgData None src len s = Some (- 1, s) \<and> apendMsgData msg None len s = Some (- 1, s) \<and>
    (if len \<le> 0 then apendMsgData (Some r) (Some bs) len s = Some (- 1, s)
     else if int DATA_SIZE < len then apendMsgData (Some r) (Some bs) len s = Some (- 2, s)
     else if int DATA_SIZE - m_size (msg_at s r) < len then apendMsgData (Some r) (Some bs) len s = None
     else \<exists>s'. apendMsgData (Some r) (Some bs) len s = Some (0, s') \<and> s' = set_msg r (msg_at s' r) s \<and>
       msg_at s' r = (msg_at s r)\<lparr>m_data := m_data (msg_at s' r), m_size := m_size (msg_at s r) + len\<rparr> \<and>
       peek (m_data (msg_at s' r)) 0 (nat (m_size (msg_at s' r))) =
         peek (m_data (msg_at s r)) 0 (nat (m_size (msg_at s r))) @ take (nat len) bs)"
proof -
  let ?m = "msg_at s r"
  have "peek (poke (m_data ?m) (nat (m_size ?m)) (take (nat len) bs)) 0 (nat (m_size ?m + len)) =
      peek (m_data ?m) 0 (nat (m_size ?m)) @ take (nat len) bs" if "0 < len"
    using that assms by (simp add: nat_add_distrib peek_add heap_simps)
  moreover have "msg_at (set_msg r m s) r = m" for m by (cases r) simp_all
  ultimately show ?thesis using assms by (auto simp: apendMsgData_def Let_def split: option.split)
qed

theorem apendMsgData_appends_witness:
  "\<exists>s'. apendMsgData (Some (SndSlot 0)) (Some [1, 2, 3]) 3 net_globals = Some (0, s') \<and>
     peek (m_data (msg_at s' (SndSlot 0))) 0 (nat (m_size (msg_at s' (SndSlot 0)))) = [1, 2, 3]"
  using apendMsgData_appends [of net_globals "SndSlot 0" 3 "[1, 2, 3]"]
  by (auto simp: zero_msg_def size_consts)

text \<open>After \<open>initnet\<close> the ports a host listens on are valid and pairwise different: one for the
  data of each peer and one for the acknowledgements of each peer.\<close>

theorem ports_distinct:
  assumes "initnet data_fds ack_fds s = Some s'" "i < MAX_HOST_NUM"
  shows "distinct (map (dataPorts s' i) [0..<MAX_HOST_NUM] @ map (ackPorts s' i) [0..<MAX_HOST_NUM]) \<and>
    (\<forall>p \<in> set (map (dataPorts s' i) [0..<MAX_HOST_NUM] @ map (ackPorts s' i) [0..<MAX_HOST_NUM]).
      1024 < p \<and> p < 65536)"
proof -
  have p: "dataPorts s' = data_port" "ackPorts s' = ack_port"
    using assms(1) by (auto simp: initnet_def bind_eq_Some_conv)
  show ?thesis
    using assms(2)
    by (auto simp: p distinct_map inj_on_def data_port_def ack_port_def BASEPORT_def MAX_HOST_NUM_def)
qed

theorem ports_distinct_witness:
  "distinct (map (data_port 3) [0..<MAX_HOST_NUM] @ map (ack_port 3) [0..<MAX_HOST_NUM])"
proof -
  obtain s' where s': "initnet [] [] net_globals = Some s'" "dataPorts s' = data_port"
    "ackPorts s' = ack_port"
    by (simp add: initnet_def)
  have "3 < MAX_HOST_NUM" by (simp add: MAX_HOST_NUM_def)
  from ports_distinct [OF s'(1) this] show ?thesis unfolding s' by blast
qed

end
