(* ===== verification/Queues.thy ===== *)
theory Queues
  imports Net
begin

text \<open>
  The two circular queues of \<open>src/net.c\<close> implement one interface, a FIFO of at most
  \<open>MAX_QUEUE_SIZE\<close> messages: the laws are a locale, its client lemmas (order of the messages
  through fillings and removals) are proved once and hold for both queues by interpretation.
\<close>

section \<open>The interface\<close>

locale bounded_fifo =
  fixes cap :: nat
    and inv :: "'s \<Rightarrow> bool"
    and items :: "'s \<Rightarrow> 'm list"
    and put :: "'m \<Rightarrow> 's \<Rightarrow> 's"
    and enq :: "'s \<Rightarrow> int \<times> 's"
    and deq :: "'s \<Rightarrow> int \<times> 's"
    and front :: "'s \<Rightarrow> 'm option"
  assumes items_bound: "inv s \<Longrightarrow> length (items s) \<le> cap"
    and put_enq: "inv s \<Longrightarrow> length (items s) < cap \<Longrightarrow>
      fst (enq (put m s)) = 0 \<and> inv (snd (enq (put m s))) \<and> items (snd (enq (put m s))) = items s @ [m]"
    and enq_full: "inv s \<Longrightarrow> length (items s) = cap \<Longrightarrow> enq s = (- 2, s)"
    and deq_empty: "inv s \<Longrightarrow> items s = [] \<Longrightarrow> deq s = (- 2, s)"
    and deq_cons: "inv s \<Longrightarrow> items s = m # ms \<Longrightarrow>
      fst (deq s) = 0 \<and> inv (snd (deq s)) \<and> items (snd (deq s)) = ms"
    and front: "inv s \<Longrightarrow> front s = (case items s of [] \<Rightarrow> None | m # _ \<Rightarrow> Some m)"
begin

lemma put_all:
  "inv s \<Longrightarrow> length (items s) + length ms \<le> cap \<Longrightarrow>
    inv (fold (\<lambda>m s. snd (enq (put m s))) ms s) \<and>
    items (fold (\<lambda>m s. snd (enq (put m s))) ms s) = items s @ ms"
proof (induction ms arbitrary: s)
  case Nil
  then show ?case by simp
next
  case (Cons m ms)
  then have "inv (snd (enq (put m s)))" "items (snd (enq (put m s))) = items s @ [m]"
    using put_enq [of s m] by auto
  with Cons show ?case by simp
qed

lemma deq_many:
  "inv s \<Longrightarrow> n \<le> length (items s) \<Longrightarrow>
    inv (((\<lambda>s. snd (deq s)) ^^ n) s) \<and> items (((\<lambda>s. snd (deq s)) ^^ n) s) = drop n (items s)"
proof (induction n)
  case 0
  then show ?case by simp
next
  case (Suc n)
  let ?t = "((\<lambda>s. snd (deq s)) ^^ n) s"
  have t: "inv ?t" "items ?t = drop n (items s)"
    using Suc by simp_all
  obtain m ms where "drop n (items s) = m # ms"
    using Suc.prems(2) by (cases "drop n (items s)") auto
  with t deq_cons [of ?t m ms] show ?case
    by (simp add: drop_Suc tl_drop [symmetric])
qed

text \<open>After filling in \<open>ms\<close>, the messages leave in the order in which they were entered.\<close>

lemma fifo_order:
  assumes "inv s" "items s = []" "length ms \<le> cap" "i < length ms"
  shows "front (((\<lambda>s. snd (deq s)) ^^ i) (fold (\<lambda>m s. snd (enq (put m s))) ms s)) = Some (ms ! i)"
proof -
  let ?t = "fold (\<lambda>m s. snd (enq (put m s))) ms s"
  have t: "inv ?t" "items ?t = ms"
    using put_all [of s ms] assms by simp_all
  then have "inv (((\<lambda>s. snd (deq s)) ^^ i) ?t)" "items (((\<lambda>s. snd (deq s)) ^^ i) ?t) = drop i ms"
    using deq_many [of ?t i] assms(4) by simp_all
  with assms(4) show ?thesis
    by (simp add: front Cons_nth_drop_Suc [symmetric])
qed

end

section \<open>The circular buffers\<close>

definition ring_ok :: "nat \<Rightarrow> nat \<Rightarrow> nat \<Rightarrow> bool" where
  "ring_ok head tail n \<longleftrightarrow> head < MAX_QUEUE_SIZE \<and> n \<le> MAX_QUEUE_SIZE \<and>
     tail = (head + n) mod MAX_QUEUE_SIZE"

definition ring_items :: "(nat \<Rightarrow> 'm) \<Rightarrow> nat \<Rightarrow> nat \<Rightarrow> 'm list" where
  "ring_items q head n = map (\<lambda>i. q ((head + i) mod MAX_QUEUE_SIZE)) [0..<n]"

lemma length_ring_items [simp]: "length (ring_items q head n) = n"
  by (simp add: ring_items_def)

lemma ring_items_0 [simp]: "ring_items q head 0 = []"
  by (simp add: ring_items_def)

lemma ring_ok_enq: "ring_ok h t n \<Longrightarrow> n < MAX_QUEUE_SIZE \<Longrightarrow> ring_ok h ((t + 1) mod MAX_QUEUE_SIZE) (n + 1)"
  by (simp add: ring_ok_def mod_simps)

lemma ring_ok_deq: "ring_ok h t n \<Longrightarrow> 0 < n \<Longrightarrow> ring_ok ((h + 1) mod MAX_QUEUE_SIZE) t (n - 1)"
  by (cases n) (auto simp: ring_ok_def mod_simps)

lemma ring_slot_other:
  assumes "i < n" "n < MAX_QUEUE_SIZE"
  shows "(h + i) mod MAX_QUEUE_SIZE \<noteq> (h + n) mod MAX_QUEUE_SIZE"
proof
  assume "(h + i) mod MAX_QUEUE_SIZE = (h + n) mod MAX_QUEUE_SIZE"
  then have "MAX_QUEUE_SIZE dvd (h + n) - (h + i)"
    using assms(1) by (metis add_le_cancel_left less_imp_le mod_eq_dvd_iff_nat)
  then have "MAX_QUEUE_SIZE dvd n - i" by simp
  with assms show False by (auto dest: dvd_imp_le)
qed

lemma ring_items_put:
  assumes "ring_ok h t n" "n < MAX_QUEUE_SIZE"
  shows "ring_items (q(t := m)) h (n + 1) = ring_items q h n @ [m]"
    and "ring_items (q(t := m)) h n = ring_items q h n"
  using assms ring_slot_other [of _ n h] by (auto simp: ring_items_def ring_ok_def)

lemma ring_items_deq:
  assumes "ring_ok h t n" "0 < n"
  shows "ring_items q h n = q h # ring_items q ((h + 1) mod MAX_QUEUE_SIZE) (n - 1)"
proof -
  have "ring_items q h n = map (\<lambda>i. q ((h + i) mod MAX_QUEUE_SIZE)) (0 # map Suc [0..<n - 1])"
    using assms(2) by (simp add: ring_items_def map_Suc_upt upt_conv_Cons)
  also have "\<dots> = q h # ring_items q ((h + 1) mod MAX_QUEUE_SIZE) (n - 1)"
    using assms(1) by (simp add: ring_items_def ring_ok_def mod_simps)
  finally show ?thesis .
qed

section \<open>The queues of the model\<close>

definition snd_items :: "'a net_st_scheme \<Rightarrow> mimsg_t list" where
  "snd_items s = ring_items (sndQueue s) (sndHead s) (sndQueueSize s)"

definition recv_items :: "'a net_st_scheme \<Rightarrow> mimsg_t list" where
  "recv_items s = ring_items (recvQueue s) (recvHead s) (recvQueueSize s)"

definition snd_ok :: "'a net_st_scheme \<Rightarrow> bool" where
  "snd_ok s \<longleftrightarrow> ring_ok (sndHead s) (sndTail s) (sndQueueSize s)"

definition recv_ok :: "'a net_st_scheme \<Rightarrow> bool" where
  "recv_ok s \<longleftrightarrow> ring_ok (recvHead s) (recvTail s) (recvQueueSize s)"

text \<open>Taking the next free slot and writing the message \<open>m\<close> into it.\<close>

definition put_msg :: "int \<Rightarrow> mimsg_t \<Rightarrow> 'a net_st_scheme \<Rightarrow> 'a net_st_scheme" where
  "put_msg ty m s = (case nextFreeMsgInQueue ty s of (None, s') \<Rightarrow> s' | (Some r, s') \<Rightarrow> set_msg r m s')"

definition top_msg :: "int \<Rightarrow> 'a net_st_scheme \<Rightarrow> mimsg_t option" where
  "top_msg ty s = map_option (msg_at s) (queueTop ty s)"

interpretation sndq: bounded_fifo MAX_QUEUE_SIZE snd_ok snd_items "put_msg 0" "msgEnqueue 0"
  "msgDequeue 0" "top_msg 0"
proof unfold_locales
  fix s :: "'a net_st_scheme" and m
  assume ok: "snd_ok s"
  note defs = snd_ok_def snd_items_def put_msg_def nextFreeMsgInQueue_def msgEnqueue_def
  show "length (snd_items s) \<le> MAX_QUEUE_SIZE"
    using ok by (simp add: defs ring_ok_def)
  show "length (snd_items s) < MAX_QUEUE_SIZE \<Longrightarrow>
      fst (msgEnqueue 0 (put_msg 0 m s)) = 0 \<and> snd_ok (snd (msgEnqueue 0 (put_msg 0 m s))) \<and>
      snd_items (snd (msgEnqueue 0 (put_msg 0 m s))) = snd_items s @ [m]"
    using ok ring_ok_enq [of "sndHead s" "sndTail s" "sndQueueSize s"]
      ring_items_put [of "sndHead s" "sndTail s" "sndQueueSize s" "sndQueue s" m]
    by (simp add: defs)
  show "length (snd_items s) = MAX_QUEUE_SIZE \<Longrightarrow> msgEnqueue 0 s = (- 2, s)"
    by (simp add: defs)
next
  fix s :: "'a net_st_scheme" and m ms
  assume ok: "snd_ok s"
  show "snd_items s = [] \<Longrightarrow> msgDequeue 0 s = (- 2, s)"
    by (simp add: snd_items_def msgDequeue_def ring_items_def)
  assume i: "snd_items s = m # ms"
  then have n: "0 < sndQueueSize s" by (cases "sndQueueSize s") (auto simp: snd_items_def)
  with ok i show "fst (msgDequeue 0 s) = 0 \<and> snd_ok (snd (msgDequeue 0 s)) \<and>
      snd_items (snd (msgDequeue 0 s)) = ms"
    using ring_ok_deq [of "sndHead s" "sndTail s" "sndQueueSize s"]
      ring_items_deq [of "sndHead s" "sndTail s" "sndQueueSize s" "sndQueue s"]
    by (simp add: snd_items_def msgDequeue_def snd_ok_def)
next
  fix s :: "'a net_st_scheme"
  assume ok: "snd_ok s"
  show "top_msg 0 s = (case snd_items s of [] \<Rightarrow> None | m # x \<Rightarrow> Some m)"
    using ok ring_items_deq [of "sndHead s" "sndTail s" "sndQueueSize s" "sndQueue s"]
    by (cases "sndQueueSize s = 0") (auto simp: top_msg_def queueTop_def snd_items_def snd_ok_def)
qed

interpretation recvq: bounded_fifo MAX_QUEUE_SIZE recv_ok recv_items "put_msg 1" "msgEnqueue 1"
  "msgDequeue 1" "top_msg 1"
proof unfold_locales
  fix s :: "'a net_st_scheme" and m
  assume ok: "recv_ok s"
  note defs = recv_ok_def recv_items_def put_msg_def nextFreeMsgInQueue_def msgEnqueue_def
  show "length (recv_items s) \<le> MAX_QUEUE_SIZE"
    using ok by (simp add: defs ring_ok_def)
  show "length (recv_items s) < MAX_QUEUE_SIZE \<Longrightarrow>
      fst (msgEnqueue 1 (put_msg 1 m s)) = 0 \<and> recv_ok (snd (msgEnqueue 1 (put_msg 1 m s))) \<and>
      recv_items (snd (msgEnqueue 1 (put_msg 1 m s))) = recv_items s @ [m]"
    using ok ring_ok_enq [of "recvHead s" "recvTail s" "recvQueueSize s"]
      ring_items_put [of "recvHead s" "recvTail s" "recvQueueSize s" "recvQueue s" m]
    by (simp add: defs)
  show "length (recv_items s) = MAX_QUEUE_SIZE \<Longrightarrow> msgEnqueue 1 s = (- 2, s)"
    by (simp add: defs)
next
  fix s :: "'a net_st_scheme" and m ms
  assume ok: "recv_ok s"
  show "recv_items s = [] \<Longrightarrow> msgDequeue 1 s = (- 2, s)"
    by (simp add: recv_items_def msgDequeue_def ring_items_def)
  assume i: "recv_items s = m # ms"
  then have n: "0 < recvQueueSize s" by (cases "recvQueueSize s") (auto simp: recv_items_def)
  with ok i show "fst (msgDequeue 1 s) = 0 \<and> recv_ok (snd (msgDequeue 1 s)) \<and>
      recv_items (snd (msgDequeue 1 s)) = ms"
    using ring_ok_deq [of "recvHead s" "recvTail s" "recvQueueSize s"]
      ring_items_deq [of "recvHead s" "recvTail s" "recvQueueSize s" "recvQueue s"]
    by (simp add: recv_items_def msgDequeue_def recv_ok_def)
next
  fix s :: "'a net_st_scheme"
  assume ok: "recv_ok s"
  show "top_msg 1 s = (case recv_items s of [] \<Rightarrow> None | m # x \<Rightarrow> Some m)"
    using ok ring_items_deq [of "recvHead s" "recvTail s" "recvQueueSize s" "recvQueue s"]
    by (cases "recvQueueSize s = 0") (auto simp: top_msg_def queueTop_def recv_items_def recv_ok_def)
qed

section \<open>The operations branch by branch\<close>

text \<open>An operation on one queue leaves the other one alone.\<close>

lemma other_queue:
  "recv_ok (snd (nextFreeMsgInQueue 0 s)) = recv_ok s" "recv_items (snd (nextFreeMsgInQueue 0 s)) = recv_items s"
  "recv_ok (snd (msgEnqueue 0 s)) = recv_ok s" "recv_items (snd (msgEnqueue 0 s)) = recv_items s"
  "recv_ok (snd (msgDequeue 0 s)) = recv_ok s" "recv_items (snd (msgDequeue 0 s)) = recv_items s"
  "snd_ok (snd (nextFreeMsgInQueue 1 s)) = snd_ok s" "snd_items (snd (nextFreeMsgInQueue 1 s)) = snd_items s"
  "snd_ok (snd (msgEnqueue 1 s)) = snd_ok s" "snd_items (snd (msgEnqueue 1 s)) = snd_items s"
  "snd_ok (snd (msgDequeue 1 s)) = snd_ok s" "snd_items (snd (msgDequeue 1 s)) = snd_items s"
  by (simp_all add: nextFreeMsgInQueue_def msgEnqueue_def msgDequeue_def snd_ok_def snd_items_def
      recv_ok_def recv_items_def)

text \<open>The free slot is cleared and is not one of those that hold a message; a full queue has none.\<close>

lemma snd_free_slot:
  assumes "snd_ok s"
  shows "length (snd_items s) = MAX_QUEUE_SIZE \<Longrightarrow> nextFreeMsgInQueue 0 s = (None, s)"
    and "length (snd_items s) < MAX_QUEUE_SIZE \<Longrightarrow> \<exists>s'. nextFreeMsgInQueue 0 s = (Some (SndSlot (sndTail s)), s') \<and>
      msg_at s' (SndSlot (sndTail s)) = empty_msg \<and> snd_ok s' \<and> snd_items s' = snd_items s \<and>
      set_msg (SndSlot (sndTail s)) m s' = put_msg 0 m s"
  using assms ring_items_put(2) [of "sndHead s" "sndTail s" "sndQueueSize s" "sndQueue s" empty_msg]
  by (simp_all add: snd_ok_def snd_items_def nextFreeMsgInQueue_def put_msg_def)

lemma recv_free_slot:
  assumes "recv_ok s"
  shows "length (recv_items s) = MAX_QUEUE_SIZE \<Longrightarrow> nextFreeMsgInQueue 1 s = (None, s)"
    and "length (recv_items s) < MAX_QUEUE_SIZE \<Longrightarrow> \<exists>s'. nextFreeMsgInQueue 1 s = (Some (RcvSlot (recvTail s)), s') \<and>
      msg_at s' (RcvSlot (recvTail s)) = empty_msg \<and> recv_ok s' \<and> recv_items s' = recv_items s \<and>
      set_msg (RcvSlot (recvTail s)) m s' = put_msg 1 m s"
  using assms ring_items_put(2) [of "recvHead s" "recvTail s" "recvQueueSize s" "recvQueue s" empty_msg]
  by (simp_all add: recv_ok_def recv_items_def nextFreeMsgInQueue_def put_msg_def)

lemma snd_queue_steps:
  assumes "snd_ok s"
  shows "if length (snd_items s) < MAX_QUEUE_SIZE
      then (\<exists>s' s''. nextFreeMsgInQueue 0 s = (Some (SndSlot (sndTail s)), s') \<and>
        msg_at s' (SndSlot (sndTail s)) = empty_msg \<and> snd_ok s' \<and> snd_items s' = snd_items s \<and>
        msgEnqueue 0 (set_msg (SndSlot (sndTail s)) m s') = (0, s'') \<and> snd_ok s'' \<and> snd_items s'' = snd_items s @ [m])
      else nextFreeMsgInQueue 0 s = (None, s) \<and> msgEnqueue 0 s = (- 2, s)"
proof (cases "length (snd_items s) < MAX_QUEUE_SIZE")
  case True
  with snd_free_slot(2) [OF assms True, of m] sndq.put_enq [OF assms True, of m] show ?thesis
    by (auto simp: prod_eq_iff)
next
  case False
  then have "length (snd_items s) = MAX_QUEUE_SIZE" using sndq.items_bound [OF assms] by simp
  with snd_free_slot(1) [OF assms] sndq.enq_full [OF assms] show ?thesis by simp
qed

lemma recv_queue_steps:
  assumes "recv_ok s"
  shows "if length (recv_items s) < MAX_QUEUE_SIZE
      then (\<exists>s' s''. nextFreeMsgInQueue 1 s = (Some (RcvSlot (recvTail s)), s') \<and>
        msg_at s' (RcvSlot (recvTail s)) = empty_msg \<and> recv_ok s' \<and> recv_items s' = recv_items s \<and>
        msgEnqueue 1 (set_msg (RcvSlot (recvTail s)) m s') = (0, s'') \<and> recv_ok s'' \<and> recv_items s'' = recv_items s @ [m])
      else nextFreeMsgInQueue 1 s = (None, s) \<and> msgEnqueue 1 s = (- 2, s)"
proof (cases "length (recv_items s) < MAX_QUEUE_SIZE")
  case True
  with recv_free_slot(2) [OF assms True, of m] recvq.put_enq [OF assms True, of m] show ?thesis
    by (auto simp: prod_eq_iff)
next
  case False
  then have "length (recv_items s) = MAX_QUEUE_SIZE" using recvq.items_bound [OF assms] by simp
  with recv_free_slot(1) [OF assms] recvq.enq_full [OF assms] show ?thesis by simp
qed

section \<open>Properties\<close>

text \<open>Both message queues are bounded FIFO queues: up to \<open>MAX_QUEUE_SIZE\<close> messages filled into an
  empty queue (slot by slot, with the index wrapping around) leave it in the order in which they were
  entered, wherever the head of the queue is.\<close>

theorem queues_are_fifo:
  assumes "length ms \<le> MAX_QUEUE_SIZE" "i < length ms"
  shows "(snd_ok s \<and> sndQueueSize s = 0 \<longrightarrow>
      top_msg 0 (((\<lambda>s. snd (msgDequeue 0 s)) ^^ i) (fold (\<lambda>m s. snd (msgEnqueue 0 (put_msg 0 m s))) ms s)) =
        Some (ms ! i)) \<and>
    (recv_ok s \<and> recvQueueSize s = 0 \<longrightarrow>
      top_msg 1 (((\<lambda>s. snd (msgDequeue 1 s)) ^^ i) (fold (\<lambda>m s. snd (msgEnqueue 1 (put_msg 1 m s))) ms s)) =
        Some (ms ! i))"
  using sndq.fifo_order [of s ms i] recvq.fifo_order [of s ms i] assms
  by (simp add: snd_items_def recv_items_def)

theorem queues_are_fifo_witness:
  "top_msg 0 (snd (msgDequeue 0 (snd (msgEnqueue 0 (put_msg 0 zero_msg
     (snd (msgEnqueue 0 (put_msg 0 empty_msg (net_globals\<lparr>sndHead := 19, sndTail := 19\<rparr>))))))))) =
   Some zero_msg"
  using queues_are_fifo [of "[empty_msg, zero_msg]" 1 "net_globals\<lparr>sndHead := 19, sndTail := 19\<rparr>"]
  by (simp add: snd_ok_def ring_ok_def MAX_QUEUE_SIZE_def MAX_HOST_NUM_def)

text \<open>C24: Every operation on a message queue refines the operation on the list of its messages, on
  each branch. When fewer than \<open>MAX_QUEUE_SIZE\<close> messages are held, \<open>nextFreeMsgInQueue\<close> returns the slot
  at the tail, cleared, without touching a message of the queue, and enqueueing it appends what has been
  written into it; when the queue is full, \<open>nextFreeMsgInQueue\<close> returns NULL and \<open>msgEnqueue\<close> -2, and nothing
  changes. Dequeueing removes the first message, or gives -2 and changes nothing when there is none;
  \<open>queueTop\<close> points to the first one. Head, tail and size stay consistent, the other queue is left alone,
  and a type that is neither 0 nor 1 gives NULL or -1 without any change.\<close>

theorem queue_refinement:
  assumes "snd_ok s" "recv_ok s"
  shows "(if length (snd_items s) < MAX_QUEUE_SIZE
      then (\<exists>s' s''. nextFreeMsgInQueue 0 s = (Some (SndSlot (sndTail s)), s') \<and>
        msg_at s' (SndSlot (sndTail s)) = empty_msg \<and> snd_ok s' \<and> snd_items s' = snd_items s \<and>
        msgEnqueue 0 (set_msg (SndSlot (sndTail s)) m s') = (0, s'') \<and> snd_ok s'' \<and> snd_items s'' = snd_items s @ [m])
      else nextFreeMsgInQueue 0 s = (None, s) \<and> msgEnqueue 0 s = (- 2, s)) \<and>
    (case snd_items s of
       [] \<Rightarrow> msgDequeue 0 s = (- 2, s) \<and> top_msg 0 s = None
     | x # xs \<Rightarrow> top_msg 0 s = Some x \<and>
         (\<exists>s'. msgDequeue 0 s = (0, s') \<and> snd_ok s' \<and> snd_items s' = xs)) \<and>
    (if length (recv_items s) < MAX_QUEUE_SIZE
      then (\<exists>s' s''. nextFreeMsgInQueue 1 s = (Some (RcvSlot (recvTail s)), s') \<and>
        msg_at s' (RcvSlot (recvTail s)) = empty_msg \<and> recv_ok s' \<and> recv_items s' = recv_items s \<and>
        msgEnqueue 1 (set_msg (RcvSlot (recvTail s)) m s') = (0, s'') \<and> recv_ok s'' \<and> recv_items s'' = recv_items s @ [m])
      else nextFreeMsgInQueue 1 s = (None, s) \<and> msgEnqueue 1 s = (- 2, s)) \<and>
    (case recv_items s of
       [] \<Rightarrow> msgDequeue 1 s = (- 2, s) \<and> top_msg 1 s = None
     | x # xs \<Rightarrow> top_msg 1 s = Some x \<and>
         (\<exists>s'. msgDequeue 1 s = (0, s') \<and> recv_ok s' \<and> recv_items s' = xs)) \<and>
    (recv_items (snd (nextFreeMsgInQueue 0 s)) = recv_items s \<and> recv_items (snd (msgEnqueue 0 s)) = recv_items s \<and>
      recv_items (snd (msgDequeue 0 s)) = recv_items s) \<and>
    (snd_items (snd (nextFreeMsgInQueue 1 s)) = snd_items s \<and> snd_items (snd (msgEnqueue 1 s)) = snd_items s \<and>
      snd_items (snd (msgDequeue 1 s)) = snd_items s) \<and>
    (ty \<noteq> 0 \<and> ty \<noteq> 1 \<longrightarrow> nextFreeMsgInQueue ty s = (None, s) \<and> msgEnqueue ty s = (- 1, s) \<and>
      msgDequeue ty s = (- 1, s) \<and> queueTop ty s = None)"
proof -
  have "case snd_items s of [] \<Rightarrow> msgDequeue 0 s = (- 2, s) \<and> top_msg 0 s = None
     | x # xs \<Rightarrow> top_msg 0 s = Some x \<and> (\<exists>s'. msgDequeue 0 s = (0, s') \<and> snd_ok s' \<and> snd_items s' = xs)"
    using sndq.deq_empty [OF assms(1)] sndq.deq_cons [OF assms(1)] sndq.front [OF assms(1)]
    by (auto simp: prod_eq_iff split: list.splits)
  moreover have "case recv_items s of [] \<Rightarrow> msgDequeue 1 s = (- 2, s) \<and> top_msg 1 s = None
     | x # xs \<Rightarrow> top_msg 1 s = Some x \<and> (\<exists>s'. msgDequeue 1 s = (0, s') \<and> recv_ok s' \<and> recv_items s' = xs)"
    using recvq.deq_empty [OF assms(2)] recvq.deq_cons [OF assms(2)] recvq.front [OF assms(2)]
    by (auto simp: prod_eq_iff split: list.splits)
  moreover have "ty \<noteq> 0 \<and> ty \<noteq> 1 \<longrightarrow> nextFreeMsgInQueue ty s = (None, s) \<and> msgEnqueue ty s = (- 1, s) \<and>
      msgDequeue ty s = (- 1, s) \<and> queueTop ty s = None"
    by (simp add: nextFreeMsgInQueue_def msgEnqueue_def msgDequeue_def queueTop_def)
  ultimately show ?thesis
    using snd_queue_steps [OF assms(1), of m] recv_queue_steps [OF assms(2), of m] by (simp only: other_queue simp_thms)
qed

theorem queue_refinement_witness:
  "msgDequeue 0 net_globals = (- 2, net_globals) \<and>
   nextFreeMsgInQueue 1 (net_globals\<lparr>recvQueueSize := MAX_QUEUE_SIZE\<rparr>) =
     (None, net_globals\<lparr>recvQueueSize := MAX_QUEUE_SIZE\<rparr>)"
  using queue_refinement [of net_globals empty_msg 2]
    queue_refinement [of "net_globals\<lparr>recvQueueSize := MAX_QUEUE_SIZE\<rparr>" empty_msg 2]
  by (simp add: snd_ok_def recv_ok_def ring_ok_def snd_items_def recv_items_def MAX_QUEUE_SIZE_def
      MAX_HOST_NUM_def)

end
