(* ===== verification/Sending.thy ===== *)
theory Sending
  imports Queues
begin

text \<open>
  What \<open>sendMsg\<close> does to the network and to the state: the retransmission loop sends a message
  until the first attempt that is acknowledged, at most \<open>MAX_RETRY_NUM\<close> times; the queue is
  emptied in FIFO order. The lemmas on a quiet sender are the ones the handlers use.
\<close>

section \<open>One message\<close>

definition acked_in :: "int \<Rightarrow> int list list \<Rightarrow> nat \<Rightarrow> bool" where
  "acked_in seqno env i \<longleftrightarrow> i < length env \<and> seqno \<in> set (env ! i)"

text \<open>The first of \<open>n\<close> attempts that is acknowledged.\<close>

definition first_ack :: "nat \<Rightarrow> int \<Rightarrow> int list list \<Rightarrow> nat option" where
  "first_ack n seqno env = find (acked_in seqno env) [0..<n]"

lemma find_map_Suc: "find P (map Suc xs) = map_option Suc (find (\<lambda>i. P (Suc i)) xs)"
  by (induction xs) auto

lemma first_ack_Suc:
  "first_ack (Suc n) seqno env =
     (if acked_in seqno env 0 then Some 0 else map_option Suc (first_ack n seqno (tl env)))"
proof -
  have "[0..<Suc n] = 0 # map Suc [0..<n]"
    by (simp add: map_Suc_upt upt_conv_Cons del: upt_Suc)
  moreover have "acked_in seqno env (Suc i) = acked_in seqno (tl env) i" for i
    by (cases env) (auto simp: acked_in_def)
  ultimately show ?thesis
    by (simp add: first_ack_def find_map_Suc del: upt_Suc)
qed

lemma first_ack_Some: "first_ack n seqno env = Some i \<Longrightarrow> i < n \<and> acked_in seqno env i"
  unfolding first_ack_def by (auto simp: find_Some_iff)

lemma poll_acks_iff: "poll_acks seqno as \<longleftrightarrow> seqno \<in> set as"
  by (induction as) auto

lemma poll_first: "poll_acks q (case env of [] \<Rightarrow> [] | a # _ \<Rightarrow> a) \<longleftrightarrow> acked_in q env 0"
  by (cases env) (auto simp: poll_acks_iff acked_in_def)

definition bump_seq :: "nat \<Rightarrow> netmanager \<Rightarrow> netmanager" where
  "bump_seq k d = d\<lparr>snd_seqs := (snd_seqs d)(k := s32 (snd_seqs d k + 1))\<rparr>"

lemma retry_loop_eq:
  "n \<le> MAX_RETRY_NUM \<Longrightarrow>
    retry_loop n m to port orig s =
      (case first_ack (MAX_RETRY_NUM - n) (m_seqno m) (ack_env s) of
         Some i \<Rightarrow> s\<lparr>wire := wire s @ replicate (Suc i) (to, port, wire_msg m),
                     ack_env := drop (Suc i) (ack_env s),
                     datamanager := bump_seq orig (datamanager s)\<rparr>
       | None \<Rightarrow> s\<lparr>wire := wire s @ replicate (MAX_RETRY_NUM - n) (to, port, wire_msg m),
                     ack_env := drop (MAX_RETRY_NUM - n) (ack_env s)\<rparr>)"
proof (induction n m to port orig s rule: retry_loop.induct)
  case (1 n m to port orig s)
  show ?case
  proof (cases "n < MAX_RETRY_NUM")
    case True
    then obtain r where r: "MAX_RETRY_NUM - n = Suc r" "MAX_RETRY_NUM - Suc n = r"
      by (metis Suc_diff_Suc)
    show ?thesis
    proof (cases "acked_in (m_seqno m) (ack_env s) 0")
      case ack: True
      then show ?thesis
        by (subst retry_loop.simps)
          (simp add: True Let_def poll_first r first_ack_Suc bump_seq_def drop_Suc)
    next
      case False
      with "1.IH" [OF True refl refl refl] True show ?thesis
        by (subst retry_loop.simps)
          (auto simp: Let_def poll_first r first_ack_Suc drop_Suc replicate_append_same [symmetric]
            split: option.splits)
    qed
  next
    case False
    with "1.prems" show ?thesis
      by (subst retry_loop.simps) (simp add: first_ack_def)
  qed
qed

definition transmissions :: "int \<Rightarrow> int list list \<Rightarrow> nat" where
  "transmissions seqno env =
     (case first_ack MAX_RETRY_NUM seqno env of Some i \<Rightarrow> Suc i | None \<Rightarrow> MAX_RETRY_NUM)"

definition delivered :: "int \<Rightarrow> int list list \<Rightarrow> bool" where
  "delivered seqno env \<longleftrightarrow> first_ack MAX_RETRY_NUM seqno env \<noteq> None"

lemma transmissions_bounds: "1 \<le> transmissions q env" "transmissions q env \<le> MAX_RETRY_NUM"
  by (auto simp: transmissions_def MAX_RETRY_NUM_def dest!: first_ack_Some split: option.splits)

lemma retry_loop_0:
  "retry_loop 0 m to port orig s =
     s\<lparr>wire := wire s @ replicate (transmissions (m_seqno m) (ack_env s)) (to, port, wire_msg m),
       ack_env := drop (transmissions (m_seqno m) (ack_env s)) (ack_env s),
       datamanager := (if delivered (m_seqno m) (ack_env s) then bump_seq orig (datamanager s)
         else datamanager s)\<rparr>"
  by (auto simp: retry_loop_eq transmissions_def delivered_def split: option.splits)

section \<open>The whole queue\<close>

definition dgram :: "'a net_st_scheme \<Rightarrow> mimsg_t \<Rightarrow> datagram" where
  "dgram s m = (nat (m_to m), dataPorts s (nat (m_to m)) (nat (m_from m)), wire_msg m)"

definition sendable :: "mimsg_t \<Rightarrow> bool" where
  "sendable m \<longleftrightarrow> 0 \<le> m_to m \<and> m_to m < int MAX_HOST_NUM \<and> 0 \<le> m_from m \<and>
     m_from m < int MAX_HOST_NUM \<and> 0 \<le> m_size m \<and> m_size m \<le> int DATA_SIZE"

text \<open>\<open>sent w w' ds\<close>: the wire grew by the datagrams \<open>ds\<close> in this order, each repeated between one
  and \<open>MAX_RETRY_NUM\<close> times.\<close>

inductive sent :: "datagram list \<Rightarrow> datagram list \<Rightarrow> datagram list \<Rightarrow> bool" where
  sent_Nil: "sent w w []"
| sent_Cons: "1 \<le> k \<Longrightarrow> k \<le> MAX_RETRY_NUM \<Longrightarrow> sent (w @ replicate k d) w' ds \<Longrightarrow> sent w w' (d # ds)"

inductive_simps sent_Nil_iff [simp]: "sent w w' []"
inductive_simps sent_Cons_iff: "sent w w' (d # ds)"

lemma sent_trans: "sent w w' ds \<Longrightarrow> sent w' w'' es \<Longrightarrow> sent w w'' (ds @ es)"
  by (induction rule: sent.induct) (auto intro: sent_Cons)

lemma sent_single: "sent w w' [d] \<longleftrightarrow> (\<exists>k. 1 \<le> k \<and> k \<le> MAX_RETRY_NUM \<and> w' = w @ replicate k d)"
  by (auto simp: sent_Cons_iff)

lemma sent_prefix: "sent w w' ds \<Longrightarrow> \<exists>x. w' = w @ x \<and> set x = set ds"
proof (induction rule: sent.induct)
  case (sent_Cons k w d w' ds)
  then obtain x where "w' = (w @ replicate k d) @ x" "set x = set ds" by auto
  with sent_Cons.hyps(1) show ?case by (auto intro!: exI [of _ "replicate k d @ x"])
qed simp

text \<open>What sending leaves unchanged: everything but the queue, the network and the sequence numbers.\<close>

definition net_frame :: "'a net_st_scheme \<Rightarrow> 'a net_st_scheme \<Rightarrow> bool" where
  "net_frame s s' \<longleftrightarrow> s' = s\<lparr>sndQueue := sndQueue s', sndHead := sndHead s', sndTail := sndTail s',
     sndQueueSize := sndQueueSize s', wire := wire s', ack_env := ack_env s',
     datamanager := datamanager s', isSendingMsg := isSendingMsg s'\<rparr>"

lemma net_frame_refl [simp]: "net_frame s s"
  by (simp add: net_frame_def)

lemma net_frame_trans: "net_frame s t \<Longrightarrow> net_frame t u \<Longrightarrow> net_frame s u"
  by (cases s; cases t; cases u) (simp add: net_frame_def)

lemma send_queue_eq:
  assumes "snd_ok s" "\<forall>m \<in> set (snd_items s). sendable m" "sendable (msg_at s msg)"
  shows "\<exists>s'. send_queue msg s = Some s' \<and> snd_ok s' \<and> sndQueueSize s' = 0 \<and> net_frame s s' \<and>
    sndQueue s' = sndQueue s \<and> isSendingMsg s' = isSendingMsg s \<and>
    sent (wire s) (wire s') (map (dgram s) (snd_items s))"
  using assms
proof (induction "sndQueueSize s" arbitrary: s)
  case 0
  then show ?case
    by (auto simp: send_queue.simps [of msg s] snd_items_def)
next
  case (Suc n)
  let ?m = "sndQueue s (sndHead s)"
  have items: "snd_items s = ?m # ring_items (sndQueue s) ((sndHead s + 1) mod MAX_QUEUE_SIZE) n"
    using ring_items_deq [of "sndHead s" "sndTail s" "sndQueueSize s" "sndQueue s"] Suc.prems Suc.hyps(2) [symmetric]
    by (simp add: snd_items_def snd_ok_def)
  define t where "t = retry_loop 0 ?m (nat (m_to ?m)) (dataPorts s (nat (m_to ?m)) (nat (m_from ?m)))
    (nat (m_to (msg_at s msg))) s"
  define u where "u = snd (msgDequeue 0 t)"
  have ok: "sendable ?m" using Suc.prems(2) items by simp
  have step: "send_queue msg s = send_queue msg u"
    using ok Suc.prems(3) Suc.hyps(2)
    by (subst send_queue.simps)
      (simp add: queueTop_def sendable_def aidx_in_range t_def u_def Let_def)
  have u: "sndQueueSize u = n" "snd_ok u" "sndQueue u = sndQueue s" "isSendingMsg u = isSendingMsg s"
    "dataPorts u = dataPorts s" "snd_items u = ring_items (sndQueue s) ((sndHead s + 1) mod MAX_QUEUE_SIZE) n"
    "net_frame s u" "wire u = wire s @ replicate (transmissions (m_seqno ?m) (ack_env s)) (dgram s ?m)"
    "recvQueue u = recvQueue s"
    using Suc.prems(1) Suc.hyps(2) [symmetric] ring_ok_deq [of "sndHead s" "sndTail s" "Suc n"]
    by (auto simp: u_def t_def msgDequeue_def retry_loop_0 snd_ok_def snd_items_def net_frame_def dgram_def)
  have "msg_at u msg = msg_at s msg" using u by (cases msg) auto
  with u Suc.prems items obtain s' where s': "send_queue msg u = Some s'" "snd_ok s'"
    "sndQueueSize s' = 0" "net_frame u s'" "sndQueue s' = sndQueue u" "isSendingMsg s' = isSendingMsg u"
    "sent (wire u) (wire s') (map (dgram u) (snd_items u))"
    using Suc.hyps(1) [of u] by auto
  have "dgram u = dgram s" using u by (auto simp: dgram_def fun_eq_iff)
  with s' u have "sent (wire s) (wire s') (dgram s ?m # map (dgram s) (snd_items u))"
    using transmissions_bounds [of "m_seqno ?m" "ack_env s"] by (auto intro: sent_Cons)
  with s' u step items show ?case by (auto intro: net_frame_trans)
qed

section \<open>A quiet sender\<close>

text \<open>No message is queued and no call of \<open>sendMsg\<close> is active: the state between two handlers.\<close>

definition quiet :: "'a net_st_scheme \<Rightarrow> bool" where
  "quiet s \<longleftrightarrow> snd_ok s \<and> sndQueueSize s = 0 \<and> isSendingMsg s = 0"

text \<open>\<open>holding m s\<close>: a quiet sender that has filled the free slot with the message \<open>m\<close>.\<close>

definition holding :: "mimsg_t \<Rightarrow> 'a net_st_scheme \<Rightarrow> bool" where
  "holding m s \<longleftrightarrow> quiet s \<and> sndQueue s (sndTail s) = m"

lemma nextFree_quiet:
  assumes "quiet s"
  shows "nextFreeMsgInQueue 0 s = (Some (SndSlot (sndTail s)), set_msg (SndSlot (sndTail s)) empty_msg s)"
  using assms by (simp add: nextFreeMsgInQueue_def quiet_def MAX_QUEUE_SIZE_def MAX_HOST_NUM_def)

lemma sendMsg_drain:
  assumes "snd_ok s" "isSendingMsg s = 0" "sndQueueSize s < MAX_QUEUE_SIZE"
    and "\<forall>m \<in> set (snd_items s). sendable m"
    and "sendable m" "sndQueue s (sndTail s) = m" "m_from m = myhostid s" "m_command m \<noteq> - 1"
  shows "\<exists>s'. sendMsg (Some (SndSlot (sndTail s))) s = Some (0, s') \<and> sndQueueSize s' = 0 \<and> snd_ok s' \<and>
    isSendingMsg s' = 0 \<and> net_frame s s' \<and>
    sent (wire s) (wire s') (map (dgram s)
      (snd_items s @ [m\<lparr>m_seqno := snd_seqs (datamanager s) (nat (m_to m))\<rparr>]))"
proof -
  let ?m = "m\<lparr>m_seqno := snd_seqs (datamanager s) (nat (m_to m))\<rparr>"
  let ?r = "SndSlot (sndTail s)"
  define t where "t = snd (msgEnqueue 0 (set_msg ?r ?m s))"
  have e: "snd (msgEnqueue 0 (set_msg ?r ?m s)) = t" by (simp add: t_def)
  have ring: "ring_ok (sndHead s) (sndTail s) (sndQueueSize s)" "sndQueueSize s \<noteq> MAX_QUEUE_SIZE"
    using assms(1,3) by (simp_all add: snd_ok_def)
  have t: "snd_ok t" "isSendingMsg t = 0" "snd_items t = snd_items s @ [?m]" "msg_at t ?r = ?m"
    "net_frame s t" "wire t = wire s" "dataPorts t = dataPorts s"
    using ring assms(2) ring_ok_enq [OF ring(1) assms(3)] ring_items_put(1) [OF ring(1) assms(3), of "sndQueue s" ?m]
    by (simp_all add: t_def msgEnqueue_def snd_ok_def snd_items_def net_frame_def)
  have ok: "sendable ?m" using assms(5) by (simp add: sendable_def)
  have "dgram (t\<lparr>isSendingMsg := 1\<rparr>) = dgram t" by (simp add: dgram_def fun_eq_iff)
  with ok t assms(4) send_queue_eq [of "t\<lparr>isSendingMsg := 1\<rparr>" ?r] obtain s' where
    s': "send_queue ?r (t\<lparr>isSendingMsg := 1\<rparr>) = Some s'" "snd_ok s'" "sndQueueSize s' = 0"
    "net_frame (t\<lparr>isSendingMsg := 1\<rparr>) s'" "sent (wire t) (wire s') (map (dgram t) (snd_items s @ [?m]))"
    by (auto simp: snd_ok_def snd_items_def)
  have "sendMsg (Some ?r) s = Some (0, s'\<lparr>isSendingMsg := 0\<rparr>)"
    using assms t s' e by (simp add: sendMsg_def sendable_def aidx_in_range Let_def del: set_msg.simps)
  moreover have "net_frame s (s'\<lparr>isSendingMsg := 0\<rparr>)"
  proof -
    have "net_frame t (t\<lparr>isSendingMsg := 1\<rparr>)" "net_frame s' (s'\<lparr>isSendingMsg := 0\<rparr>)"
      by (simp_all add: net_frame_def)
    with t(5) s'(4) show ?thesis by (blast intro: net_frame_trans)
  qed
  moreover have "dgram t = dgram s" using t by (simp add: dgram_def fun_eq_iff)
  ultimately show ?thesis
    using s' t by (intro exI [of _ "s'\<lparr>isSendingMsg := 0\<rparr>"]) (simp add: snd_ok_def)
qed

lemma sendMsg_quiet:
  assumes "holding m s" "sendable m" "m_from m = myhostid s" "m_command m \<noteq> - 1"
  shows "\<exists>s'. sendMsg (Some (SndSlot (sndTail s))) s = Some (0, s') \<and> quiet s' \<and> net_frame s s' \<and>
    sent (wire s) (wire s')
      [dgram s (m\<lparr>m_seqno := snd_seqs (datamanager s) (nat (m_to m))\<rparr>)]"
  using sendMsg_drain [of s m] assms
  by (auto simp: holding_def quiet_def snd_items_def)

section \<open>Properties\<close>

text \<open>C22: \<open>sendMsg\<close> returns and delivers the whole queue. Called while no other call is active, with
  well formed messages, it returns 0 with an empty queue; every message that was waiting and then the
  new one is transmitted, in FIFO order, each at least once and at most \<open>MAX_RETRY_NUM\<close> times, to the
  port of its receiver for this sender; nothing else of the state changes.\<close>

theorem sendMsg_drains:
  assumes "snd_ok s" "isSendingMsg s = 0" "sndQueueSize s < MAX_QUEUE_SIZE"
    and "\<forall>m \<in> set (snd_items s). sendable m"
    and "sendable m" "sndQueue s (sndTail s) = m" "m_from m = myhostid s" "m_command m \<noteq> - 1"
  shows "\<exists>s'. sendMsg (Some (SndSlot (sndTail s))) s = Some (0, s') \<and> snd_items s' = [] \<and> snd_ok s' \<and>
    isSendingMsg s' = 0 \<and> net_frame s s' \<and>
    sent (wire s) (wire s') (map (dgram s)
      (snd_items s @ [m\<lparr>m_seqno := snd_seqs (datamanager s) (nat (m_to m))\<rparr>]))"
  using sendMsg_drain [OF assms] by (auto simp: snd_items_def)

theorem sendMsg_drains_witness:
  "\<exists>s' k. sendMsg (Some (SndSlot 0)) (net_globals\<lparr>sndQueue := (\<lambda>_. zero_msg)\<rparr>) = Some (0, s') \<and>
     1 \<le> k \<and> k \<le> MAX_RETRY_NUM \<and> wire s' = replicate k (0, 0, wire_msg zero_msg)"
  using sendMsg_drains [of "net_globals\<lparr>sndQueue := (\<lambda>_. zero_msg)\<rparr>" zero_msg]
  by (auto simp: snd_ok_def ring_ok_def snd_items_def sendable_def zero_msg_def dgram_def empty_manager_def
      MAX_QUEUE_SIZE_def MAX_HOST_NUM_def DATA_SIZE_def MAX_MSG_SIZE_def MSG_HEAD_SIZE_def
      sent_Cons_iff)

text \<open>C23: The retransmission loop. A message is sent until the first attempt whose acknowledgements
  contain its sequence number; then the sequence number of its receiver goes up by one, and the
  acknowledgements of later attempts are left for later messages. Without such an attempt it is
  sent \<open>MAX_RETRY_NUM\<close> times, the sequence number stays and \<open>sendMsg\<close> still reports success.\<close>

theorem retransmission:
  assumes "\<And>i. i < length env \<Longrightarrow> q \<in> set (env ! i) \<longleftrightarrow> i = n"
  assumes "m_seqno m = q" "ack_env s = env" "length env = MAX_RETRY_NUM"
  shows "let s' = retry_loop 0 m to port orig s in
    (if n < MAX_RETRY_NUM
     then wire s' = wire s @ replicate (Suc n) (to, port, wire_msg m) \<and> ack_env s' = drop (Suc n) env \<and>
       snd_seqs (datamanager s') orig = s32 (snd_seqs (datamanager s) orig + 1)
     else wire s' = wire s @ replicate MAX_RETRY_NUM (to, port, wire_msg m) \<and> ack_env s' = [] \<and>
       datamanager s' = datamanager s)"
proof -
  have a: "acked_in q env i \<longleftrightarrow> i = n \<and> n < MAX_RETRY_NUM" for i
    using assms(1) [of i] assms(4) by (auto simp: acked_in_def)
  have "first_ack MAX_RETRY_NUM q env = (if n < MAX_RETRY_NUM then Some n else None)"
  proof (cases "n < MAX_RETRY_NUM")
    case True
    have "\<forall>j<n. [0..<MAX_RETRY_NUM] ! j \<noteq> n" using True by simp
    with True show ?thesis
      unfolding first_ack_def by (simp add: find_Some_iff) (rule exI [of _ n], simp add: a)
  qed (simp add: first_ack_def a find_None_iff)
  then show ?thesis
    using assms(2-4) by (auto simp: retry_loop_eq bump_seq_def)
qed

theorem retransmission_witness:
  "wire (retry_loop 0 zero_msg 1 80 1 (net_globals\<lparr>ack_env := [] # [0] # replicate 62 []\<rparr>)) =
    [(1, 80, wire_msg zero_msg), (1, 80, wire_msg zero_msg)]"
proof -
  have "0 \<in> set (([] # [0] # replicate 62 []) ! i) \<longleftrightarrow> i = 1" if "i < length ([] # [0] # replicate 62 [])" for i
    using that by (cases i; cases "i - 1") (auto simp: nth_Cons split: nat.splits)
  from retransmission [OF this, of zero_msg "net_globals\<lparr>ack_env := [] # [0] # replicate 62 []\<rparr>" 1 80 1]
  show ?thesis by (simp add: zero_msg_def MAX_RETRY_NUM_def numeral_2_eq_2 Let_def)
qed

end
