(* ===== verification/Locks.thy ===== *)
theory Locks
  imports Sending
begin

text \<open>
  The lock table kept by the manager of each lock (\<open>src/syn.h\<close>, \<open>initsyn\<close>, \<open>graspLock\<close> and
  \<open>freeLock\<close> of \<open>src/syn.c\<close>), its invariant, and the contract of a lock manager as a locale: one
  owner, a FIFO queue of waiting hosts, no host passed over.
\<close>

section \<open>State\<close>

datatype lockstate_t = LOCKED | FREE

record milock_t =
  l_state :: lockstate_t
  l_owner :: int
  l_lasthostid :: int
  l_waitingList :: "int list"
  l_waitingListCount :: nat

record syn_st = net_st +
  locks :: "nat \<Rightarrow> milock_t"
  waitFlag :: int
  myLocks :: "nat \<Rightarrow> int"
  barrierFlags :: "nat \<Rightarrow> int"
  lasthostid :: int

lemma quiet_syn [simp]:
  "quiet (s\<lparr>locks := l\<rparr>) = quiet s" "quiet (s\<lparr>waitFlag := w\<rparr>) = quiet s" "quiet (s\<lparr>myLocks := y\<rparr>) = quiet s"
  "quiet (s\<lparr>barrierFlags := b\<rparr>) = quiet s" "quiet (s\<lparr>lasthostid := h\<rparr>) = quiet s"
  by (simp_all add: quiet_def snd_ok_def)

text \<open>The globals of \<open>syn.c\<close> before \<open>initsyn\<close>: zero, and \<open>LOCKED\<close> is the first enumerator.\<close>

definition zero_lock :: milock_t where
  "zero_lock = \<lparr>l_state = LOCKED, l_owner = 0, l_lasthostid = 0,
     l_waitingList = replicate MAX_HOST_NUM 0, l_waitingListCount = 0\<rparr>"

definition syn_globals :: syn_st where
  "syn_globals = net_st.extend net_globals
     (syn_st.fields (\<lambda>_. zero_lock) 0 (\<lambda>_. 0) (\<lambda>_. 0) 0)"

lemma syn_globals_simps [simp]:
  "locks syn_globals = (\<lambda>_. zero_lock)" "waitFlag syn_globals = 0" "myLocks syn_globals = (\<lambda>_. 0)"
  "hostnum syn_globals = 0" "myhostid syn_globals = 0"
  by (simp_all add: syn_globals_def net_globals_def init_globals_def init_st.defs net_st.defs syn_st.defs)

definition free_lock :: milock_t where
  "free_lock = \<lparr>l_state = FREE, l_owner = - 1, l_lasthostid = - 1,
     l_waitingList = replicate MAX_HOST_NUM (- 1), l_waitingListCount = 0\<rparr>"

definition initsyn :: "'a syn_st_scheme \<Rightarrow> 'a syn_st_scheme" where
  "initsyn s = s\<lparr>locks := (\<lambda>k. if k < LOCK_NUM then free_lock else locks s k),
     waitFlag := 0,
     myLocks := (\<lambda>k. if k < LOCK_NUM then 0 else myLocks s k),
     barrierFlags := (\<lambda>i. if i < MAX_HOST_NUM then 0 else barrierFlags s i),
     lasthostid := - 1\<rparr>"

section \<open>Operations of the manager\<close>

definition graspLock :: "int \<Rightarrow> int \<Rightarrow> 'a syn_st_scheme \<Rightarrow> (int \<times> 'a syn_st_scheme) option" where
  "graspLock lockno hostid s =
     (if lockno < 0 \<or> lockno \<ge> int LOCK_NUM \<or> hostid < 0 \<or> hostid \<ge> hostnum s then Some (- 5, s)
      else do {
        mgr \<leftarrow> crem lockno (hostnum s);
        (if mgr \<noteq> myhostid s then Some (- 2, s)
         else let k = nat lockno; l = locks s k in
           if l_state l = FREE then
             Some (l_lasthostid l, s\<lparr>locks := (locks s)(k := l\<lparr>l_state := LOCKED, l_owner := hostid\<rparr>)\<rparr>)
           else if l_owner l = hostid then Some (- 4, s)
           else do {
             i \<leftarrow> aidx (int (l_waitingListCount l)) MAX_HOST_NUM;
             Some (- 3, s\<lparr>locks := (locks s)(k := l\<lparr>l_waitingList := (l_waitingList l)[i := hostid],
                                                   l_waitingListCount := l_waitingListCount l + 1\<rparr>)\<rparr>) }) })"

text \<open>The loop of \<open>freeLock\<close> that moves the waiting hosts one place forward.\<close>

function shift_loop :: "int list \<Rightarrow> nat \<Rightarrow> nat \<Rightarrow> int list" where
  "shift_loop ws i n = (if i < n then shift_loop (ws[i := ws ! (i + 1)]) (Suc i) n else ws)"
  by pat_completeness auto
termination
  by (relation "measure (\<lambda>(ws, i, n). n - i)") auto

declare shift_loop.simps [simp del]

definition freeLock :: "int \<Rightarrow> int \<Rightarrow> 'a syn_st_scheme \<Rightarrow> (int \<times> 'a syn_st_scheme) option" where
  "freeLock lockno hostid s =
     (if lockno < 0 \<or> lockno \<ge> int LOCK_NUM \<or> hostid < 0 \<or> hostid \<ge> hostnum s then Some (- 1, s)
      else do {
        mgr \<leftarrow> crem lockno (hostnum s);
        (if mgr \<noteq> myhostid s then Some (- 2, s)
         else let k = nat lockno; l = locks s k in
           if l_state l = FREE then Some (- 3, s)
           else if l_owner l \<noteq> hostid then Some (- 4, s)
           else if l_waitingListCount l = 0 then
             Some (- 5, s\<lparr>locks := (locks s)(k := l\<lparr>l_state := FREE, l_owner := - 1,
                                                    l_lasthostid := hostid\<rparr>)\<rparr>)
           else let waitinghostid = l_waitingList l ! 0;
                    ws = shift_loop (l_waitingList l) 0 (l_waitingListCount l - 1);
                    ws = ws[l_waitingListCount l - 1 := - 1]
                in Some (waitinghostid, s\<lparr>locks := (locks s)(k := l\<lparr>l_waitingList := ws,
                     l_waitingListCount := l_waitingListCount l - 1, l_owner := waitinghostid,
                     l_lasthostid := hostid\<rparr>)\<rparr>)) })"

section \<open>The invariant of a lock\<close>

definition lock_queue :: "milock_t \<Rightarrow> int list" where
  "lock_queue l = take (l_waitingListCount l) (l_waitingList l)"

definition lock_owner :: "milock_t \<Rightarrow> int option" where
  "lock_owner l = (if l_state l = FREE then None else Some (l_owner l))"

definition lock_ok :: "int \<Rightarrow> milock_t \<Rightarrow> bool" where
  "lock_ok hn l \<longleftrightarrow>
     length (l_waitingList l) = MAX_HOST_NUM \<and> l_waitingListCount l \<le> MAX_HOST_NUM \<and>
     drop (l_waitingListCount l) (l_waitingList l) =
       replicate (MAX_HOST_NUM - l_waitingListCount l) (- 1) \<and>
     - 1 \<le> l_lasthostid l \<and> l_lasthostid l < hn \<and>
     (case lock_owner l of
        None \<Rightarrow> l_owner l = - 1 \<and> l_waitingListCount l = 0
      | Some h \<Rightarrow> distinct (h # lock_queue l) \<and> set (h # lock_queue l) \<subseteq> {0..<hn})"

lemma lock_owner_None_iff: "lock_owner l = None \<longleftrightarrow> l_state l = FREE"
  by (simp add: lock_owner_def)

lemma lock_owner_Some_iff: "lock_owner l = Some h \<longleftrightarrow> l_state l \<noteq> FREE \<and> l_owner l = h"
  by (auto simp: lock_owner_def)

lemmas lock_owner_iffs = lock_owner_None_iff lock_owner_Some_iff

lemma lock_ok_free: "0 < hn \<Longrightarrow> lock_ok hn free_lock"
  by (simp add: lock_ok_def free_lock_def lock_owner_def)

lemma length_lock_queue:
  "lock_ok hn l \<Longrightarrow> length (lock_queue l) = l_waitingListCount l"
  by (simp add: lock_ok_def lock_queue_def)

text \<open>A queue of distinct hosts without the owner is shorter than the number of hosts.\<close>

lemma lock_queue_short:
  assumes "lock_ok hn l" "lock_owner l = Some h"
  shows "int (l_waitingListCount l) < hn"
proof -
  have "card (set (h # lock_queue l)) \<le> card {0..<hn}"
    using assms by (intro card_mono) (auto simp: lock_ok_def)
  moreover have "card (set (h # lock_queue l)) = Suc (l_waitingListCount l)"
    using assms length_lock_queue [OF assms(1)] distinct_card [of "h # lock_queue l"]
    by (simp add: lock_ok_def)
  ultimately show ?thesis by simp
qed

lemma shift_loop_eq:
  "i \<le> n \<Longrightarrow> n < length ws \<Longrightarrow>
    shift_loop ws i n = take i ws @ take (n - i) (drop (Suc i) ws) @ drop n ws"
proof (induction ws i n rule: shift_loop.induct)
  case (1 ws i n)
  show ?case
  proof (cases "i < n")
    case True
    have d: "drop (Suc i) ws = ws ! Suc i # drop (Suc (Suc i)) ws"
      using True "1.prems" by (simp add: Cons_nth_drop_Suc)
    have t: "take (Suc i) (ws[i := ws ! Suc i]) = take i ws @ [ws ! Suc i]"
      using True "1.prems" by (simp add: take_Suc_conv_app_nth)
    have "shift_loop ws i n = take (Suc i) (ws[i := ws ! Suc i]) @
        take (n - Suc i) (drop (Suc (Suc i)) ws) @ drop n ws"
      using 1 True by (subst shift_loop.simps) simp
    also have "\<dots> = take i ws @ take (n - i) (drop (Suc i) ws) @ drop n ws"
      using True by (simp add: t d take_Cons' Suc_diff_Suc)
    finally show ?thesis .
  next
    case False
    with "1.prems" show ?thesis by (subst shift_loop.simps) simp
  qed
qed

text \<open>Removing the first waiting host.\<close>

lemma shift_queue:
  assumes "length ws = N" "0 < n" "n \<le> N" "drop n ws = replicate (N - n) (- 1)"
  shows "take (n - 1) ((shift_loop ws 0 (n - 1))[n - 1 := - 1]) = tl (take n ws)"
    and "drop (n - 1) ((shift_loop ws 0 (n - 1))[n - 1 := - 1]) = replicate (N - (n - 1)) (- 1)"
    and "length ((shift_loop ws 0 (n - 1))[n - 1 := - 1]) = N"
proof -
  obtain m where m: "n = Suc m" using assms(2) by (cases n) auto
  have e: "shift_loop ws 0 m = take m (tl ws) @ drop m ws"
    using shift_loop_eq [of 0 m ws] assms m by (simp add: drop_Suc)
  have l: "length (take m (tl ws)) = m" using assms m by simp
  have u: "(shift_loop ws 0 m)[m := - 1] = take m (tl ws) @ (- 1) # drop n ws"
    using assms m by (simp add: e list_update_append l Cons_nth_drop_Suc [symmetric])
  show "take (n - 1) ((shift_loop ws 0 (n - 1))[n - 1 := - 1]) = tl (take n ws)"
    using l by (simp add: m u take_Suc tl_take)
  show "drop (n - 1) ((shift_loop ws 0 (n - 1))[n - 1 := - 1]) = replicate (N - (n - 1)) (- 1)"
    using l assms m by (simp add: u Suc_diff_Suc [symmetric] flip: replicate_Suc)
  show "length ((shift_loop ws 0 (n - 1))[n - 1 := - 1]) = N"
    using assms m by (simp add: u)
qed

section \<open>The contract of a lock manager\<close>

text \<open>
  What a client of the manager relies on: a request for a free lock is granted, a request for a
  lock in use is queued, a release hands the lock to the host that has waited longest.
\<close>

locale lock_manager =
  fixes ok :: "'s \<Rightarrow> bool"
    and valid :: "int \<Rightarrow> 's \<Rightarrow> bool"
    and owner :: "'s \<Rightarrow> int option"
    and queue :: "'s \<Rightarrow> int list"
    and grasp :: "int \<Rightarrow> 's \<Rightarrow> (int \<times> 's) option"
    and release :: "int \<Rightarrow> 's \<Rightarrow> (int \<times> 's) option"
  assumes owner_valid: "ok s \<Longrightarrow> owner s = Some h \<Longrightarrow> valid h s"
    and queue_distinct: "ok s \<Longrightarrow> owner s = Some h \<Longrightarrow> distinct (h # queue s)"
    and grasp_idle: "ok s \<Longrightarrow> valid h s \<Longrightarrow> owner s = None \<Longrightarrow>
      \<exists>r s'. grasp h s = Some (r, s') \<and> - 1 \<le> r \<and> ok s' \<and> owner s' = Some h \<and> queue s' = []"
    and grasp_busy: "ok s \<Longrightarrow> valid h s \<Longrightarrow> owner s = Some g \<Longrightarrow> h \<noteq> g \<Longrightarrow> h \<notin> set (queue s) \<Longrightarrow>
      \<exists>s'. grasp h s = Some (- 3, s') \<and> ok s' \<and> owner s' = Some g \<and> queue s' = queue s @ [h]"
    and release_next: "ok s \<Longrightarrow> owner s = Some h \<Longrightarrow> queue s = w # q \<Longrightarrow>
      \<exists>s'. release h s = Some (w, s') \<and> ok s' \<and> owner s' = Some w \<and> queue s' = q"
    and release_last: "ok s \<Longrightarrow> owner s = Some h \<Longrightarrow> queue s = [] \<Longrightarrow>
      \<exists>s'. release h s = Some (- 5, s') \<and> ok s' \<and> owner s' = None \<and> queue s' = []"
    and release_foreign: "ok s \<Longrightarrow> valid h s \<Longrightarrow> owner s \<noteq> Some h \<Longrightarrow>
      \<exists>r. r < - 1 \<and> r \<noteq> - 5 \<and> release h s = Some (r, s)"
begin

text \<open>The owners release one after the other; a host at position \<open>i\<close> of the queue owns the lock
  after \<open>i + 1\<close> releases.\<close>

lemma served_in_order:
  "ok s \<Longrightarrow> owner s = Some h \<Longrightarrow> i < length (queue s) \<Longrightarrow>
    \<exists>s'. foldl (\<lambda>m g. Option.bind m (\<lambda>t. map_option snd (release g t))) (Some s)
        (take (Suc i) (h # queue s)) = Some s' \<and>
      ok s' \<and> owner s' = Some (queue s ! i) \<and> queue s' = drop (Suc i) (queue s)"
proof (induction i arbitrary: s h)
  case 0
  then obtain w q where q: "queue s = w # q" by (cases "queue s") auto
  with release_next [OF 0(1,2) q] show ?case by auto
next
  case (Suc i)
  then obtain w q where q: "queue s = w # q" by (cases "queue s") auto
  with release_next [OF Suc.prems(1,2) q] obtain t where
    t: "release h s = Some (w, t)" "ok t" "owner t = Some w" "queue t = q" by auto
  with Suc.IH [of t w] Suc.prems(3) q show ?case by auto
qed

text \<open>A host that waits is not granted the lock before the owner releases it.\<close>

lemma one_owner: "ok s \<Longrightarrow> owner s = Some h \<Longrightarrow> g \<in> set (queue s) \<Longrightarrow> owner s \<noteq> Some g"
  using queue_distinct by auto

end

section \<open>The model is a lock manager\<close>

text \<open>Lock \<open>k\<close> is managed by this host and its entry is well formed.\<close>

definition managed :: "nat \<Rightarrow> 'a syn_st_scheme \<Rightarrow> bool" where
  "managed k s \<longleftrightarrow> k < LOCK_NUM \<and> 0 < hostnum s \<and> hostnum s \<le> int MAX_HOST_NUM \<and>
     int k mod hostnum s = myhostid s \<and> lock_ok (hostnum s) (locks s k)"

definition is_host :: "int \<Rightarrow> 'a syn_st_scheme \<Rightarrow> bool" where
  "is_host h s \<longleftrightarrow> 0 \<le> h \<and> h < hostnum s"

lemma managed_crem: "managed k s \<Longrightarrow> crem (int k) (hostnum s) = Some (myhostid s)"
  by (simp add: managed_def crem_nonneg)

lemma graspLock_idle:
  assumes "managed k s" "is_host h s" "lock_owner (locks s k) = None"
  shows "graspLock (int k) h s = Some (l_lasthostid (locks s k),
    s\<lparr>locks := (locks s)(k := (locks s k)\<lparr>l_state := LOCKED, l_owner := h\<rparr>)\<rparr>)"
proof -
  have "k < LOCK_NUM" "0 \<le> h" "h < hostnum s" "l_state (locks s k) = FREE"
    using assms by (simp_all add: managed_def is_host_def lock_owner_iffs)
  then show ?thesis by (simp add: graspLock_def Let_def managed_crem [OF assms(1)])
qed

lemma graspLock_busy:
  assumes "managed k s" "is_host h s" "lock_owner (locks s k) = Some g" "h \<noteq> g"
  shows "graspLock (int k) h s = Some (- 3, s\<lparr>locks := (locks s)(k := (locks s k)
    \<lparr>l_waitingList := (l_waitingList (locks s k))[l_waitingListCount (locks s k) := h],
     l_waitingListCount := l_waitingListCount (locks s k) + 1\<rparr>)\<rparr>)"
proof -
  have "k < LOCK_NUM" "0 \<le> h" "h < hostnum s" "l_state (locks s k) \<noteq> FREE"
    "l_owner (locks s k) \<noteq> h" "l_waitingListCount (locks s k) < MAX_HOST_NUM"
    using assms lock_queue_short [of "hostnum s" "locks s k" g]
    by (auto simp: managed_def is_host_def lock_owner_iffs)
  then show ?thesis by (simp add: graspLock_def Let_def managed_crem [OF assms(1)])
qed

lemma freeLock_last:
  assumes "managed k s" "is_host h s" "lock_owner (locks s k) = Some h" "lock_queue (locks s k) = []"
  shows "freeLock (int k) h s = Some (- 5, s\<lparr>locks := (locks s)(k := (locks s k)
    \<lparr>l_state := FREE, l_owner := - 1, l_lasthostid := h\<rparr>)\<rparr>)"
proof -
  have "k < LOCK_NUM" "0 \<le> h" "h < hostnum s" "l_state (locks s k) \<noteq> FREE"
    "l_owner (locks s k) = h" "l_waitingListCount (locks s k) = 0"
    using assms length_lock_queue [of "hostnum s" "locks s k"]
    by (auto simp: managed_def is_host_def lock_owner_iffs)
  then show ?thesis by (simp add: freeLock_def Let_def managed_crem [OF assms(1)])
qed

definition next_lock :: "int \<Rightarrow> milock_t \<Rightarrow> milock_t" where
  "next_lock h l = l\<lparr>l_waitingList := (shift_loop (l_waitingList l) 0 (l_waitingListCount l - 1))
       [l_waitingListCount l - 1 := - 1],
     l_waitingListCount := l_waitingListCount l - 1,
     l_owner := l_waitingList l ! 0, l_lasthostid := h\<rparr>"

lemma freeLock_next:
  assumes "managed k s" "is_host h s" "lock_owner (locks s k) = Some h" "lock_queue (locks s k) = w # q"
  shows "freeLock (int k) h s = Some (w, s\<lparr>locks := (locks s)(k := next_lock h (locks s k))\<rparr>)"
proof -
  let ?l = "locks s k"
  have n: "l_waitingListCount ?l \<noteq> 0" using assms(4) by (auto simp: lock_queue_def intro!: gr0I)
  have w: "l_waitingList ?l ! 0 = w"
    using assms(4) n by (cases "l_waitingList ?l") (auto simp: lock_queue_def take_Cons')
  have "k < LOCK_NUM" "0 \<le> h" "h < hostnum s" "l_state ?l \<noteq> FREE" "l_owner ?l = h"
    using assms by (auto simp: managed_def is_host_def lock_owner_iffs)
  then have "freeLock (int k) h s =
      Some (l_waitingList ?l ! 0, s\<lparr>locks := (locks s)(k := next_lock h ?l)\<rparr>)"
    using n by (simp add: freeLock_def Let_def managed_crem [OF assms(1)] next_lock_def)
  with w show ?thesis by simp
qed

lemma next_lock_ok:
  assumes "lock_ok hn l" "lock_owner l = Some h" "lock_queue l = w # q"
  shows "lock_ok hn (next_lock h l) \<and> lock_owner (next_lock h l) = Some w \<and> lock_queue (next_lock h l) = q"
proof -
  let ?n = "l_waitingListCount l"
  have n: "0 < ?n" using assms(3) by (cases ?n) (auto simp: lock_queue_def)
  note sh = shift_queue [of "l_waitingList l" MAX_HOST_NUM ?n]
  have st: "l_state l = LOCKED" using assms(2) by (cases "l_state l") (auto simp: lock_owner_def)
  have w: "l_waitingList l ! 0 = w"
    using assms(3) n by (cases "l_waitingList l") (auto simp: lock_queue_def take_Cons')
  have q: "lock_queue (next_lock h l) = q"
    using sh(1) n assms by (simp add: lock_queue_def next_lock_def lock_ok_def)
  have o: "lock_owner (next_lock h l) = Some w"
    using st w by (simp add: lock_owner_def next_lock_def)
  have h: "0 \<le> h \<and> h < hn" using assms by (auto simp: lock_ok_def)
  with sh n assms q o show ?thesis
    by (auto simp: lock_ok_def next_lock_def)
qed

lemma grasp_idle_ok:
  assumes "lock_ok hn l" "lock_owner l = None" "0 \<le> h" "h < hn"
  shows "lock_ok hn (l\<lparr>l_state := LOCKED, l_owner := h\<rparr>) \<and>
    lock_owner (l\<lparr>l_state := LOCKED, l_owner := h\<rparr>) = Some h \<and>
    lock_queue (l\<lparr>l_state := LOCKED, l_owner := h\<rparr>) = []"
  using assms by (auto simp: lock_ok_def lock_owner_def lock_queue_def split: if_splits)

lemma grasp_busy_ok:
  assumes "lock_ok hn l" "lock_owner l = Some g" "0 \<le> h" "h < hn" "h \<noteq> g" "h \<notin> set (lock_queue l)"
    "hn \<le> int MAX_HOST_NUM"
  defines "l' \<equiv> l\<lparr>l_waitingList := (l_waitingList l)[l_waitingListCount l := h],
     l_waitingListCount := l_waitingListCount l + 1\<rparr>"
  shows "lock_ok hn l' \<and> lock_owner l' = Some g \<and> lock_queue l' = lock_queue l @ [h]"
proof -
  have n: "l_waitingListCount l < MAX_HOST_NUM"
    using lock_queue_short [OF assms(1,2)] assms(7) by linarith
  have len: "length (l_waitingList l) = MAX_HOST_NUM" using assms(1) by (simp add: lock_ok_def)
  have o: "lock_owner l' = Some g" using assms(2) by (simp add: lock_owner_iffs l'_def)
  have q: "lock_queue l' = lock_queue l @ [h]"
    using n len by (simp add: lock_queue_def l'_def take_Suc_conv_app_nth)
  have "drop (Suc (l_waitingListCount l)) (l_waitingList l) =
      tl (replicate (MAX_HOST_NUM - l_waitingListCount l) (- 1))"
    using assms(1) by (simp add: lock_ok_def drop_Suc tl_drop [symmetric])
  then have "drop (Suc (l_waitingListCount l)) (l_waitingList l) =
      replicate (MAX_HOST_NUM - Suc (l_waitingListCount l)) (- 1)"
    by simp
  with assms n len o q show ?thesis
    by (auto simp: lock_ok_def l'_def)
qed

interpretation lm: lock_manager "managed k" is_host "\<lambda>s. lock_owner (locks s k)"
  "\<lambda>s. lock_queue (locks s k)" "graspLock (int k)" "freeLock (int k)" for k
proof (unfold_locales, goal_cases)
  case (1 s h)
  then show ?case by (auto simp: managed_def lock_ok_def is_host_def)
next
  case (2 s h)
  then show ?case by (auto simp: managed_def lock_ok_def)
next
  case (3 s h)
  then show ?case
    using grasp_idle_ok [of "hostnum s" "locks s k" h]
    by (auto simp: graspLock_idle managed_def is_host_def lock_ok_def)
next
  case (4 s h g)
  then show ?case
    using grasp_busy_ok [of "hostnum s" "locks s k" g h]
    by (auto simp: graspLock_busy managed_def is_host_def)
next
  case (5 s h w q)
  then have "is_host h s" by (auto simp: managed_def lock_ok_def is_host_def)
  with 5 show ?case
    using next_lock_ok [of "hostnum s" "locks s k" h w q]
    by (auto simp: freeLock_next managed_def)
next
  case (6 s h)
  then have "is_host h s" by (auto simp: managed_def lock_ok_def is_host_def)
  with 6 show ?case
    by (auto simp: freeLock_last managed_def lock_ok_def lock_owner_def lock_queue_def is_host_def)
next
  case (7 s h)
  then have "k < LOCK_NUM" "0 \<le> h" "h < hostnum s" "l_state (locks s k) \<noteq> FREE \<longrightarrow> l_owner (locks s k) \<noteq> h"
    by (auto simp: managed_def is_host_def lock_owner_def)
  then show ?case by (simp add: freeLock_def Let_def managed_crem [OF 7(1)])
qed

section \<open>The operations branch by branch\<close>

lemma lock_room:
  assumes "managed k s"
  shows "l_waitingListCount (locks s k) < MAX_HOST_NUM"
proof (cases "lock_owner (locks s k)")
  case None
  with assms show ?thesis by (simp add: managed_def lock_ok_def MAX_HOST_NUM_def)
next
  case (Some g)
  with assms lock_queue_short [of "hostnum s" "locks s k" g] show ?thesis by (auto simp: managed_def)
qed

text \<open>The branches of \<open>graspLock\<close> and \<open>freeLock\<close>, whatever the entry holds.\<close>

lemma graspLock_refused:
  "\<not> (0 \<le> lockno \<and> lockno < int LOCK_NUM \<and> is_host h s) \<Longrightarrow> graspLock lockno h s = Some (- 5, s)"
  "0 \<le> lockno \<and> lockno < int LOCK_NUM \<and> is_host h s \<Longrightarrow> lockno mod hostnum s \<noteq> myhostid s \<Longrightarrow>
    graspLock lockno h s = Some (- 2, s)"
  "0 \<le> lockno \<and> lockno < int LOCK_NUM \<and> is_host h s \<Longrightarrow> lockno mod hostnum s = myhostid s \<Longrightarrow>
    lock_owner (locks s (nat lockno)) = Some h \<Longrightarrow> graspLock lockno h s = Some (- 4, s)"
  by (auto simp: graspLock_def is_host_def crem_nonneg Let_def lock_owner_iffs)

lemma graspLock_free:
  assumes "0 \<le> lockno \<and> lockno < int LOCK_NUM \<and> is_host h s" "lockno mod hostnum s = myhostid s"
    "lock_owner (locks s (nat lockno)) = None"
  shows "graspLock lockno h s = Some (l_lasthostid (locks s (nat lockno)),
    s\<lparr>locks := (locks s)(nat lockno := (locks s (nat lockno))\<lparr>l_state := LOCKED, l_owner := h\<rparr>)\<rparr>)"
  using assms by (auto simp: graspLock_def is_host_def crem_nonneg Let_def lock_owner_iffs)

lemma graspLock_taken:
  assumes "0 \<le> lockno \<and> lockno < int LOCK_NUM \<and> is_host h s" "lockno mod hostnum s = myhostid s"
    "lock_owner (locks s (nat lockno)) = Some g" "g \<noteq> h"
  shows "graspLock lockno h s = (let l = locks s (nat lockno); n = l_waitingListCount l in
    if MAX_HOST_NUM \<le> n then None
    else Some (- 3, s\<lparr>locks := (locks s)(nat lockno :=
      l\<lparr>l_waitingList := (l_waitingList l)[n := h], l_waitingListCount := n + 1\<rparr>)\<rparr>))"
  using assms by (auto simp: graspLock_def is_host_def crem_nonneg Let_def lock_owner_iffs)

lemma freeLock_refused:
  "\<not> (0 \<le> lockno \<and> lockno < int LOCK_NUM \<and> is_host h s) \<Longrightarrow> freeLock lockno h s = Some (- 1, s)"
  "0 \<le> lockno \<and> lockno < int LOCK_NUM \<and> is_host h s \<Longrightarrow> lockno mod hostnum s \<noteq> myhostid s \<Longrightarrow>
    freeLock lockno h s = Some (- 2, s)"
  "0 \<le> lockno \<and> lockno < int LOCK_NUM \<and> is_host h s \<Longrightarrow> lockno mod hostnum s = myhostid s \<Longrightarrow>
    lock_owner (locks s (nat lockno)) = None \<Longrightarrow> freeLock lockno h s = Some (- 3, s)"
  "0 \<le> lockno \<and> lockno < int LOCK_NUM \<and> is_host h s \<Longrightarrow> lockno mod hostnum s = myhostid s \<Longrightarrow>
    lock_owner (locks s (nat lockno)) = Some g \<Longrightarrow> g \<noteq> h \<Longrightarrow> freeLock lockno h s = Some (- 4, s)"
  by (auto simp: freeLock_def is_host_def crem_nonneg Let_def lock_owner_iffs)

lemma graspLock_managed:
  assumes "graspLock lockno h s = Some (r, s')" "managed k s" "h \<notin> set (lock_queue (locks s k))"
  shows "managed k s'"
proof (cases "int k = lockno \<and> is_host h s")
  case False
  with assms(1,2) show ?thesis
    by (auto simp: graspLock_def Let_def managed_def is_host_def split: if_splits Option.bind_splits)
next
  case True
  then have k: "lockno = int k" and host: "is_host h s" by simp_all
  consider "lock_owner (locks s k) = None" | "lock_owner (locks s k) = Some h"
    | g where "lock_owner (locks s k) = Some g" "h \<noteq> g" by (cases "lock_owner (locks s k)") auto
  then show ?thesis
  proof cases
    case 1
    with assms k lm.grasp_idle [OF assms(2) host] show ?thesis by auto
  next
    case 2
    with assms k host show ?thesis
      by (auto simp: graspLock_def Let_def managed_crem is_host_def lock_owner_iffs split: if_splits)
  next
    case 3
    with assms k lm.grasp_busy [OF assms(2) host _ _ assms(3)] show ?thesis by auto
  qed
qed

lemma shift_queue_take:
  assumes "0 < n" "n \<le> length ws"
  shows "take (n - 1) ((shift_loop ws 0 (n - 1))[n - 1 := - 1]) = tl (take n ws)"
proof -
  obtain m where m: "n = Suc m" using assms(1) by (cases n) auto
  have "shift_loop ws 0 m = take m (tl ws) @ drop m ws"
    using shift_loop_eq [of 0 m ws] assms m by (simp add: drop_Suc)
  moreover have "length (take m (tl ws)) = m" using assms m by simp
  ultimately show ?thesis by (simp add: m take_Suc tl_take)
qed

lemma freeLock_owner:
  assumes "0 \<le> lockno \<and> lockno < int LOCK_NUM \<and> is_host h s" "lockno mod hostnum s = myhostid s"
    "lock_owner (locks s (nat lockno)) = Some h"
  shows "freeLock lockno h s = (let l = locks s (nat lockno) in
    if l_waitingListCount l = 0 then Some (- 5, s\<lparr>locks := (locks s)(nat lockno :=
      l\<lparr>l_state := FREE, l_owner := - 1, l_lasthostid := h\<rparr>)\<rparr>)
    else Some (l_waitingList l ! 0, s\<lparr>locks := (locks s)(nat lockno := next_lock h l)\<rparr>))"
  using assms by (auto simp: freeLock_def is_host_def crem_nonneg Let_def lock_owner_iffs next_lock_def)

lemma freeLock_managed:
  assumes "freeLock lockno h s = Some (r, s')" "managed k s"
  shows "managed k s'"
proof (cases "int k = lockno \<and> lock_owner (locks s k) = Some h")
  case False
  with assms show ?thesis
    by (auto simp: freeLock_def Let_def managed_def lock_owner_iffs split: if_splits Option.bind_splits)
next
  case True
  then show ?thesis
    using assms lm.release_last [OF assms(2), of h] lm.release_next [OF assms(2), of h]
    by (cases "lock_queue (locks s k)") auto
qed

section \<open>Properties\<close>

lemma initsyn_managed:
  "0 < hostnum s \<Longrightarrow> hostnum s \<le> int MAX_HOST_NUM \<Longrightarrow> k < LOCK_NUM \<Longrightarrow>
    int k mod hostnum s = myhostid s \<Longrightarrow>
    managed k (initsyn s) \<and> lock_owner (locks (initsyn s) k) = None \<and>
    lock_queue (locks (initsyn s) k) = []"
  using lock_ok_free [of "hostnum s"]
  by (simp add: managed_def initsyn_def lock_owner_def lock_queue_def free_lock_def)

text \<open>C19: \<open>graspLock\<close> on every branch, whatever the queue of the entry holds. A lock number or a host out
  of range gives -5, a lock that another host manages -2, the owner asking again -4, all without any
  change. A free lock goes to the caller, and the host that held it last (or -1) is returned. Otherwise
  the answer is -3 and the caller is put at the end of the queue, a second time if it waits already; when
  the queue of the entry has no place left the code writes behind it (\<open>None\<close>). A well-formed entry has
  room, and stays well formed if the caller did not wait yet. No other lock is touched.\<close>

theorem graspLock_spec:
  assumes "length (l_waitingList (locks s (nat lockno))) = MAX_HOST_NUM"
  shows "(let k = nat lockno; valid = (0 \<le> lockno \<and> lockno < int LOCK_NUM \<and> is_host h s);
      mine = (lockno mod hostnum s = myhostid s) in
    case graspLock lockno h s of
      None \<Rightarrow> valid \<and> mine \<and> lock_owner (locks s k) \<notin> {None, Some h} \<and> \<not> managed k s \<and>
        MAX_HOST_NUM \<le> l_waitingListCount (locks s k)
    | Some (r, s') \<Rightarrow>
        s' = s\<lparr>locks := (locks s)(k := locks s' k)\<rparr> \<and>
        (\<forall>j. managed j s \<and> h \<notin> set (lock_queue (locks s j)) \<longrightarrow> managed j s') \<and>
        (if \<not> valid then r = - 5 \<and> s' = s
         else if \<not> mine then r = - 2 \<and> s' = s
         else case lock_owner (locks s k) of
           None \<Rightarrow> r = l_lasthostid (locks s k) \<and> lock_owner (locks s' k) = Some h \<and>
             lock_queue (locks s' k) = lock_queue (locks s k)
         | Some g \<Rightarrow> if g = h then r = - 4 \<and> s' = s
             else r = - 3 \<and> lock_owner (locks s' k) = Some g \<and>
               lock_queue (locks s' k) = lock_queue (locks s k) @ [h] \<and>
               l_lasthostid (locks s' k) = l_lasthostid (locks s k)))"
proof -
  let ?l = "locks s (nat lockno)" and ?valid = "0 \<le> lockno \<and> lockno < int LOCK_NUM \<and> is_host h s"
  have keeps: "\<forall>j. managed j s \<and> h \<notin> set (lock_queue (locks s j)) \<longrightarrow> managed j s'"
    if "graspLock lockno h s = Some (r, s')" for r s'
    using graspLock_managed [OF that] by blast
  consider (invalid) "\<not> ?valid" | (foreign) "?valid" "lockno mod hostnum s \<noteq> myhostid s"
    | (own) "?valid" "lockno mod hostnum s = myhostid s" "lock_owner ?l = Some h"
    | (free) "?valid" "lockno mod hostnum s = myhostid s" "lock_owner ?l = None"
    | (taken) g where "?valid" "lockno mod hostnum s = myhostid s" "lock_owner ?l = Some g" "g \<noteq> h"
    by (cases "lock_owner ?l") auto
  then show ?thesis
  proof cases
    case invalid
    then show ?thesis unfolding Let_def graspLock_refused(1) [OF invalid] by simp
  next
    case foreign
    then show ?thesis unfolding Let_def graspLock_refused(2) [OF foreign] by simp
  next
    case own
    then show ?thesis unfolding Let_def graspLock_refused(3) [OF own] by simp
  next
    case free
    note e = graspLock_free [OF free]
    from keeps [OF e] free show ?thesis unfolding Let_def e by (simp add: lock_owner_def lock_queue_def)
  next
    case (taken g)
    note e = graspLock_taken [OF taken]
    show ?thesis
    proof (cases "MAX_HOST_NUM \<le> l_waitingListCount ?l")
      case True
      then have "\<not> managed (nat lockno) s" using lock_room [of "nat lockno" s] by linarith
      with True taken show ?thesis unfolding Let_def e by simp
    next
      case False
      note e = e [unfolded Let_def if_not_P [OF False]]
      have "lock_owner (?l\<lparr>l_waitingList := ws, l_waitingListCount := n\<rparr>) = lock_owner ?l" for ws n
        by (simp add: lock_owner_def)
      with keeps [OF e] False taken assms show ?thesis
        unfolding Let_def e by (simp add: lock_queue_def take_Suc_conv_app_nth)
    qed
  qed
qed

theorem graspLock_spec_witness:
  "\<exists>s'. graspLock 7 2 (initsyn (syn_globals\<lparr>hostnum := 3, myhostid := 1\<rparr>)) = Some (- 1, s') \<and>
    lock_owner (locks s' 7) = Some 2 \<and> managed 7 s'"
proof -
  let ?s = "initsyn (syn_globals\<lparr>hostnum := 3, myhostid := 1\<rparr>)"
  have m: "managed 7 ?s" "lock_owner (locks ?s 7) = None" "lock_queue (locks ?s 7) = []"
    using initsyn_managed [of "syn_globals\<lparr>hostnum := 3, myhostid := 1\<rparr>" 7]
    by (simp_all add: MAX_HOST_NUM_def LOCK_NUM_def)
  have i: "length (l_waitingList (locks ?s 7)) = MAX_HOST_NUM" "is_host 2 ?s" "hostnum ?s = 3" "myhostid ?s = 1"
    "l_lasthostid (locks ?s 7) = - 1"
    by (simp_all add: initsyn_def is_host_def free_lock_def LOCK_NUM_def)
  from graspLock_spec [of ?s 7 2] m i show ?thesis
    by (auto simp: Let_def LOCK_NUM_def split: option.splits)
qed

text \<open>C20: \<open>freeLock\<close> on every branch. A lock number or a host out of range gives -1, a lock that another
  host manages -2, a free lock -3 and a caller that does not own the lock -4, all without any change. The
  owner's release is recorded as the last holder; it hands the lock to the host that waits longest and
  returns it, or frees the lock with -5 when nobody waits. Well-formed entries stay well formed and no
  other lock is touched.\<close>

theorem freeLock_spec:
  assumes "l_waitingListCount (locks s (nat lockno)) \<le> length (l_waitingList (locks s (nat lockno)))"
  shows "\<exists>r s'. freeLock lockno h s = Some (r, s') \<and>
    (let k = nat lockno in
     s' = s\<lparr>locks := (locks s)(k := locks s' k)\<rparr> \<and> (\<forall>j. managed j s \<longrightarrow> managed j s') \<and>
     (if \<not> (0 \<le> lockno \<and> lockno < int LOCK_NUM \<and> is_host h s) then r = - 1 \<and> s' = s
      else if lockno mod hostnum s \<noteq> myhostid s then r = - 2 \<and> s' = s
      else case lock_owner (locks s k) of
        None \<Rightarrow> r = - 3 \<and> s' = s
      | Some g \<Rightarrow> if g \<noteq> h then r = - 4 \<and> s' = s
          else l_lasthostid (locks s' k) = h \<and>
            (case lock_queue (locks s k) of
               [] \<Rightarrow> r = - 5 \<and> lock_owner (locks s' k) = None \<and> lock_queue (locks s' k) = []
             | w # ws \<Rightarrow> r = w \<and> lock_owner (locks s' k) = Some w \<and> lock_queue (locks s' k) = ws)))"
proof -
  let ?l = "locks s (nat lockno)" and ?valid = "0 \<le> lockno \<and> lockno < int LOCK_NUM \<and> is_host h s"
  have keeps: "\<forall>j. managed j s \<longrightarrow> managed j s'" if "freeLock lockno h s = Some (r, s')" for r s'
    using freeLock_managed [OF that] by blast
  consider (invalid) "\<not> ?valid" | (foreign) "?valid" "lockno mod hostnum s \<noteq> myhostid s"
    | (free) "?valid" "lockno mod hostnum s = myhostid s" "lock_owner ?l = None"
    | (other) g where "?valid" "lockno mod hostnum s = myhostid s" "lock_owner ?l = Some g" "g \<noteq> h"
    | (own) "?valid" "lockno mod hostnum s = myhostid s" "lock_owner ?l = Some h"
    by (cases "lock_owner ?l") auto
  then show ?thesis
  proof cases
    case invalid
    then show ?thesis unfolding Let_def freeLock_refused(1) [OF invalid] by simp
  next
    case foreign
    then show ?thesis unfolding Let_def freeLock_refused(2) [OF foreign] by simp
  next
    case free
    then show ?thesis unfolding Let_def freeLock_refused(3) [OF free] by simp
  next
    case (other g)
    then show ?thesis unfolding Let_def freeLock_refused(4) [OF other] by simp
  next
    case own
    note e = freeLock_owner [OF own, unfolded Let_def]
    show ?thesis
    proof (cases "l_waitingListCount ?l = 0")
      case True
      note e = e [unfolded if_P [OF True]]
      from keeps [OF e] own True show ?thesis
        unfolding Let_def e by (simp add: lock_owner_def lock_queue_def)
    next
      case False
      note e = e [unfolded if_not_P [OF False]]
      have q: "lock_queue ?l = l_waitingList ?l ! 0 # lock_queue (next_lock h ?l)"
        using False assms shift_queue_take [of "l_waitingListCount ?l" "l_waitingList ?l"]
        by (cases "l_waitingList ?l") (auto simp: lock_queue_def next_lock_def take_Cons')
      have "lock_owner (next_lock h ?l) = Some (l_waitingList ?l ! 0)" "l_lasthostid (next_lock h ?l) = h"
        using own by (simp_all add: lock_owner_iffs next_lock_def)
      with keeps [OF e] own q show ?thesis unfolding Let_def e by simp
    qed
  qed
qed

theorem freeLock_spec_witness:
  "freeLock 7 2 (initsyn (syn_globals\<lparr>hostnum := 3, myhostid := 1\<rparr>)) =
     Some (- 3, initsyn (syn_globals\<lparr>hostnum := 3, myhostid := 1\<rparr>))"
proof -
  let ?s = "initsyn (syn_globals\<lparr>hostnum := 3, myhostid := 1\<rparr>)"
  have "l_waitingListCount (locks ?s 7) \<le> length (l_waitingList (locks ?s 7))" "is_host 2 ?s"
    "hostnum ?s = 3" "myhostid ?s = 1" "lock_owner (locks ?s 7) = None"
    by (simp_all add: initsyn_def is_host_def free_lock_def LOCK_NUM_def lock_owner_def)
  with freeLock_spec [of ?s 7 2] show ?thesis by (simp add: Let_def LOCK_NUM_def)
qed

text \<open>C21: No host is starved or passed over: when the owner and then each new owner releases a lock,
  the host at position \<open>i\<close> of the queue owns it after \<open>i + 1\<close> releases, and those behind it keep
  their order.\<close>

theorem locks_served_in_order:
  assumes "managed k s" "lock_owner (locks s k) = Some h" "i < length (lock_queue (locks s k))"
  shows "\<exists>s'. foldl (\<lambda>m g. Option.bind m (\<lambda>t. map_option snd (freeLock (int k) g t))) (Some s)
      (take (Suc i) (h # lock_queue (locks s k))) = Some s' \<and> managed k s' \<and>
    lock_owner (locks s' k) = Some (lock_queue (locks s k) ! i) \<and>
    lock_queue (locks s' k) = drop (Suc i) (lock_queue (locks s k))"
  by (rule lm.served_in_order [OF assms])

theorem locks_served_in_order_witness:
  "\<exists>(s::syn_st) s'. lock_owner (locks s 7) = Some 2 \<and> lock_queue (locks s 7) = [0] \<and>
    Option.bind (Some s) (\<lambda>t. map_option snd (freeLock 7 2 t)) = Some s' \<and>
    lock_owner (locks s' 7) = Some 0"
proof -
  let ?s = "initsyn (syn_globals\<lparr>hostnum := 3, myhostid := 1\<rparr>)"
  have m: "managed 7 ?s" "is_host 2 ?s" "lock_owner (locks ?s 7) = None"
    using initsyn_managed [of "syn_globals\<lparr>hostnum := 3, myhostid := 1\<rparr>" 7]
    by (simp_all add: MAX_HOST_NUM_def LOCK_NUM_def is_host_def initsyn_def)
  have hn: "hostnum ?s = 3" by (simp add: initsyn_def)
  obtain r t where rt: "graspLock 7 2 ?s = Some (r, t)" "managed 7 t" "lock_owner (locks t 7) = Some 2"
    "lock_queue (locks t 7) = []"
    using lm.grasp_idle [OF m] by auto
  then have "hostnum t = 3" using graspLock_idle [OF m] hn by auto
  with rt have t: "managed 7 t" "lock_owner (locks t 7) = Some 2" "lock_queue (locks t 7) = []"
    "hostnum t = 3" by simp_all
  then have "is_host 0 t" by (simp add: is_host_def)
  with lm.grasp_busy [OF t(1) _ t(2), of 0] t obtain u :: syn_st where
    u: "managed 7 u" "lock_owner (locks u 7) = Some 2" "lock_queue (locks u 7) = [0]"
    by auto
  with locks_served_in_order [OF u(1,2), of 0] show ?thesis by fastforce
qed

end
