(* ===== verification/Memory.thy ===== *)
theory Memory
  imports Locks
begin

text \<open>
  The data of the memory module (\<open>src/mem.h\<close>) and its operations on single pages: allocation,
  twins and diffs (\<open>initmem\<close>, \<open>mi_alloc\<close>, \<open>createTwinPage\<close>, \<open>freeTwinPage\<close>, \<open>applyDiff\<close>,
  \<open>createLocalDiff\<close> of \<open>src/mem.c\<close>).

  Intervals and write notices are heap objects that several lists share: \<open>ivals\<close> and \<open>wns\<close> are
  the blocks \<open>malloc\<close> has returned, in order (the source frees neither), and a pointer is an index
  into them or NULL. A twin page and a diff are reached by one pointer only, so the pointer is
  modelled with the block it leads to. \<open>vm\<close> is the mapped part of the shared address range, page
  by page, with the protection of each page.
\<close>

section \<open>Data\<close>

datatype pagestate_t = UNMAP | RDONLY | WRITE | MISS | INVALID

datatype prot_t = PROT_NONE | PROT_READ | PROT_READ_WRITE

record interval_t =
  i_timestamp :: timestamp
  i_notices :: ptr
  i_next :: ptr
  i_prev :: ptr
  i_isBarrier :: int

record writenotice_t =
  w_interval :: ptr
  w_nextInPage :: ptr
  w_nextInInterval :: ptr
  w_diffAddress :: "byte list option"
  w_pageIndex :: int

record page_t =
  p_address :: int
  p_state :: pagestate_t
  p_notices :: "nat \<Rightarrow> ptr"
  p_twinPage :: "byte list option"
  p_startInterval :: ptr

record proc_t =
  pr_hostid :: int
  pr_intervalList :: ptr

record wnPacket_t =
  k_hostid :: int
  k_timestamp :: timestamp
  k_wnCount :: int
  k_wnArray :: "int list"

record mem_st = syn_st +
  pageArray :: "nat \<Rightarrow> page_t"
  procArray :: "nat \<Rightarrow> proc_t"
  intervalNow :: ptr
  fetchPageWaitFlag :: int
  fetchDiffWaitFlag :: int
  fetchWNIWaitFlag :: int
  pagenum :: int
  globalAddress :: int
  barrierTimestamps :: "nat \<Rightarrow> timestamp"
  ivals :: "interval_t list"
  wns :: "writenotice_t list"
  vm :: "int \<Rightarrow> (prot_t \<times> byte list) option"

definition empty_page :: page_t where
  "empty_page = \<lparr>p_address = 0, p_state = UNMAP, p_notices = (\<lambda>_. None), p_twinPage = None,
     p_startInterval = None\<rparr>"

definition empty_interval :: interval_t where
  "empty_interval = \<lparr>i_timestamp = zero_ts, i_notices = None, i_next = None, i_prev = None,
     i_isBarrier = 0\<rparr>"

text \<open>The zero-initialised globals of \<open>mem.c\<close>, an empty heap and nothing mapped.\<close>

definition mem_globals :: mem_st where
  "mem_globals = syn_st.extend syn_globals
     (mem_st.fields (\<lambda>_. empty_page) (\<lambda>_. \<lparr>pr_hostid = 0, pr_intervalList = None\<rparr>) None 0 0 0 0 0
       (\<lambda>_. zero_ts) [] [] Map.empty)"

lemma mem_globals_simps [simp]:
  "pageArray mem_globals = (\<lambda>_. empty_page)" "ivals mem_globals = []" "wns mem_globals = []"
  "vm mem_globals = Map.empty" "hostnum mem_globals = 0" "myhostid mem_globals = 0"
  "isSendingMsg mem_globals = 0" "wire mem_globals = []" "ack_env mem_globals = []"
  by (simp_all add: mem_globals_def syn_globals_def net_globals_def init_globals_def init_st.defs
      net_st.defs syn_st.defs mem_st.defs)

lemma quiet_mem [simp]:
  "quiet (s\<lparr>barrierTimestamps := b\<rparr>) = quiet s" "quiet (s\<lparr>intervalNow := p\<rparr>) = quiet s"
  "quiet (s\<lparr>fetchPageWaitFlag := x\<rparr>) = quiet s" "quiet (s\<lparr>fetchDiffWaitFlag := y\<rparr>) = quiet s"
  "quiet (s\<lparr>fetchWNIWaitFlag := z\<rparr>) = quiet s"
  by (simp_all add: quiet_def snd_ok_def)

section \<open>Heap access\<close>

definition iv_get :: "mem_st \<Rightarrow> ptr \<Rightarrow> interval_t option" where
  "iv_get s p = (case p of None \<Rightarrow> None | Some k \<Rightarrow> if k < length (ivals s) then Some (ivals s ! k) else None)"

definition iv_upd :: "ptr \<Rightarrow> (interval_t \<Rightarrow> interval_t) \<Rightarrow> mem_st \<Rightarrow> mem_st option" where
  "iv_upd p f s = (case p of None \<Rightarrow> None | Some k \<Rightarrow>
     if k < length (ivals s) then Some (s\<lparr>ivals := (ivals s)[k := f (ivals s ! k)]\<rparr>) else None)"

definition wn_get :: "mem_st \<Rightarrow> ptr \<Rightarrow> writenotice_t option" where
  "wn_get s p = (case p of None \<Rightarrow> None | Some k \<Rightarrow> if k < length (wns s) then Some (wns s ! k) else None)"

definition wn_upd :: "ptr \<Rightarrow> (writenotice_t \<Rightarrow> writenotice_t) \<Rightarrow> mem_st \<Rightarrow> mem_st option" where
  "wn_upd p f s = (case p of None \<Rightarrow> None | Some k \<Rightarrow>
     if k < length (wns s) then Some (s\<lparr>wns := (wns s)[k := f (wns s ! k)]\<rparr>) else None)"

text \<open>The three link fields as readings of the heap.\<close>

definition nextI :: "mem_st \<Rightarrow> nat \<Rightarrow> ptr option" where
  "nextI s k = map_option i_next (iv_get s (Some k))"

definition prevI :: "mem_st \<Rightarrow> nat \<Rightarrow> ptr option" where
  "prevI s k = map_option i_prev (iv_get s (Some k))"

definition nextInPage :: "mem_st \<Rightarrow> nat \<Rightarrow> ptr option" where
  "nextInPage s k = map_option w_nextInPage (wn_get s (Some k))"

definition nextInInterval :: "mem_st \<Rightarrow> nat \<Rightarrow> ptr option" where
  "nextInInterval s k = map_option w_nextInInterval (wn_get s (Some k))"

definition page_upd :: "nat \<Rightarrow> (page_t \<Rightarrow> page_t) \<Rightarrow> mem_st \<Rightarrow> mem_st" where
  "page_upd k f s = s\<lparr>pageArray := (pageArray s)(k := f (pageArray s k))\<rparr>"

definition set_intervalList :: "nat \<Rightarrow> ptr \<Rightarrow> mem_st \<Rightarrow> mem_st" where
  "set_intervalList h p s = s\<lparr>procArray := (procArray s)(h := (procArray s h)\<lparr>pr_intervalList := p\<rparr>)\<rparr>"

section \<open>The shared address range\<close>

definition vm_mmap :: "int \<Rightarrow> prot_t \<Rightarrow> mem_st \<Rightarrow> mem_st" where
  "vm_mmap addr prot s = s\<lparr>vm := (vm s)(addr \<mapsto> (prot, replicate PAGESIZE 0))\<rparr>"

text \<open>\<open>mprotect\<close> of an unmapped page fails and changes nothing.\<close>

definition vm_mprotect :: "int \<Rightarrow> prot_t \<Rightarrow> mem_st \<Rightarrow> mem_st" where
  "vm_mprotect addr prot s =
     (case vm s addr of None \<Rightarrow> s | Some (_, bs) \<Rightarrow> s\<lparr>vm := (vm s)(addr \<mapsto> (prot, bs))\<rparr>)"

text \<open>An access of the library itself to a page; a page that is not mapped or protected against
  the access raises SIGSEGV inside the library, which is undefined here.\<close>

definition vm_read :: "int \<Rightarrow> mem_st \<Rightarrow> byte list option" where
  "vm_read addr s =
     (case vm s addr of None \<Rightarrow> None | Some (p, bs) \<Rightarrow> if p = PROT_NONE then None else Some bs)"

definition vm_write :: "int \<Rightarrow> byte list \<Rightarrow> mem_st \<Rightarrow> mem_st option" where
  "vm_write addr bs s =
     (case vm s addr of
        Some (PROT_READ_WRITE, _) \<Rightarrow> Some (s\<lparr>vm := (vm s)(addr \<mapsto> (PROT_READ_WRITE, bs))\<rparr>)
      | _ \<Rightarrow> None)"

text \<open>The block a page pointer leads to, for a function that tests the pointer for NULL.\<close>

definition page_mem :: "page_t \<Rightarrow> mem_st \<Rightarrow> byte list option option" where
  "page_mem p s =
     (if p_address p = 0 then Some None else map_option Some (vm_read (p_address p) s))"

section \<open>Initialisation\<close>

definition initmem :: "mem_st \<Rightarrow> mem_st option" where
  "initmem s =
     (if hostnum s > int MAX_HOST_NUM then None
      else do {
        me \<leftarrow> aidx (myhostid s) MAX_HOST_NUM;
        let s = s\<lparr>pageArray := (\<lambda>k. if k < MAX_PAGE_NUM then empty_page else pageArray s k)\<rparr>;
        let s = s\<lparr>procArray := (\<lambda>h. if h < MAX_HOST_NUM
                    then \<lparr>pr_hostid = (if int h < hostnum s then int h else 0), pr_intervalList = None\<rparr>
                    else procArray s h)\<rparr>;
        let s = s\<lparr>globalAddress := 0, pagenum := 0, fetchPageWaitFlag := 0, fetchDiffWaitFlag := 0,
                  fetchWNIWaitFlag := 0\<rparr>;
        let now = length (ivals s);
        let s = s\<lparr>ivals := ivals s @ [empty_interval\<lparr>i_isBarrier := 1\<rparr>], intervalNow := Some now\<rparr>;
        let s = set_intervalList me (Some now) s;
        Some (s\<lparr>barrierTimestamps := (\<lambda>i. if i < MAX_HOST_NUM then replicate MAX_HOST_NUM (- 1)
                                          else barrierTimestamps s i)\<rparr>) })"

section \<open>Allocation\<close>

function alloc_loop :: "int \<Rightarrow> mem_st \<Rightarrow> mem_st option" where
  "alloc_loop allocesize s =
     (if allocesize > 0 then do {
        k \<leftarrow> aidx (pagenum s) MAX_PAGE_NUM;
        owner \<leftarrow> crem (pagenum s) (hostnum s);
        let addr = int START_ADDRESS + globalAddress s;
        let s = (if owner = myhostid s
                 then page_upd k (\<lambda>p. p\<lparr>p_state := RDONLY\<rparr>) (vm_mmap addr PROT_READ s)
                 else vm_mprotect addr PROT_READ (page_upd k (\<lambda>p. p\<lparr>p_state := MISS\<rparr>) s));
        let s = page_upd k (\<lambda>p. p\<lparr>p_address := addr\<rparr>) s;
        alloc_loop (allocesize - int PAGESIZE)
          (s\<lparr>pagenum := pagenum s + 1, globalAddress := globalAddress s + int PAGESIZE\<rparr>) }
      else Some s)"
  by pat_completeness auto
termination
  by (relation "measure (\<lambda>(n, s). nat n)") auto

declare alloc_loop.simps [simp del]

text \<open>\<open>mi_alloc\<close>; the address 0 is NULL, and the comparison of pointers is unsigned.\<close>

definition alloc_size :: "int \<Rightarrow> int" where
  "alloc_size sz =
     (if sz mod int PAGESIZE = 0 then sz else s32 ((sz div int PAGESIZE + 1) * int PAGESIZE))"

definition mi_alloc :: "int \<Rightarrow> mem_st \<Rightarrow> (int \<times> mem_st) option" where
  "mi_alloc sz s =
     (if sz \<le> 0 then Some (0, s)
      else let rsize = alloc_size sz in
        if (rsize + globalAddress s) mod 2 ^ 64 > int MAX_MEM_SIZE then Some (0, s)
        else do { s \<leftarrow> alloc_loop rsize s;
                  Some (int START_ADDRESS + globalAddress s - rsize, s) })"

section \<open>Twins and diffs\<close>

definition createTwinPage :: "int \<Rightarrow> mem_st \<Rightarrow> (int \<times> mem_st) option" where
  "createTwinPage pageIndex s =
     (if pageIndex < 0 \<or> pageIndex \<ge> int MAX_PAGE_NUM then Some (- 1, s)
      else let k = nat pageIndex; p = pageArray s k in
        if p_state p = UNMAP \<or> p_state p = MISS then Some (- 1, s)
        else if p_address p = 0 \<or> p_twinPage p \<noteq> None then Some (- 1, s)
        else do { bs \<leftarrow> vm_read (p_address p) s;
                  Some (0, page_upd k (\<lambda>p. p\<lparr>p_twinPage := Some bs\<rparr>) s) })"

definition freeTwinPage :: "int \<Rightarrow> mem_st \<Rightarrow> int \<times> mem_st" where
  "freeTwinPage pageIndex s =
     (if pageIndex < 0 \<or> pageIndex \<ge> int MAX_PAGE_NUM then (- 1, s)
      else let k = nat pageIndex; p = pageArray s k in
        if p_state p = UNMAP \<or> p_state p = MISS then (- 1, s)
        else if p_address p = 0 \<or> p_twinPage p = None then (- 1, s)
        else (0, page_upd k (\<lambda>p. p\<lparr>p_twinPage := None\<rparr>) s))"

text \<open>\<open>applyDiff\<close> and \<open>createLocalDiff\<close> on the blocks their pointers lead to (NULL is \<open>None\<close>); the
  bytes are added and subtracted modulo 256.\<close>

definition applyDiff :: "byte list option \<Rightarrow> byte list option \<Rightarrow> int \<times> byte list option" where
  "applyDiff page diff =
     (case (page, diff) of
        (Some ps, Some ds) \<Rightarrow> (0, Some (map2 (+) ps ds))
      | _ \<Rightarrow> (- 1, page))"

definition createLocalDiff :: "byte list option \<Rightarrow> byte list option \<Rightarrow> byte list option" where
  "createLocalDiff page twin =
     (case (page, twin) of
        (Some ps, Some ts) \<Rightarrow> Some (map2 (-) ps ts)
      | _ \<Rightarrow> None)"

end
