(* ===== verification/Intervals.thy ===== *)
theory Intervals
  imports Memory
begin

text \<open>
  Intervals and write notices (\<open>createWriteNotice\<close>, \<open>addNewInterval\<close>, \<open>incorporateWnPacket\<close> and
  \<open>addWNIIntoPacketForHost\<close> of \<open>src/mem.c\<close>), on the pointer structure of the source.
\<close>

section \<open>Local write notices\<close>

definition createWriteNotice :: "int \<Rightarrow> mem_st \<Rightarrow> (int \<times> mem_st) option" where
  "createWriteNotice pageIndex s =
     (if pageIndex < 0 \<or> pageIndex \<ge> int MAX_PAGE_NUM then Some (- 1, s)
      else let k = nat pageIndex in
        if p_state (pageArray s k) \<noteq> RDONLY then Some (- 1, s)
        else do {
          me \<leftarrow> aidx (myhostid s) MAX_HOST_NUM;
          let wn = length (wns s);
          let s = s\<lparr>wns := wns s @ [\<lparr>w_interval = intervalNow s,
                      w_nextInPage = p_notices (pageArray s k) me, w_nextInInterval = None,
                      w_diffAddress = None, w_pageIndex = pageIndex\<rparr>]\<rparr>;
          let s = page_upd k (\<lambda>p. p\<lparr>p_notices := (p_notices p)(me := Some wn)\<rparr>) s;
          now \<leftarrow> iv_get s (intervalNow s);
          (case i_notices now of
             None \<Rightarrow> do { s \<leftarrow> iv_upd (intervalNow s) (\<lambda>i. i\<lparr>i_notices := Some wn\<rparr>) s; Some (0, s) }
           | Some temp \<Rightarrow> do {
               last \<leftarrow> chain_last (nextInInterval s) temp;
               s \<leftarrow> wn_upd (Some last) (\<lambda>w. w\<lparr>w_nextInInterval := Some wn\<rparr>) s;
               Some (0, s) }) })"

section \<open>A new local interval\<close>

text \<open>The first \<open>hostnum\<close> components of a timestamp, copied into a zeroed one.\<close>

definition copy_ts :: "int \<Rightarrow> timestamp \<Rightarrow> timestamp option" where
  "copy_ts hn t =
     (if hn \<le> int (length t) \<and> hn \<le> int MAX_HOST_NUM
      then Some (take (nat hn) t @ replicate (MAX_HOST_NUM - nat hn) 0) else None)"

text \<open>A new interval in front of the list of the host \<open>h\<close>, linked in both directions.\<close>

definition push_interval :: "nat \<Rightarrow> interval_t \<Rightarrow> mem_st \<Rightarrow> (nat \<times> mem_st) option" where
  "push_interval h iv s =
     do { let k = length (ivals s);
          let old = pr_intervalList (procArray s h);
          let s = s\<lparr>ivals := ivals s @ [iv\<lparr>i_next := old\<rparr>]\<rparr>;
          s \<leftarrow> (if old = None then Some s else iv_upd old (\<lambda>i. i\<lparr>i_prev := Some k\<rparr>) s);
          Some (k, set_intervalList h (Some k) s) }"

definition addNewInterval :: "mem_st \<Rightarrow> mem_st option" where
  "addNewInterval s =
     do { let s = disableSigio s;
          me \<leftarrow> aidx (myhostid s) MAX_HOST_NUM;
          last \<leftarrow> iv_get s (pr_intervalList (procArray s me));
          ts \<leftarrow> copy_ts (hostnum s) (i_timestamp last);
          (k, s) \<leftarrow> push_interval me (empty_interval\<lparr>i_timestamp := ts[me := s32 (ts ! me + 1)]\<rparr>) s;
          Some (enableSigio (s\<lparr>intervalNow := Some k\<rparr>)) }"

section \<open>Packets of write notices\<close>

definition empty_packet :: wnPacket_t where
  "empty_packet = \<lparr>k_hostid = - 1, k_timestamp = zero_ts, k_wnCount = 0,
     k_wnArray = replicate MAX_WN_NUM (- 1)\<rparr>"

text \<open>The loop of \<open>addWNIIntoPacketForHost\<close>: the pages of the notices, and the notices left over.\<close>

function fill_packet :: "mem_st \<Rightarrow> ptr \<Rightarrow> wnPacket_t \<Rightarrow> (ptr \<times> wnPacket_t) option" where
  "fill_packet s notices packet =
     (case notices of
        Some w \<Rightarrow>
          (if k_wnCount packet < int MAX_WN_NUM then do {
             i \<leftarrow> aidx (k_wnCount packet) MAX_WN_NUM;
             wn \<leftarrow> wn_get s notices;
             fill_packet s (w_nextInInterval wn)
               (packet\<lparr>k_wnArray := (k_wnArray packet)[i := w_pageIndex wn],
                       k_wnCount := k_wnCount packet + 1\<rparr>) }
           else Some (notices, packet))
      | None \<Rightarrow> Some (notices, packet))"
  by pat_completeness auto
termination
  by (relation "measure (\<lambda>(s, p, packet). nat (int MAX_WN_NUM - k_wnCount packet))")
    (auto dest!: aidx_SomeD)

declare fill_packet.simps [simp del]

text \<open>The result pairs the notices left over (NULL when all fit, and on a parameter error) with the
  packet, which a parameter error leaves as it was.\<close>

definition addWNIIntoPacketForHost ::
    "mem_st \<Rightarrow> wnPacket_t \<Rightarrow> int \<Rightarrow> timestamp option \<Rightarrow> ptr \<Rightarrow> (ptr \<times> wnPacket_t) option" where
  "addWNIIntoPacketForHost s packet hostid ts notices =
     (case ts of None \<Rightarrow> Some (None, packet)
      | Some t \<Rightarrow>
        (if notices = None then Some (None, packet)
         else if hostid < 0 \<or> hostid \<ge> hostnum s then Some (None, packet)
         else fill_packet s notices (empty_packet\<lparr>k_hostid := hostid, k_timestamp := t\<rparr>)))"

section \<open>Incorporating a packet\<close>

text \<open>The effect of a write notice on the state of its page.\<close>

definition invalidate_page :: "nat \<Rightarrow> mem_st \<Rightarrow> mem_st option" where
  "invalidate_page k s =
     (let p = pageArray s k in
      if p_state p = RDONLY then
        Some (vm_mprotect (p_address p) PROT_NONE (page_upd k (\<lambda>p. p\<lparr>p_state := INVALID\<rparr>) s))
      else if p_state p = WRITE then do {
        let s = page_upd k (\<lambda>p. p\<lparr>p_state := INVALID\<rparr>) s;
        me \<leftarrow> aidx (myhostid s) MAX_HOST_NUM;
        page \<leftarrow> page_mem p s;
        s \<leftarrow> wn_upd (p_notices p me)
               (\<lambda>w. w\<lparr>w_diffAddress := createLocalDiff page (p_twinPage p)\<rparr>) s;
        let s = snd (freeTwinPage (int k) s);
        Some (vm_mprotect (p_address p) PROT_NONE s) }
      else Some s)"

text \<open>The loop over the write notices of a packet; \<open>iv\<close> is the interval they belong to and
  \<open>lastwn\<close> the last notice of that interval.\<close>

fun incorporate_notices :: "int list \<Rightarrow> nat \<Rightarrow> nat \<Rightarrow> ptr \<Rightarrow> mem_st \<Rightarrow> mem_st option" where
  "incorporate_notices [] hostid iv lastwn s = Some s"
| "incorporate_notices (pageIndex # pages) hostid iv lastwn s =
     do { interval \<leftarrow> iv_get s (Some iv);
          same \<leftarrow> chain_find (nextInInterval s)
                    (\<lambda>w. map_option (\<lambda>n. w_pageIndex n = pageIndex) (wn_get s (Some w)))
                    (i_notices interval);
          (if same \<noteq> None then incorporate_notices pages hostid iv lastwn s
           else do {
             k \<leftarrow> aidx pageIndex MAX_PAGE_NUM;
             s \<leftarrow> invalidate_page k s;
             let wn = length (wns s);
             let s = s\<lparr>wns := wns s @ [\<lparr>w_interval = Some iv,
                         w_nextInPage = p_notices (pageArray s k) hostid, w_nextInInterval = None,
                         w_diffAddress = None, w_pageIndex = pageIndex\<rparr>]\<rparr>;
             let s = page_upd k (\<lambda>p. p\<lparr>p_notices := (p_notices p)(hostid := Some wn)\<rparr>) s;
             s \<leftarrow> (case lastwn of
                     None \<Rightarrow> iv_upd (Some iv) (\<lambda>i. i\<lparr>i_notices := Some wn\<rparr>) s
                   | Some l \<Rightarrow> wn_upd (Some l) (\<lambda>w. w\<lparr>w_nextInInterval := Some wn\<rparr>) s);
             incorporate_notices pages hostid iv (Some wn) s }) }"

declare incorporate_notices.simps(2) [simp del]

definition incorporateWnPacket :: "wnPacket_t option \<Rightarrow> mem_st \<Rightarrow> (int \<times> mem_st) option" where
  "incorporateWnPacket packet s =
     (case packet of None \<Rightarrow> Some (- 1, s)
      | Some pk \<Rightarrow> do {
          h \<leftarrow> aidx (k_hostid pk) MAX_HOST_NUM;
          found \<leftarrow> chain_find (nextI s)
                     (\<lambda>k. map_option (\<lambda>i. i_timestamp i = k_timestamp pk) (iv_get s (Some k)))
                     (pr_intervalList (procArray s h));
          (iv, lastwn, s) \<leftarrow> (case found of
              Some k \<Rightarrow> do {
                interval \<leftarrow> iv_get s (Some k);
                lastwn \<leftarrow> (case i_notices interval of None \<Rightarrow> Some None
                           | Some w \<Rightarrow> map_option Some (chain_last (nextInInterval s) w));
                Some (k, lastwn, s) }
            | None \<Rightarrow> do {
                (k, s) \<leftarrow> push_interval h (empty_interval\<lparr>i_timestamp := k_timestamp pk\<rparr>) s;
                Some (k, None, s) });
          s \<leftarrow> (if k_wnCount pk \<le> int (length (k_wnArray pk))
                 then incorporate_notices (take (nat (k_wnCount pk)) (k_wnArray pk)) h iv lastwn s
                 else None);
          Some (0, s) })"

end
