(* ===== verification/Links.thy ===== *)
theory Links
  imports Intervals
begin

text \<open>
  The pointer structure of intervals and write notices. \<open>links_ok L W P s\<close> states it with the
  lists it represents: \<open>L h\<close> are the intervals of the host \<open>h\<close> (newest first, linked in both
  directions), \<open>W i\<close> the write notices of the interval \<open>i\<close> (oldest first), \<open>P k h\<close> the write
  notices of the host \<open>h\<close> for the page \<open>k\<close> (newest first). A write notice is on the list of its
  page and host exactly when it is on the list of an interval of that host.
\<close>

section \<open>The invariant\<close>

fun back_ok :: "(nat \<Rightarrow> ptr option) \<Rightarrow> ptr \<Rightarrow> nat list \<Rightarrow> bool" where
  "back_ok pv p [] = True"
| "back_ok pv p (k # ks) = (pv k = Some p \<and> back_ok pv (Some k) ks)"

definition interval_lists :: "(nat \<Rightarrow> nat list) \<Rightarrow> mem_st \<Rightarrow> bool" where
  "interval_lists L s \<longleftrightarrow>
     (\<forall>h<MAX_HOST_NUM. chain (nextI s) (pr_intervalList (procArray s h)) (L h) \<and>
        back_ok (prevI s) None (L h)) \<and>
     (\<forall>h<MAX_HOST_NUM. \<forall>g<MAX_HOST_NUM. h \<noteq> g \<longrightarrow> set (L h) \<inter> set (L g) = {})"

definition notice_lists :: "(nat \<Rightarrow> nat list) \<Rightarrow> mem_st \<Rightarrow> bool" where
  "notice_lists W s \<longleftrightarrow>
     (\<forall>i<length (ivals s). chain (nextInInterval s) (i_notices (ivals s ! i)) (W i) \<and>
        (\<forall>w\<in>set (W i). w_interval (wns s ! w) = Some i))"

definition page_lists ::
    "(nat \<Rightarrow> nat list) \<Rightarrow> (nat \<Rightarrow> nat list) \<Rightarrow> (nat \<Rightarrow> nat \<Rightarrow> nat list) \<Rightarrow> mem_st \<Rightarrow> bool" where
  "page_lists L W P s \<longleftrightarrow>
     (\<forall>k<MAX_PAGE_NUM. \<forall>h<MAX_HOST_NUM.
        chain (nextInPage s) (p_notices (pageArray s k) h) (P k h) \<and>
        set (P k h) = {w. (\<exists>i\<in>set (L h). w \<in> set (W i)) \<and> w_pageIndex (wns s ! w) = int k})"

definition links_ok ::
    "(nat \<Rightarrow> nat list) \<Rightarrow> (nat \<Rightarrow> nat list) \<Rightarrow> (nat \<Rightarrow> nat \<Rightarrow> nat list) \<Rightarrow> mem_st \<Rightarrow> bool" where
  "links_ok L W P s \<longleftrightarrow> interval_lists L s \<and> notice_lists W s \<and> page_lists L W P s"

section \<open>Reading the lists\<close>

lemma nextI_eq: "nextI s k = (if k < length (ivals s) then Some (i_next (ivals s ! k)) else None)"
  by (simp add: nextI_def iv_get_def)

lemma prevI_eq: "prevI s k = (if k < length (ivals s) then Some (i_prev (ivals s ! k)) else None)"
  by (simp add: prevI_def iv_get_def)

lemma nextInPage_eq:
  "nextInPage s k = (if k < length (wns s) then Some (w_nextInPage (wns s ! k)) else None)"
  by (simp add: nextInPage_def wn_get_def)

lemma nextInInterval_eq:
  "nextInInterval s k = (if k < length (wns s) then Some (w_nextInInterval (wns s ! k)) else None)"
  by (simp add: nextInInterval_def wn_get_def)

lemmas link_reads = nextI_eq prevI_eq nextInPage_eq nextInInterval_eq

lemma back_ok_cong: "(\<And>k. k \<in> set ks \<Longrightarrow> pv k = pv' k) \<Longrightarrow> back_ok pv p ks = back_ok pv' p ks"
  by (induction ks arbitrary: p) auto

lemma links_interval_alloc:
  assumes "links_ok L W P s" "h < MAX_HOST_NUM" "i \<in> set (L h)"
  shows "i < length (ivals s)"
proof -
  have "chain (nextI s) (pr_intervalList (procArray s h)) (L h)"
    using assms by (simp add: links_ok_def interval_lists_def)
  then show ?thesis using chain_alloc assms(3) by (fastforce simp: nextI_eq split: if_splits)
qed

lemma links_notice_alloc:
  assumes "links_ok L W P s" "i < length (ivals s)" "w \<in> set (W i)"
  shows "w < length (wns s)" "w_interval (wns s ! w) = Some i"
proof -
  have c: "chain (nextInInterval s) (i_notices (ivals s ! i)) (W i)"
    and "w_interval (wns s ! w) = Some i"
    using assms by (simp_all add: links_ok_def notice_lists_def)
  then show "w_interval (wns s ! w) = Some i" by simp
  show "w < length (wns s)"
    using chain_alloc [OF c assms(3)] by (auto simp: nextInInterval_eq split: if_splits)
qed

lemma links_page_alloc:
  assumes "links_ok L W P s" "k < MAX_PAGE_NUM" "h < MAX_HOST_NUM" "w \<in> set (P k h)"
  shows "w < length (wns s)" "w_pageIndex (wns s ! w) = int k"
    "\<exists>i\<in>set (L h). w_interval (wns s ! w) = Some i \<and> w \<in> set (W i)"
proof -
  have "set (P k h) = {w. (\<exists>i\<in>set (L h). w \<in> set (W i)) \<and> w_pageIndex (wns s ! w) = int k}"
    using assms by (simp add: links_ok_def page_lists_def)
  then obtain i where i: "i \<in> set (L h)" "w \<in> set (W i)" "w_pageIndex (wns s ! w) = int k"
    using assms(4) by auto
  then have "i < length (ivals s)" using links_interval_alloc assms by blast
  with i links_notice_alloc [OF assms(1)] show "w < length (wns s)" "w_pageIndex (wns s ! w) = int k"
    "\<exists>i\<in>set (L h). w_interval (wns s ! w) = Some i \<and> w \<in> set (W i)" by blast+
qed

section \<open>Operations that leave the structure alone\<close>

definition same_links :: "mem_st \<Rightarrow> mem_st \<Rightarrow> bool" where
  "same_links s t \<longleftrightarrow>
     ivals t = ivals s \<and> length (wns t) = length (wns s) \<and>
     (\<forall>w<length (wns s). w_interval (wns t ! w) = w_interval (wns s ! w) \<and>
        w_nextInPage (wns t ! w) = w_nextInPage (wns s ! w) \<and>
        w_nextInInterval (wns t ! w) = w_nextInInterval (wns s ! w) \<and>
        w_pageIndex (wns t ! w) = w_pageIndex (wns s ! w)) \<and>
     (\<forall>h. pr_intervalList (procArray t h) = pr_intervalList (procArray s h)) \<and>
     (\<forall>k. p_notices (pageArray t k) = p_notices (pageArray s k))"

lemma same_links_refl [simp]: "same_links s s"
  by (simp add: same_links_def)

lemma same_links_trans: "same_links s t \<Longrightarrow> same_links t u \<Longrightarrow> same_links s u"
  by (simp add: same_links_def)

lemma same_links_reads:
  assumes "same_links s t"
  shows "nextI t = nextI s" "prevI t = prevI s" "nextInPage t = nextInPage s"
    "nextInInterval t = nextInInterval s"
  using assms by (auto simp: same_links_def link_reads fun_eq_iff)

lemma links_ok_same:
  assumes "same_links s t" "links_ok L W P s"
  shows "links_ok L W P t"
proof -
  note r = same_links_reads [OF assms(1)]
  have I: "interval_lists L t"
    using assms by (simp add: links_ok_def interval_lists_def r same_links_def)
  have N: "notice_lists W t"
    using assms links_notice_alloc [OF assms(2)]
    by (auto simp: links_ok_def notice_lists_def r same_links_def)
  have "w_pageIndex (wns t ! w) = w_pageIndex (wns s ! w)"
    if "h < MAX_HOST_NUM" "i \<in> set (L h)" "w \<in> set (W i)" for h i w
  proof -
    have "w < length (wns s)"
      using links_notice_alloc(1) [OF assms(2) links_interval_alloc [OF assms(2)]] that by blast
    with assms(1) show ?thesis by (simp add: same_links_def)
  qed
  then have "{w. (\<exists>i\<in>set (L h). w \<in> set (W i)) \<and> w_pageIndex (wns t ! w) = int k} =
      {w. (\<exists>i\<in>set (L h). w \<in> set (W i)) \<and> w_pageIndex (wns s ! w) = int k}"
    if "h < MAX_HOST_NUM" for h k
    using that by auto
  then have "page_lists L W P t"
    using assms by (simp add: links_ok_def page_lists_def r same_links_def)
  with I N show ?thesis by (simp add: links_ok_def)
qed

section \<open>A new interval\<close>

lemma push_interval_eq:
  assumes "links_ok L W P s" "h < MAX_HOST_NUM"
  shows "push_interval h iv s = Some (length (ivals s),
    set_intervalList h (Some (length (ivals s))) (s\<lparr>ivals :=
      (case L h of [] \<Rightarrow> ivals s | j # _ \<Rightarrow> (ivals s)[j := (ivals s ! j)\<lparr>i_prev := Some (length (ivals s))\<rparr>])
      @ [iv\<lparr>i_next := pr_intervalList (procArray s h)\<rparr>]\<rparr>))"
proof -
  have c: "chain (nextI s) (pr_intervalList (procArray s h)) (L h)"
    using assms by (simp add: links_ok_def interval_lists_def)
  show ?thesis
  proof (cases "L h")
    case Nil
    with c show ?thesis by (simp add: push_interval_def Let_def)
  next
    case (Cons j js)
    with c have "pr_intervalList (procArray s h) = Some j" by simp
    moreover have "j < length (ivals s)"
      using links_interval_alloc [OF assms(1,2)] Cons by simp
    ultimately show ?thesis
      using Cons by (simp add: push_interval_def iv_upd_def Let_def nth_append list_update_append)
  qed
qed

lemma push_interval_links:
  assumes ok: "links_ok L W P s" and h: "h < MAX_HOST_NUM"
    and iv: "i_notices iv = None" "i_prev iv = None"
    and r: "push_interval h iv s = Some (n, t)"
  shows "links_ok (L(h := n # L h)) (W(n := [])) P t"
proof -
  have n: "n = length (ivals s)" using r ok h by (simp add: push_interval_eq)
  define vs where "vs = (case L h of [] \<Rightarrow> ivals s
    | j # _ \<Rightarrow> (ivals s)[j := (ivals s ! j)\<lparr>i_prev := Some n\<rparr>])"
  have t: "t = set_intervalList h (Some n) (s\<lparr>ivals := vs @
      [iv\<lparr>i_next := pr_intervalList (procArray s h)\<rparr>]\<rparr>)"
    using r n by (auto simp: push_interval_eq [OF ok h] vs_def)
  have vs: "length vs = n" "\<And>k. k < n \<Longrightarrow> i_next (vs ! k) = i_next (ivals s ! k)"
    "\<And>k. k < n \<Longrightarrow> i_notices (vs ! k) = i_notices (ivals s ! k)"
    "\<And>k. k < n \<Longrightarrow> (\<forall>js. L h \<noteq> k # js) \<Longrightarrow> i_prev (vs ! k) = i_prev (ivals s ! k)"
    "\<And>j js. L h = j # js \<Longrightarrow> j < n \<Longrightarrow> i_prev (vs ! j) = Some n"
    by (auto simp: vs_def n nth_update split: list.splits)
  have f: "nextI t = (nextI s)(n := Some (pr_intervalList (procArray s h)))"
    "\<And>k. k \<noteq> n \<Longrightarrow> (\<forall>js. L h \<noteq> k # js) \<Longrightarrow> prevI t k = prevI s k" "prevI t n = Some None"
    "\<And>j js. L h = j # js \<Longrightarrow> j < n \<Longrightarrow> prevI t j = Some (Some n)"
    "nextInPage t = nextInPage s" "nextInInterval t = nextInInterval s" "wns t = wns s"
    "pageArray t = pageArray s" "length (ivals t) = Suc n"
    "\<And>i. i < n \<Longrightarrow> i_notices (ivals t ! i) = i_notices (ivals s ! i)" "i_notices (ivals t ! n) = None"
    "\<And>g. pr_intervalList (procArray t g) = (if g = h then Some n else pr_intervalList (procArray s g))"
    using vs n iv by (auto simp: t set_intervalList_def link_reads nth_append fun_eq_iff less_Suc_eq)
  have lists: "chain (nextI s) (pr_intervalList (procArray s g)) (L g)" "back_ok (prevI s) None (L g)"
    "n \<notin> set (L g)" if "g < MAX_HOST_NUM" for g
    using ok that links_interval_alloc [OF ok that] n
    by (auto simp: links_ok_def interval_lists_def)
  have dis: "set (L g) \<inter> set (L g') = {}" if "g < MAX_HOST_NUM" "g' < MAX_HOST_NUM" "g \<noteq> g'" for g g'
    using ok that by (simp add: links_ok_def interval_lists_def)
  have back_other: "back_ok (prevI t) None (L g)" if g: "g < MAX_HOST_NUM" "g \<noteq> h" for g
  proof -
    have "prevI t k = prevI s k" if "k \<in> set (L g)" for k
      using that dis [of g h] g h lists(3) [of g] by (intro f(2)) auto
    with lists(2) [OF g(1)] show ?thesis using back_ok_cong by metis
  qed
  have back_h: "back_ok (prevI t) (Some n) (L h)"
  proof (cases "L h")
    case (Cons j js)
    have "distinct (L h)" using lists(1) [OF h] chain_distinct by blast
    then have "prevI t k = prevI s k" if "k \<in> set js" for k
      using that Cons lists(3) [OF h] by (intro f(2)) auto
    then have "back_ok (prevI t) (Some j) js = back_ok (prevI s) (Some j) js"
      by (rule back_ok_cong)
    moreover have "prevI t j = Some (Some n)"
      using f(4) [OF Cons] links_interval_alloc [OF ok h] Cons n by simp
    ultimately show ?thesis using Cons lists(2) [OF h] by simp
  qed simp
  have "interval_lists (L(h := n # L h)) t"
    unfolding interval_lists_def
    using lists dis back_other back_h h f(1,3,12)
    by (auto simp: chain_fresh)
  moreover have "notice_lists (W(n := [])) t"
    using ok by (auto simp: links_ok_def notice_lists_def f less_Suc_eq simp flip: n)
  moreover have "page_lists (L(h := n # L h)) (W(n := [])) P t"
  proof -
    have "(\<exists>i\<in>set ((L(h := n # L h)) g). w \<in> set ((W(n := [])) i)) \<longleftrightarrow>
        (\<exists>i\<in>set (L g). w \<in> set (W i))" if "g < MAX_HOST_NUM" for g w
      using lists(3) [OF that] by auto
    then show ?thesis using ok by (simp add: links_ok_def page_lists_def f)
  qed
  ultimately show ?thesis by (simp add: links_ok_def)
qed

section \<open>A new write notice\<close>

text \<open>
  What \<open>createWriteNotice\<close> and \<open>incorporateWnPacket\<close> have in common: a notice of the host \<open>h\<close> for
  the page \<open>k\<close> becomes the last of the interval \<open>i\<close> and the first of the page.
\<close>

definition attach_notice :: "nat \<Rightarrow> nat \<Rightarrow> nat \<Rightarrow> ptr \<Rightarrow> mem_st \<Rightarrow> mem_st" where
  "attach_notice k h i lastp s =
     (let wn = length (wns s);
          new = \<lparr>w_interval = Some i, w_nextInPage = p_notices (pageArray s k) h,
                 w_nextInInterval = None, w_diffAddress = None, w_pageIndex = int k\<rparr>;
          link = page_upd k (\<lambda>p. p\<lparr>p_notices := (p_notices p)(h := Some wn)\<rparr>)
      in case lastp of
           None \<Rightarrow> (link (s\<lparr>wns := wns s @ [new]\<rparr>))\<lparr>ivals :=
                    (ivals s)[i := (ivals s ! i)\<lparr>i_notices := Some wn\<rparr>]\<rparr>
         | Some l \<Rightarrow> (link s)\<lparr>wns := (wns s)[l := (wns s ! l)\<lparr>w_nextInInterval := Some wn\<rparr>] @ [new]\<rparr>)"

definition last_notice :: "nat list \<Rightarrow> ptr" where
  "last_notice ws = (if ws = [] then None else Some (last ws))"

lemma attach_notice_links:
  assumes ok: "links_ok L W P s" and k: "k < MAX_PAGE_NUM" and h: "h < MAX_HOST_NUM"
    and i: "i \<in> set (L h)"
  defines "n \<equiv> length (wns s)" and "t \<equiv> attach_notice k h i (last_notice (W i)) s"
  shows "links_ok L (W(i := W i @ [n])) (P(k := (P k)(h := n # P k h))) t"
proof -
  have il: "i < length (ivals s)" using links_interval_alloc [OF ok h i] .
  have W: "w < n" "w_interval (wns s ! w) = Some j" if "j < length (ivals s)" "w \<in> set (W j)" for j w
    using links_notice_alloc [OF ok that] by (simp_all add: n_def)
  have chW: "chain (nextInInterval s) (i_notices (ivals s ! j)) (W j)" if "j < length (ivals s)" for j
    using ok that by (simp add: links_ok_def notice_lists_def)
  have lastW: "last (W i) < n" "w_interval (wns s ! last (W i)) = Some i" if "W i \<noteq> []"
    using W [OF il last_in_set [OF that]] by auto
  have disW: "last (W i) \<notin> set (W j)" if "j < length (ivals s)" "j \<noteq> i" "W i \<noteq> []" for j
    using W(2) [OF that(1)] lastW(2) [OF that(3)] that(2) by auto
  have f: "nextI t = nextI s" "prevI t = prevI s" "procArray t = procArray s"
    "length (ivals t) = length (ivals s)"
    by (auto simp: t_def attach_notice_def page_upd_def link_reads fun_eq_iff nth_update Let_def
        split: option.splits)
  have g: "nextInPage t = (nextInPage s)(n := Some (p_notices (pageArray s k) h))"
    "length (wns t) = Suc n"
    "\<And>w. w < n \<Longrightarrow> w_interval (wns t ! w) = w_interval (wns s ! w)"
    "\<And>w. w < n \<Longrightarrow> w_pageIndex (wns t ! w) = w_pageIndex (wns s ! w)"
    "w_interval (wns t ! n) = Some i" "w_pageIndex (wns t ! n) = int k"
    "\<And>k' h'. p_notices (pageArray t k') h' =
       (if k' = k \<and> h' = h then Some n else p_notices (pageArray s k') h')"
    by (auto simp: t_def n_def attach_notice_def page_upd_def link_reads fun_eq_iff nth_append
        nth_update less_Suc_eq Let_def split: option.splits)
  have nI: "nextInInterval t = (if W i = [] then (nextInInterval s)(n := Some None)
      else (nextInInterval s)(last (W i) := Some (Some n), n := Some None))"
    using lastW by (auto simp: t_def n_def attach_notice_def last_notice_def page_upd_def link_reads
        fun_eq_iff nth_append nth_update less_Suc_eq Let_def)
  have notice: "i_notices (ivals t ! j) =
      (if j = i \<and> W i = [] then Some n else i_notices (ivals s ! j))" if "j < length (ivals s)" for j
    using that by (auto simp: t_def n_def attach_notice_def last_notice_def page_upd_def nth_update Let_def)
  have fresh: "n \<notin> set (W j)" if "j < length (ivals s)" for j
    using W(1) [OF that] by auto
  have I: "interval_lists L t"
    using ok by (simp add: links_ok_def interval_lists_def f)
  have "chain (nextInInterval t) (i_notices (ivals t ! i)) (W i @ [n])"
  proof (cases "W i = []")
    case True
    then show ?thesis by (simp add: notice [OF il] nI)
  next
    case False
    then show ?thesis
      using chain_snoc [OF chW [OF il] False fresh [OF il]] by (simp add: notice [OF il] nI)
  qed
  moreover have "chain (nextInInterval t) (i_notices (ivals t ! j)) (W j)"
    if "j < length (ivals s)" "j \<noteq> i" for j
  proof -
    have "nextInInterval t w = nextInInterval s w" if "w \<in> set (W j)" for w
      using that disW [OF \<open>j < _\<close> \<open>j \<noteq> i\<close>] fresh [OF \<open>j < _\<close>] by (auto simp: nI)
    then have "chain (nextInInterval t) p (W j) = chain (nextInInterval s) p (W j)" for p
      by (rule chain_cong)
    with chW [OF that(1)] that(2) show ?thesis by (simp add: notice [OF that(1)])
  qed
  ultimately have N: "notice_lists (W(i := W i @ [n])) t"
    using W g(3,5) il by (auto simp: notice_lists_def f)
  have "page_lists L (W(i := W i @ [n])) (P(k := (P k)(h := n # P k h))) t"
    unfolding page_lists_def
  proof (intro allI impI)
    fix k' h' assume k': "k' < MAX_PAGE_NUM" and h': "h' < MAX_HOST_NUM"
    have old: "chain (nextInPage s) (p_notices (pageArray s k') h') (P k' h')"
      "set (P k' h') = {w. (\<exists>j\<in>set (L h'). w \<in> set (W j)) \<and> w_pageIndex (wns s ! w) = int k'}"
      using ok k' h' by (simp_all add: links_ok_def page_lists_def)
    have new: "n \<notin> set (P k' h')"
      using links_page_alloc(1) [OF ok k' h'] by (auto simp: n_def)
    have other: "i \<notin> set (L h')" if "h' \<noteq> h"
      using ok i h h' that by (auto simp: links_ok_def interval_lists_def)
    have pi: "w_pageIndex (wns t ! w) = w_pageIndex (wns s ! w)" if "j \<in> set (L h')" "w \<in> set (W j)" for j w
      using that links_interval_alloc [OF ok h'] W(1) g(4) by blast
    have "(\<exists>j\<in>set (L h'). w \<in> set ((W(i := W i @ [n])) j)) \<longleftrightarrow>
        (\<exists>j\<in>set (L h'). w \<in> set (W j)) \<or> (h' = h \<and> w = n)" for w
    proof -
      have "(\<exists>j\<in>set (L h'). w \<in> set ((W(i := W i @ [n])) j)) \<longleftrightarrow>
          (\<exists>j\<in>set (L h'). w \<in> set (W j) \<or> (j = i \<and> w = n))"
        by (intro bex_cong) auto
      then show ?thesis using i other by auto
    qed
    then have "{w. (\<exists>j\<in>set (L h'). w \<in> set ((W(i := W i @ [n])) j)) \<and> w_pageIndex (wns t ! w) = int k'} =
        set (P k' h') \<union> (if k' = k \<and> h' = h then {n} else {})"
      using pi g(6) by (auto simp: old(2))
    moreover have "chain (nextInPage t) (p_notices (pageArray t k') h')
        ((P(k := (P k)(h := n # P k h))) k' h')"
      using old(1) new by (auto simp: g chain_fresh)
    ultimately show "chain (nextInPage t) (p_notices (pageArray t k') h')
        ((P(k := (P k)(h := n # P k h))) k' h') \<and>
      set ((P(k := (P k)(h := n # P k h))) k' h') =
        {w. (\<exists>j\<in>set (L h'). w \<in> set ((W(i := W i @ [n])) j)) \<and> w_pageIndex (wns t ! w) = int k'}"
      by auto
  qed
  with I N show ?thesis by (simp add: links_ok_def)
qed

end
