(* ===== verification/Pages.thy ===== *)
theory Pages
  imports Links "HOL-Library.Multiset"
begin

text \<open>
  The page state machine: the invariant that ties the state of a page to its protection, its twin
  and the diffs of the local write notices, and the effect of the single-page operations on it.
\<close>

section \<open>The algebra of diffs\<close>

definition add_bytes :: "byte list \<Rightarrow> byte list \<Rightarrow> byte list" where
  "add_bytes xs ys = map2 (+) xs ys"

definition sub_bytes :: "byte list \<Rightarrow> byte list \<Rightarrow> byte list" where
  "sub_bytes xs ys = map2 (-) xs ys"

lemma length_add_bytes [simp]: "length (add_bytes xs ys) = min (length xs) (length ys)"
  by (simp add: add_bytes_def)

lemma length_sub_bytes [simp]: "length (sub_bytes xs ys) = min (length xs) (length ys)"
  by (simp add: sub_bytes_def)

lemma nth_add_bytes [simp]:
  "i < length xs \<Longrightarrow> i < length ys \<Longrightarrow> add_bytes xs ys ! i = xs ! i + ys ! i"
  by (simp add: add_bytes_def)

lemma nth_sub_bytes [simp]:
  "i < length xs \<Longrightarrow> i < length ys \<Longrightarrow> sub_bytes xs ys ! i = xs ! i - ys ! i"
  by (simp add: sub_bytes_def)

lemma applyDiff_eq: "applyDiff (Some ps) (Some ds) = (0, Some (add_bytes ps ds))"
  by (simp add: applyDiff_def add_bytes_def)

lemma createLocalDiff_eq: "createLocalDiff (Some ps) (Some ts) = Some (sub_bytes ps ts)"
  by (simp add: createLocalDiff_def sub_bytes_def)

text \<open>
  The contract between the writer of a page and its readers: applying the diff of two versions to
  the old one gives the new one, and the order of application does not matter.
\<close>

locale diff_scheme =
  fixes ok :: "'b \<Rightarrow> bool"
    and apply_diff :: "'b \<Rightarrow> 'b \<Rightarrow> 'b"
    and make_diff :: "'b \<Rightarrow> 'b \<Rightarrow> 'b"
  assumes apply_ok: "ok p \<Longrightarrow> ok d \<Longrightarrow> ok (apply_diff p d)"
    and make_ok: "ok p \<Longrightarrow> ok t \<Longrightarrow> ok (make_diff p t)"
    and apply_make: "ok p \<Longrightarrow> ok t \<Longrightarrow> apply_diff t (make_diff p t) = p"
    and apply_swap: "ok p \<Longrightarrow> ok d \<Longrightarrow> ok e \<Longrightarrow>
      apply_diff (apply_diff p d) e = apply_diff (apply_diff p e) d"
begin

text \<open>A chain of versions: the diffs between neighbours bring a copy of the first version to the
  last one, in whatever order the diffs arrive.\<close>

fun diffs_of :: "'b \<Rightarrow> 'b list \<Rightarrow> 'b list" where
  "diffs_of v [] = []"
| "diffs_of v (w # ws) = make_diff w v # diffs_of w ws"

lemma diffs_of_ok: "ok v \<Longrightarrow> list_all ok ws \<Longrightarrow> list_all ok (diffs_of v ws)"
  by (induction ws arbitrary: v) (auto intro: make_ok)

lemma apply_in_order: "ok v \<Longrightarrow> list_all ok ws \<Longrightarrow> foldl apply_diff v (diffs_of v ws) = last (v # ws)"
  by (induction ws arbitrary: v) (auto simp: apply_make)

lemma foldl_swap:
  "ok p \<Longrightarrow> ok d \<Longrightarrow> list_all ok ds \<Longrightarrow>
    foldl apply_diff (apply_diff p d) ds = apply_diff (foldl apply_diff p ds) d"
proof (induction ds arbitrary: p)
  case Nil
  then show ?case by simp
next
  case (Cons e es)
  then show ?case by (simp add: apply_swap [of p d e] apply_ok)
qed

lemma apply_any_order:
  "ok p \<Longrightarrow> list_all ok ds \<Longrightarrow> mset es = mset ds \<Longrightarrow> foldl apply_diff p es = foldl apply_diff p ds"
proof (induction ds arbitrary: es p)
  case Nil
  then show ?case by simp
next
  case (Cons d ds)
  then have "d \<in> set es" by (metis list.set_intros(1) set_mset_mset)
  then obtain as bs where es: "es = as @ d # bs" by (auto simp: in_set_conv_decomp)
  have "set (as @ bs) \<subseteq> set (d # ds)"
    using Cons.prems(3) es by (metis add_mset_remove_trivial mset.simps(2) mset_append set_mset_mset
        set_subset_Cons union_mset_add_mset_right)
  then have okab: "list_all ok as" "list_all ok bs"
    using Cons.prems(2) by (auto simp: list_all_iff)
  have okf: "ok (foldl apply_diff p xs)" if "list_all ok xs" for xs
    using that Cons.prems(1) by (induction xs rule: rev_induct) (auto intro: apply_ok)
  have "foldl apply_diff p es = foldl apply_diff (apply_diff (foldl apply_diff p as) d) bs"
    by (simp add: es)
  also have "\<dots> = foldl apply_diff (foldl apply_diff (apply_diff p d) as) bs"
    using foldl_swap [of p d as] Cons.prems okab by simp
  also have "\<dots> = foldl apply_diff (apply_diff p d) (as @ bs)"
    by simp
  also have "\<dots> = foldl apply_diff (apply_diff p d) ds"
    using Cons.prems es by (intro Cons.IH) (auto intro: apply_ok)
  finally show ?case by simp
qed

end

interpretation page_diff: diff_scheme "\<lambda>bs. length bs = n" add_bytes sub_bytes for n
  by unfold_locales (auto intro!: nth_equalityI simp: algebra_simps)

section \<open>The invariant of the memory module\<close>

definition page_addr :: "nat \<Rightarrow> int" where
  "page_addr k = int START_ADDRESS + int k * int PAGESIZE"

lemma page_addr_inj [simp]: "page_addr j = page_addr k \<longleftrightarrow> j = k"
  by (simp add: page_addr_def PAGESIZE_def)

lemma page_addr_nonzero [simp]: "page_addr k \<noteq> 0"
  by (simp add: page_addr_def START_ADDRESS_def PAGESIZE_def)

definition mapped :: "prot_t \<Rightarrow> nat \<Rightarrow> mem_st \<Rightarrow> bool" where
  "mapped prot k s \<longleftrightarrow> (\<exists>bs. vm s (page_addr k) = Some (prot, bs) \<and> length bs = PAGESIZE)"

definition page_bytes :: "mem_st \<Rightarrow> nat \<Rightarrow> byte list option" where
  "page_bytes s k = map_option snd (vm s (page_addr k))"

lemma page_bytes_vm: "vm t = vm s \<Longrightarrow> page_bytes t = page_bytes s"
  by (simp add: page_bytes_def fun_eq_iff)

lemma page_bytes_prot:
  "vm s (page_addr k) = Some (p, bs) \<Longrightarrow> vm t = (vm s)(page_addr k \<mapsto> (p', bs)) \<Longrightarrow> page_bytes t = page_bytes s"
  by (simp add: page_bytes_def fun_eq_iff)

definition has_diff :: "mem_st \<Rightarrow> nat \<Rightarrow> bool" where
  "has_diff s w \<longleftrightarrow> (\<exists>d. w_diffAddress (wns s ! w) = Some d \<and> length d = PAGESIZE)"

definition me :: "mem_st \<Rightarrow> nat" where
  "me s = nat (myhostid s)"

text \<open>
  The state of a page determines its protection, whether it has a twin, and which local write
  notices have their diff: all of them, but for the newest one of a page that is being written.
\<close>

definition page_ok :: "(nat \<Rightarrow> nat \<Rightarrow> nat list) \<Rightarrow> mem_st \<Rightarrow> nat \<Rightarrow> bool" where
  "page_ok P s k \<longleftrightarrow>
     (let p = pageArray s k; own = P k (me s) in
      case p_state p of
        UNMAP \<Rightarrow> p_address p = 0 \<and> p_twinPage p = None \<and> own = []
      | MISS \<Rightarrow> p_address p = page_addr k \<and> p_twinPage p = None \<and> own = []
      | RDONLY \<Rightarrow> p_address p = page_addr k \<and> p_twinPage p = None \<and> mapped PROT_READ k s \<and>
          list_all (has_diff s) own
      | INVALID \<Rightarrow> p_address p = page_addr k \<and> p_twinPage p = None \<and> mapped PROT_NONE k s \<and>
          list_all (has_diff s) own
      | WRITE \<Rightarrow> p_address p = page_addr k \<and>
          (\<exists>ts. p_twinPage p = Some ts \<and> length ts = PAGESIZE) \<and> mapped PROT_READ_WRITE k s \<and>
          own \<noteq> [] \<and> w_diffAddress (wns s ! hd own) = None \<and> list_all (has_diff s) (tl own))"

definition host_ok :: "mem_st \<Rightarrow> bool" where
  "host_ok s \<longleftrightarrow> 0 \<le> myhostid s \<and> myhostid s < hostnum s \<and> hostnum s \<le> int MAX_HOST_NUM"

definition ts_ok :: "timestamp \<Rightarrow> bool" where
  "ts_ok t \<longleftrightarrow> length t = MAX_HOST_NUM \<and> list_all in32 t"

definition mem_ok ::
    "(nat \<Rightarrow> nat list) \<Rightarrow> (nat \<Rightarrow> nat list) \<Rightarrow> (nat \<Rightarrow> nat \<Rightarrow> nat list) \<Rightarrow> mem_st \<Rightarrow> bool" where
  "mem_ok L W P s \<longleftrightarrow> host_ok s \<and> links_ok L W P s \<and> (\<forall>k<MAX_PAGE_NUM. page_ok P s k) \<and>
     (\<forall>iv\<in>set (ivals s). ts_ok (i_timestamp iv)) \<and>
     (\<exists>i\<in>set (L (me s)). intervalNow s = Some i)"

lemma host_ok_me:
  assumes "host_ok s"
  shows "me s < MAX_HOST_NUM" "aidx (myhostid s) MAX_HOST_NUM = Some (me s)" "int (me s) = myhostid s"
  using assms by (auto simp: host_ok_def me_def aidx_def)

lemma mem_ok_simps:
  assumes "mem_ok L W P s"
  shows "host_ok s" "links_ok L W P s" "k < MAX_PAGE_NUM \<Longrightarrow> page_ok P s k"
  using assms by (simp_all add: mem_ok_def)

lemma links_chain_page:
  assumes "links_ok L W P s" "k < MAX_PAGE_NUM" "h < MAX_HOST_NUM"
  shows "chain (nextInPage s) (p_notices (pageArray s k) h) (P k h)"
  using assms by (simp add: links_ok_def page_lists_def)

lemma links_chain_notices:
  assumes "links_ok L W P s" "i < length (ivals s)"
  shows "chain (nextInInterval s) (i_notices (ivals s ! i)) (W i)"
  using assms by (simp add: links_ok_def notice_lists_def)

lemma links_chain_intervals:
  assumes "links_ok L W P s" "h < MAX_HOST_NUM"
  shows "chain (nextI s) (pr_intervalList (procArray s h)) (L h)"
  using assms by (simp add: links_ok_def interval_lists_def)

text \<open>Two states that agree on a page and on the local notices agree on its invariant.\<close>

lemma page_ok_cong:
  assumes "pageArray t k = pageArray s k \<or> (p_state (pageArray t k) = p_state (pageArray s k) \<and>
      p_address (pageArray t k) = p_address (pageArray s k) \<and>
      p_twinPage (pageArray t k) = p_twinPage (pageArray s k))"
    and "me t = me s" "vm t (page_addr k) = vm s (page_addr k)" "P' k (me s) = P k (me s)"
    and "\<And>w. w \<in> set (P k (me s)) \<Longrightarrow> w_diffAddress (wns t ! w) = w_diffAddress (wns s ! w)"
  shows "page_ok P' t k = page_ok P s k"
proof -
  have d: "has_diff t w = has_diff s w" if "w \<in> set (P k (me s))" for w
    using assms(5) [OF that] by (simp add: has_diff_def)
  have l: "list_all (has_diff t) (P k (me s)) = list_all (has_diff s) (P k (me s))"
    "list_all (has_diff t) (tl (P k (me s))) = list_all (has_diff s) (tl (P k (me s)))"
    using d list.set_sel(2) [of "P k (me s)"] by (cases "P k (me s)"; auto simp: list_all_iff)+
  have h: "P k (me s) \<noteq> [] \<Longrightarrow> w_diffAddress (wns t ! hd (P k (me s))) = w_diffAddress (wns s ! hd (P k (me s)))"
    using assms(5) by simp
  have f: "p_state (pageArray t k) = p_state (pageArray s k)"
    "p_address (pageArray t k) = p_address (pageArray s k)"
    "p_twinPage (pageArray t k) = p_twinPage (pageArray s k)"
    using assms(1) by auto
  show ?thesis
    unfolding page_ok_def Let_def mapped_def f assms(2-4) l
    using h by (cases "p_state (pageArray s k)"; cases "P k (me s) = []") simp_all
qed

section \<open>Losing a page to a remote write notice\<close>

lemma page_own_disjoint:
  assumes "links_ok L W P s" "j < MAX_PAGE_NUM" "k < MAX_PAGE_NUM" "h < MAX_HOST_NUM"
    "w \<in> set (P j h)" "w \<in> set (P k h)"
  shows "j = k"
  using links_page_alloc(2) [OF assms(1,2,4,5)] links_page_alloc(2) [OF assms(1,3,4,6)] by simp

lemma vm_mprotect_vm:
  "vm (vm_mprotect addr prot s) =
     (case vm s addr of None \<Rightarrow> vm s | Some (_, bs) \<Rightarrow> (vm s)(addr \<mapsto> (prot, bs)))"
  by (simp add: vm_mprotect_def split: option.splits prod.splits)

lemma vm_mprotect_frame [simp]:
  "pageArray (vm_mprotect addr prot s) = pageArray s" "wns (vm_mprotect addr prot s) = wns s"
  "ivals (vm_mprotect addr prot s) = ivals s" "procArray (vm_mprotect addr prot s) = procArray s"
  "hostnum (vm_mprotect addr prot s) = hostnum s" "myhostid (vm_mprotect addr prot s) = myhostid s"
  "intervalNow (vm_mprotect addr prot s) = intervalNow s" "me (vm_mprotect addr prot s) = me s"
  by (simp_all add: vm_mprotect_def me_def split: option.splits prod.splits)

definition pages_frame :: "nat \<Rightarrow> mem_st \<Rightarrow> mem_st \<Rightarrow> bool" where
  "pages_frame k s t \<longleftrightarrow> (\<forall>j. j \<noteq> k \<longrightarrow> pageArray t j = pageArray s j \<and>
       vm t (page_addr j) = vm s (page_addr j)) \<and> p_address (pageArray t k) = p_address (pageArray s k) \<and>
     hostnum t = hostnum s \<and> myhostid t = myhostid s \<and> intervalNow t = intervalNow s"

lemma pages_frame_refl [simp]: "pages_frame k s s"
  by (simp add: pages_frame_def)

lemma pages_frame_me: "pages_frame k s t \<Longrightarrow> me t = me s"
  by (simp add: pages_frame_def me_def)

lemma mem_ok_frame_own:
  assumes ok: "mem_ok L W P s" and k: "k < MAX_PAGE_NUM" and links: "same_links s t"
    and frame: "pages_frame k s t" and pk: "page_ok P t k"
    and diffs: "\<And>j w. j < MAX_PAGE_NUM \<Longrightarrow> j \<noteq> k \<Longrightarrow> w \<in> set (P j (me s)) \<Longrightarrow>
      w_diffAddress (wns t ! w) = w_diffAddress (wns s ! w)"
  shows "mem_ok L W P t"
proof -
  have m: "me t = me s" using frame by (rule pages_frame_me)
  have h: "host_ok s" "me s < MAX_HOST_NUM" using ok host_ok_me by (auto simp: mem_ok_def)
  have "page_ok P t j" if j: "j < MAX_PAGE_NUM" "j \<noteq> k" for j
  proof -
    have "page_ok P t j = page_ok P s j"
    proof (rule page_ok_cong)
      show "pageArray t j = pageArray s j \<or> (p_state (pageArray t j) = p_state (pageArray s j) \<and>
          p_address (pageArray t j) = p_address (pageArray s j) \<and>
          p_twinPage (pageArray t j) = p_twinPage (pageArray s j))"
        using frame j by (simp add: pages_frame_def)
      show "vm t (page_addr j) = vm s (page_addr j)"
        using frame j by (simp add: pages_frame_def)
      show "w_diffAddress (wns t ! w) = w_diffAddress (wns s ! w)" if "w \<in> set (P j (me s))" for w
        using diffs [OF j that] .
    qed (use m in simp_all)
    with ok j show ?thesis by (simp add: mem_ok_def)
  qed
  then have "\<forall>j<MAX_PAGE_NUM. page_ok P t j" using pk by metis
  moreover have "host_ok t" using h frame by (simp add: host_ok_def pages_frame_def)
  moreover have "links_ok L W P t" using links_ok_same [OF links] ok by (simp add: mem_ok_def)
  ultimately show ?thesis
    using ok links frame m by (simp add: mem_ok_def same_links_def pages_frame_def)
qed

lemma mem_ok_frame:
  assumes ok: "mem_ok L W P s" and k: "k < MAX_PAGE_NUM" and links: "same_links s t"
    and frame: "pages_frame k s t" and pk: "page_ok P t k"
    and diffs: "\<And>w. w \<notin> set (P k (me s)) \<Longrightarrow> w_diffAddress (wns t ! w) = w_diffAddress (wns s ! w)"
  shows "mem_ok L W P t"
proof (rule mem_ok_frame_own [OF ok k links frame pk])
  fix j w assume j: "j < MAX_PAGE_NUM" "j \<noteq> k" "w \<in> set (P j (me s))"
  have "me s < MAX_HOST_NUM" using ok host_ok_me by (auto simp: mem_ok_def)
  with page_own_disjoint [OF mem_ok_simps(2) [OF ok] j(1) k _ j(3)] j(2)
  show "w_diffAddress (wns t ! w) = w_diffAddress (wns s ! w)" by (intro diffs) auto
qed

lemma invalidate_write:
  assumes ok: "mem_ok L W P s" and k: "k < MAX_PAGE_NUM" and st: "p_state (pageArray s k) = WRITE"
  shows "\<exists>t bs ts w ws. invalidate_page k s = Some t \<and> P k (me s) = w # ws \<and>
    p_notices (pageArray s k) (me s) = Some w \<and> w < length (wns s) \<and> list_all (has_diff s) ws \<and>
    vm s (page_addr k) = Some (PROT_READ_WRITE, bs) \<and> length bs = PAGESIZE \<and>
    p_twinPage (pageArray s k) = Some ts \<and> length ts = PAGESIZE \<and>
    p_address (pageArray s k) = page_addr k \<and>
    t = s\<lparr>pageArray := (pageArray s)(k := (pageArray s k)\<lparr>p_state := INVALID, p_twinPage := None\<rparr>),
          wns := (wns s)[w := (wns s ! w)\<lparr>w_diffAddress := Some (sub_bytes bs ts)\<rparr>],
          vm := (vm s)(page_addr k \<mapsto> (PROT_NONE, bs))\<rparr>"
proof -
  have pk: "page_ok P s k" using mem_ok_simps(3) [OF ok k] .
  have h: "host_ok s" "me s < MAX_HOST_NUM" "aidx (myhostid s) MAX_HOST_NUM = Some (me s)"
    using ok host_ok_me by (auto simp: mem_ok_def)
  let ?p = "pageArray s k"
  obtain bs ts w ws where bs: "vm s (page_addr k) = Some (PROT_READ_WRITE, bs)" "length bs = PAGESIZE"
    "p_address ?p = page_addr k" "p_twinPage ?p = Some ts" "length ts = PAGESIZE"
    "P k (me s) = w # ws" "list_all (has_diff s) ws"
    using pk st by (cases "P k (me s)") (auto simp: page_ok_def mapped_def Let_def)
  have ch: "chain (nextInPage s) (p_notices ?p (me s)) (w # ws)"
    using links_chain_page [OF mem_ok_simps(2) [OF ok] k h(2)] bs by simp
  then have w: "p_notices ?p (me s) = Some w" "w < length (wns s)"
    using links_page_alloc(1) [OF mem_ok_simps(2) [OF ok] k h(2)] bs by auto
  have "invalidate_page k s = Some (s\<lparr>
      pageArray := (pageArray s)(k := ?p\<lparr>p_state := INVALID, p_twinPage := None\<rparr>),
      wns := (wns s)[w := (wns s ! w)\<lparr>w_diffAddress := Some (sub_bytes bs ts)\<rparr>],
      vm := (vm s)(page_addr k \<mapsto> (PROT_NONE, bs))\<rparr>)"
    using st bs h(3) w k
    by (simp add: invalidate_page_def vm_mprotect_def page_upd_def wn_upd_def page_mem_def vm_read_def
        createLocalDiff_eq freeTwinPage_def Let_def)
  with bs w show ?thesis by blast
qed

lemma invalidate_page_ok:
  assumes ok: "mem_ok L W P s" and k: "k < MAX_PAGE_NUM"
  shows "\<exists>t. invalidate_page k s = Some t \<and> mem_ok L W P t \<and> same_links s t \<and> pages_frame k s t \<and>
    p_state (pageArray t k) = (if p_state (pageArray s k) \<in> {RDONLY, WRITE} then INVALID
      else p_state (pageArray s k)) \<and> page_bytes t = page_bytes s"
proof -
  have pk: "page_ok P s k" using mem_ok_simps(3) [OF ok k] .
  have h: "host_ok s" "me s < MAX_HOST_NUM" "aidx (myhostid s) MAX_HOST_NUM = Some (me s)"
    using ok host_ok_me by (auto simp: mem_ok_def)
  let ?p = "pageArray s k"
  show ?thesis
  proof (cases "p_state ?p")
    case RDONLY
    then obtain bs where bs: "vm s (page_addr k) = Some (PROT_READ, bs)" "length bs = PAGESIZE"
      "p_address ?p = page_addr k" "p_twinPage ?p = None" "list_all (has_diff s) (P k (me s))"
      using pk by (auto simp: page_ok_def mapped_def Let_def)
    define t where "t = vm_mprotect (page_addr k) PROT_NONE (page_upd k (\<lambda>p. p\<lparr>p_state := INVALID\<rparr>) s)"
    have e: "invalidate_page k s = Some t"
      using RDONLY bs by (simp add: invalidate_page_def t_def)
    have t: "pageArray t = (pageArray s)(k := ?p\<lparr>p_state := INVALID\<rparr>)" "wns t = wns s" "ivals t = ivals s"
      "procArray t = procArray s" "vm t = (vm s)(page_addr k \<mapsto> (PROT_NONE, bs))" "me t = me s"
      "pages_frame k s t"
      using bs by (auto simp: t_def page_upd_def vm_mprotect_vm me_def pages_frame_def)
    have "same_links s t" by (simp add: same_links_def t)
    moreover have "has_diff t = has_diff s" by (simp add: fun_eq_iff has_diff_def t)
    then have "page_ok P t k" using bs by (simp add: page_ok_def mapped_def t)
    ultimately have "mem_ok L W P t"
      using mem_ok_frame [OF ok k] t by simp
    with e t \<open>same_links s t\<close> RDONLY page_bytes_prot [OF bs(1) t(5)] show ?thesis by auto
  next
    case WRITE
    then obtain t bs ts w ws where e: "invalidate_page k s = Some t" and bs:
      "vm s (page_addr k) = Some (PROT_READ_WRITE, bs)" "length bs = PAGESIZE"
      "p_address ?p = page_addr k" "p_twinPage ?p = Some ts" "length ts = PAGESIZE"
      "P k (me s) = w # ws" "list_all (has_diff s) ws" and w: "w < length (wns s)" and
      t_def: "t = s\<lparr>pageArray := (pageArray s)(k := ?p\<lparr>p_state := INVALID, p_twinPage := None\<rparr>),
        wns := (wns s)[w := (wns s ! w)\<lparr>w_diffAddress := Some (sub_bytes bs ts)\<rparr>],
        vm := (vm s)(page_addr k \<mapsto> (PROT_NONE, bs))\<rparr>"
      using invalidate_write [OF ok k] by blast
    have t: "pageArray t = (pageArray s)(k := ?p\<lparr>p_state := INVALID, p_twinPage := None\<rparr>)"
      "wns t = (wns s)[w := (wns s ! w)\<lparr>w_diffAddress := Some (sub_bytes bs ts)\<rparr>]" "ivals t = ivals s"
      "procArray t = procArray s" "vm t = (vm s)(page_addr k \<mapsto> (PROT_NONE, bs))" "me t = me s"
      "pages_frame k s t"
      using bs by (auto simp: t_def vm_mprotect_vm me_def pages_frame_def)
    have sl: "same_links s t" by (auto simp: same_links_def t nth_update)
    have d: "has_diff t v" if "v \<in> set (w # ws)" for v
      using that bs(2,5,7) w by (auto simp: has_diff_def t nth_list_update list_all_iff)
    then have "page_ok P t k"
      using bs by (simp add: page_ok_def mapped_def t list_all_iff)
    moreover have "w_diffAddress (wns t ! v) = w_diffAddress (wns s ! v)" if "v \<notin> set (P k (me s))" for v
      using that bs(6) by (simp add: t)
    ultimately have "mem_ok L W P t"
      using mem_ok_frame [OF ok k sl] t by simp
    with e t sl WRITE page_bytes_prot [OF bs(1) t(5)] show ?thesis by auto
  qed (use ok in \<open>auto simp: invalidate_page_def Let_def\<close>)
qed

section \<open>Properties\<close>

text \<open>The page after \<open>applyDiff\<close>, for pages that are mapped.\<close>

definition patch :: "byte list \<Rightarrow> byte list \<Rightarrow> byte list" where
  "patch page diff = the (snd (applyDiff (Some page) (Some diff)))"

definition diff_of :: "byte list \<Rightarrow> byte list \<Rightarrow> byte list" where
  "diff_of page twin = the (createLocalDiff (Some page) (Some twin))"

lemma patch_eq: "patch = add_bytes"
  by (simp add: fun_eq_iff patch_def applyDiff_eq)

lemma diff_of_eq: "diff_of = sub_bytes"
  by (simp add: fun_eq_iff diff_of_def createLocalDiff_eq)

text \<open>C27: The diff of a page against its twin, applied to a page that has the content of the twin,
  gives the written page; with a NULL page, twin or diff nothing is computed and nothing is changed.\<close>

theorem diff_roundtrip:
  assumes "length page = n" "length twin = n"
  shows "(\<exists>d. createLocalDiff (Some page) (Some twin) = Some d \<and> length d = n \<and>
      applyDiff (Some twin) (Some d) = (0, Some page)) \<and>
    createLocalDiff None (Some twin) = None \<and> createLocalDiff (Some page) None = None \<and>
    applyDiff (Some page) None = (- 1, Some page) \<and> applyDiff None (Some twin) = (- 1, None)"
  using page_diff.apply_make [of page n twin] assms
  by (simp add: createLocalDiff_eq applyDiff_eq) (simp add: createLocalDiff_def applyDiff_def)

theorem diff_roundtrip_witness:
  "\<exists>d. createLocalDiff (Some [5, 0, 7]) (Some [250, 0, 9]) = Some d \<and>
    applyDiff (Some [250, 0, 9]) (Some d) = (0, Some [5, 0, 7])"
  using diff_roundtrip [of "[5, 0, 7]" 3 "[250, 0, 9]"] by auto

text \<open>C28: The diffs between the consecutive versions of a page bring a copy of the first version to
  the last one, in whatever order they are applied.\<close>

theorem diffs_in_any_order:
  assumes "length v = n" "\<forall>w \<in> set vs. length w = n"
    and "mset ds = mset (map2 diff_of vs (v # vs))"
  shows "foldl patch v ds = last (v # vs)"
proof -
  have "page_diff.diffs_of v vs = map2 diff_of vs (v # vs)"
    by (induction vs arbitrary: v) (simp_all add: diff_of_eq)
  with page_diff.apply_any_order [of v n "page_diff.diffs_of v vs" ds]
    page_diff.apply_in_order [of v n vs] page_diff.diffs_of_ok [of v n vs] assms
  show ?thesis by (simp add: patch_eq list_all_iff)
qed

theorem diffs_in_any_order_witness:
  "foldl patch [1, 1] [diff_of [9, 200] [3, 200], diff_of [3, 200] [1, 1]] = [9, 200]"
  using diffs_in_any_order [of "[1, 1]" 2 "[[3, 200], [9, 200]]"
      "[diff_of [9, 200] [3, 200], diff_of [3, 200] [1, 1]]"]
  by simp

text \<open>C29: Writers that start from the same version and change different bytes are merged: applying
  both diffs to the common version keeps the bytes of each of them.\<close>

theorem concurrent_writes_merge:
  assumes "length base = n" "length x = n" "length y = n"
    and "\<forall>i<n. x ! i = base ! i \<or> y ! i = base ! i"
  shows "patch (patch base (diff_of x base)) (diff_of y base) =
    map (\<lambda>i. if x ! i = base ! i then y ! i else x ! i) [0..<n]"
  using assms by (intro nth_equalityI) (auto simp: patch_eq diff_of_eq)

theorem concurrent_writes_merge_witness:
  "patch (patch [1, 2, 3] (diff_of [7, 2, 3] [1, 2, 3])) (diff_of [1, 2, 0] [1, 2, 3]) = [7, 2, 0]"
proof -
  have "\<forall>i<3. ([7, 2, 3] :: byte list) ! i = [1, 2, 3] ! i \<or> ([1, 2, 0] :: byte list) ! i = [1, 2, 3] ! i"
    by (simp add: numeral_3_eq_3 All_less_Suc)
  from concurrent_writes_merge [OF _ _ _ this] show ?thesis by (simp add: upt_rec numeral_3_eq_3)
qed

end
