(* ===== verification/Alloc.thy ===== *)
theory Alloc
  imports Pages
begin

text \<open>
  Start and growth of the shared memory: \<open>initmem\<close> establishes the invariant of the memory module,
  and \<open>mi_alloc\<close> keeps it, handing out consecutive zeroed pages that are distributed over the
  hosts (\<open>src/mem.c\<close>).
\<close>

section \<open>The initial state\<close>

definition first_lists :: "mem_st \<Rightarrow> nat \<Rightarrow> nat list" where
  "first_lists s h = (if h = me s then [0] else [])"

definition alloc_ok :: "mem_st \<Rightarrow> bool" where
  "alloc_ok s \<longleftrightarrow> 0 \<le> pagenum s \<and> pagenum s \<le> int MAX_PAGE_NUM \<and>
     globalAddress s = pagenum s * int PAGESIZE \<and>
     (\<forall>k<MAX_PAGE_NUM. p_state (pageArray s k) = UNMAP \<longleftrightarrow> pagenum s \<le> int k)"

lemma ts_ok_zero [simp]: "ts_ok zero_ts"
  by (simp add: ts_ok_def zero_ts_def list_all_iff in32_def)

lemma initmem_ok:
  assumes "host_ok s" "ivals s = []" "wns s = []"
  shows "\<exists>t. initmem s = Some t \<and> mem_ok (first_lists s) (\<lambda>_. []) (\<lambda>_ _. []) t \<and> alloc_ok t \<and>
    ivals t = [empty_interval\<lparr>i_isBarrier := 1\<rparr>] \<and> wns t = [] \<and> hostnum t = hostnum s \<and>
    myhostid t = myhostid s \<and> vm t = vm s \<and> intervalNow t = Some 0 \<and>
    pr_intervalList (procArray t (me s)) = Some 0 \<and> pagenum t = 0 \<and> locks t = locks s \<and>
    quiet t = quiet s \<and> wire t = wire s"
proof -
  note me = host_ok_me [OF assms(1)]
  have hn: "\<not> hostnum s > int MAX_HOST_NUM" using assms(1) by (simp add: host_ok_def)
  obtain t where t: "initmem s = Some t" "\<And>k. k < MAX_PAGE_NUM \<Longrightarrow> pageArray t k = empty_page"
    "\<And>h. h < MAX_HOST_NUM \<Longrightarrow> pr_intervalList (procArray t h) = (if h = me s then Some 0 else None)"
    "ivals t = [empty_interval\<lparr>i_isBarrier := 1\<rparr>]" "wns t = []" "hostnum t = hostnum s"
    "myhostid t = myhostid s" "intervalNow t = Some 0" "pagenum t = 0" "globalAddress t = 0" "vm t = vm s"
    "locks t = locks s" "quiet t = quiet s" "wire t = wire s"
    using hn me assms(2,3) by (simp add: initmem_def Let_def set_intervalList_def quiet_def snd_ok_def)
  have m: "me t = me s" using t by (simp add: me_def)
  have "links_ok (first_lists s) (\<lambda>_. []) (\<lambda>_ _. []) t"
    by (auto simp: links_ok_def interval_lists_def notice_lists_def page_lists_def t first_lists_def
        link_reads empty_page_def empty_interval_def)
  moreover have "page_ok (\<lambda>_ _. []) t k" if "k < MAX_PAGE_NUM" for k
    using t(2) [OF that] by (simp add: page_ok_def empty_page_def)
  ultimately have "mem_ok (first_lists s) (\<lambda>_. []) (\<lambda>_ _. []) t"
    using assms(1) t m by (simp add: mem_ok_def host_ok_def first_lists_def empty_interval_def)
  moreover have "alloc_ok t"
    using t by (simp add: alloc_ok_def empty_page_def)
  ultimately show ?thesis using t me by auto
qed

section \<open>Allocation\<close>

text \<open>The page array and the mapping after the next \<open>n\<close> pages have been handed out.\<close>

definition new_page :: "mem_st \<Rightarrow> nat \<Rightarrow> page_t" where
  "new_page s k = (pageArray s k)\<lparr>
     p_state := (if int k mod hostnum s = myhostid s then RDONLY else MISS),
     p_address := page_addr k\<rparr>"

definition allocated :: "nat \<Rightarrow> mem_st \<Rightarrow> mem_st \<Rightarrow> bool" where
  "allocated n s t \<longleftrightarrow> (\<exists>f v. t = s\<lparr>pageArray := f, vm := v, pagenum := pagenum s + int n,
       globalAddress := globalAddress s + int n * int PAGESIZE\<rparr> \<and>
     (\<forall>k. if pagenum s \<le> int k \<and> int k < pagenum s + int n
          then f k = new_page s k \<and> (int k mod hostnum s = myhostid s \<longrightarrow>
            v (page_addr k) = Some (PROT_READ, replicate PAGESIZE 0))
          else f k = pageArray s k \<and> v (page_addr k) = vm s (page_addr k)))"

lemma alloc_step:
  assumes "alloc_ok s" "host_ok s" "pagenum s < int MAX_PAGE_NUM" "0 < n"
  shows "\<exists>t. alloc_loop n s = alloc_loop (n - int PAGESIZE) t \<and> allocated 1 s t"
proof -
  define k where "k = nat (pagenum s)"
  have k: "pagenum s = int k" "k < MAX_PAGE_NUM" "globalAddress s = int k * int PAGESIZE"
    using assms by (auto simp: alloc_ok_def k_def)
  have c: "crem (int k) (hostnum s) = Some (int k mod hostnum s)"
    using assms(2) by (intro crem_nonneg) (auto simp: host_ok_def)
  have a: "int START_ADDRESS + globalAddress s = page_addr k" by (simp add: k(3) page_addr_def)
  let ?own = "int k mod hostnum s = myhostid s"
  define u where "u = page_upd k (\<lambda>p. p\<lparr>p_address := page_addr k\<rparr>)
    (if ?own then page_upd k (\<lambda>p. p\<lparr>p_state := RDONLY\<rparr>) (vm_mmap (page_addr k) PROT_READ s)
     else vm_mprotect (page_addr k) PROT_READ (page_upd k (\<lambda>p. p\<lparr>p_state := MISS\<rparr>) s))"
  define t where "t = u\<lparr>pagenum := pagenum u + 1, globalAddress := globalAddress u + int PAGESIZE\<rparr>"
  have e: "alloc_loop n s = alloc_loop (n - int PAGESIZE) t"
    using assms(4) k(1,2) by (subst alloc_loop.simps) (simp add: c a t_def u_def Let_def)
  have u: "\<exists>v. u = s\<lparr>pageArray := (pageArray s)(k := new_page s k), vm := v\<rparr> \<and>
      (\<forall>j. j \<noteq> k \<longrightarrow> v (page_addr j) = vm s (page_addr j)) \<and>
      (?own \<longrightarrow> v (page_addr k) = Some (PROT_READ, replicate PAGESIZE 0))"
    by (rule exI [of _ "vm u"])
      (auto simp: u_def page_upd_def vm_mmap_def vm_mprotect_def new_page_def split: option.splits)
  then have "allocated 1 s t"
    unfolding allocated_def t_def using k(1)
    by (auto intro!: exI [of _ "(pageArray s)(k := new_page s k)"])
  with e show ?thesis by blast
qed

lemma allocated_0: "allocated 0 s s"
  by (auto simp: allocated_def intro!: exI [of _ "pageArray s"] exI [of _ "vm s"])

lemma allocated_trans:
  assumes "allocated m s t" "allocated n t u"
  shows "allocated (m + n) s u"
proof -
  obtain f v where t: "t = s\<lparr>pageArray := f, vm := v, pagenum := pagenum s + int m,
      globalAddress := globalAddress s + int m * int PAGESIZE\<rparr>"
    "\<And>k. if pagenum s \<le> int k \<and> int k < pagenum s + int m
          then f k = new_page s k \<and> (int k mod hostnum s = myhostid s \<longrightarrow>
            v (page_addr k) = Some (PROT_READ, replicate PAGESIZE 0))
          else f k = pageArray s k \<and> v (page_addr k) = vm s (page_addr k)"
    using assms(1) by (auto simp: allocated_def)
  obtain g w where u: "u = t\<lparr>pageArray := g, vm := w, pagenum := pagenum t + int n,
      globalAddress := globalAddress t + int n * int PAGESIZE\<rparr>"
    "\<And>k. if pagenum t \<le> int k \<and> int k < pagenum t + int n
          then g k = new_page t k \<and> (int k mod hostnum t = myhostid t \<longrightarrow>
            w (page_addr k) = Some (PROT_READ, replicate PAGESIZE 0))
          else g k = pageArray t k \<and> w (page_addr k) = vm t (page_addr k)"
    using assms(2) by (auto simp: allocated_def)
  show ?thesis
    unfolding allocated_def
  proof (intro exI conjI allI)
    show "u = s\<lparr>pageArray := g, vm := w, pagenum := pagenum s + int (m + n),
        globalAddress := globalAddress s + int (m + n) * int PAGESIZE\<rparr>"
      by (simp add: u(1) t(1) algebra_simps)
    fix k
    show "if pagenum s \<le> int k \<and> int k < pagenum s + int (m + n)
      then g k = new_page s k \<and> (int k mod hostnum s = myhostid s \<longrightarrow>
        w (page_addr k) = Some (PROT_READ, replicate PAGESIZE 0))
      else g k = pageArray s k \<and> w (page_addr k) = vm s (page_addr k)"
      using t(2) [of k] u(2) [of k] by (auto simp: t(1) new_page_def split: if_splits)
  qed
qed

lemma allocated_ok:
  assumes "alloc_ok s" "host_ok s" "allocated n s t" "pagenum s + int n \<le> int MAX_PAGE_NUM"
  shows "alloc_ok t" "host_ok t"
proof -
  obtain f v where t: "t = s\<lparr>pageArray := f, vm := v, pagenum := pagenum s + int n,
      globalAddress := globalAddress s + int n * int PAGESIZE\<rparr>"
    "\<And>k. if pagenum s \<le> int k \<and> int k < pagenum s + int n
          then f k = new_page s k else f k = pageArray s k"
    using assms(3) by (fastforce simp: allocated_def split: if_splits)
  have "p_state (f k) = UNMAP \<longleftrightarrow> pagenum s + int n \<le> int k" if "k < MAX_PAGE_NUM" for k
    using t(2) [of k] assms(1) that by (auto simp: alloc_ok_def new_page_def split: if_splits)
  then show "alloc_ok t"
    using assms(1,4) by (simp add: alloc_ok_def t(1) algebra_simps)
  show "host_ok t" using assms(2) by (simp add: host_ok_def t(1))
qed

lemma alloc_loop_eq:
  "alloc_ok s \<Longrightarrow> host_ok s \<Longrightarrow> pagenum s + int n \<le> int MAX_PAGE_NUM \<Longrightarrow>
    \<exists>t. alloc_loop (int n * int PAGESIZE) s = Some t \<and> allocated n s t"
proof (induction n arbitrary: s)
  case 0
  then show ?case using allocated_0 by (simp add: alloc_loop.simps)
next
  case (Suc n)
  obtain t where t: "alloc_loop (int (Suc n) * int PAGESIZE) s =
      alloc_loop (int (Suc n) * int PAGESIZE - int PAGESIZE) t" "allocated 1 s t"
    using alloc_step [OF Suc.prems(1,2), of "int (Suc n) * int PAGESIZE"] Suc.prems(3) by auto
  have ok: "alloc_ok t" "host_ok t"
    using allocated_ok [OF Suc.prems(1,2) t(2)] Suc.prems(3) by auto
  have "pagenum t = pagenum s + 1" using t(2) by (auto simp: allocated_def)
  with Suc.IH [OF ok] Suc.prems(3) obtain u where
    u: "alloc_loop (int n * int PAGESIZE) t = Some u" "allocated n t u" by auto
  have "allocated (Suc n) s u" using allocated_trans [OF t(2) u(2)] by simp
  with t(1) u(1) show ?case by (auto simp: algebra_simps)
qed

lemma allocated_mem_ok:
  assumes ok: "mem_ok L W P s" and a: "alloc_ok s" and t: "allocated n s t"
    and n: "pagenum s + int n \<le> int MAX_PAGE_NUM"
  shows "mem_ok L W P t"
proof -
  obtain f v where e: "t = s\<lparr>pageArray := f, vm := v, pagenum := pagenum s + int n,
      globalAddress := globalAddress s + int n * int PAGESIZE\<rparr>"
    "\<And>k. if pagenum s \<le> int k \<and> int k < pagenum s + int n
          then f k = new_page s k \<and> (int k mod hostnum s = myhostid s \<longrightarrow>
            v (page_addr k) = Some (PROT_READ, replicate PAGESIZE 0))
          else f k = pageArray s k \<and> v (page_addr k) = vm s (page_addr k)"
    using t by (auto simp: allocated_def)
  have m: "me t = me s" "has_diff t = has_diff s" by (simp_all add: e(1) me_def has_diff_def fun_eq_iff)
  have "p_notices (f k) = p_notices (pageArray s k)" for k
    using e(2) [of k] by (auto simp: new_page_def split: if_splits)
  then have "same_links s t" by (simp add: same_links_def e(1))
  then have links: "links_ok L W P t" using links_ok_same ok by (auto simp: mem_ok_def)
  have "page_ok P t k" if k: "k < MAX_PAGE_NUM" for k
  proof (cases "pagenum s \<le> int k \<and> int k < pagenum s + int n")
    case True
    have "p_state (pageArray s k) = UNMAP" using a k True by (simp add: alloc_ok_def)
    then have "p_twinPage (pageArray s k) = None" "P k (me s) = []"
      using mem_ok_simps(3) [OF ok k] by (simp_all add: page_ok_def Let_def)
    with e(2) [of k] True show ?thesis
      by (auto simp: page_ok_def e(1) new_page_def mapped_def m [unfolded e(1)] Let_def)
  next
    case False
    have "page_ok P t k = page_ok P s k"
      by (rule page_ok_cong) (use e(2) [of k] False in \<open>auto simp: e(1) me_def\<close>)
    with mem_ok_simps(3) [OF ok k] show ?thesis by simp
  qed
  with ok links m show ?thesis by (simp add: mem_ok_def host_ok_def e(1))
qed

lemma alloc_size_pages:
  assumes "0 < sz" "sz + int PAGESIZE \<le> 2147483648"
  shows "\<exists>n. alloc_size sz = int n * int PAGESIZE \<and> sz \<le> int n * int PAGESIZE \<and>
    int n * int PAGESIZE < sz + int PAGESIZE"
proof (cases "sz mod int PAGESIZE = 0")
  case True
  then have "sz = int (nat (sz div int PAGESIZE)) * int PAGESIZE"
    using assms(1) by (simp add: pos_imp_zdiv_nonneg_iff minus_mod_eq_div_mult [symmetric])
  with True show ?thesis by (intro exI [of _ "nat (sz div int PAGESIZE)"]) (auto simp: alloc_size_def)
next
  case False
  let ?q = "sz div int PAGESIZE"
  have d: "sz = ?q * int PAGESIZE + sz mod int PAGESIZE" "0 \<le> ?q" "0 \<le> sz mod int PAGESIZE"
    "sz mod int PAGESIZE < int PAGESIZE"
    using assms(1) by (simp_all add: pos_imp_zdiv_nonneg_iff)
  have "(?q + 1) * int PAGESIZE < 2147483648"
  proof -
    have "0 < sz mod int PAGESIZE" using False d by linarith
    then have "?q * int PAGESIZE < sz" using d(1) by linarith
    then show ?thesis using assms(2) by (simp add: algebra_simps)
  qed
  then have "in32 ((?q + 1) * int PAGESIZE)"
    using mult_nonneg_nonneg [of "?q + 1" "int PAGESIZE"] d(2) unfolding in32_def by linarith
  moreover have "0 < sz mod int PAGESIZE" using False d by linarith
  moreover have "(?q + 1) * int PAGESIZE = ?q * int PAGESIZE + int PAGESIZE"
    by (simp add: algebra_simps)
  ultimately have "sz \<le> (?q + 1) * int PAGESIZE" "(?q + 1) * int PAGESIZE < sz + int PAGESIZE"
    "alloc_size sz = (?q + 1) * int PAGESIZE"
    using d(1,4) False by (linarith, linarith, simp add: alloc_size_def)
  with d(2) show ?thesis by (intro exI [of _ "nat (?q + 1)"]) simp
qed

lemma mi_alloc_ok:
  assumes ok: "mem_ok L W P s" and a: "alloc_ok s" and sz: "sz + int PAGESIZE \<le> 2147483648"
  shows "\<exists>r t. mi_alloc sz s = Some (r, t) \<and> mem_ok L W P t \<and> alloc_ok t \<and>
    (if 0 < sz \<and> globalAddress s + sz \<le> int MAX_MEM_SIZE
     then r = page_addr (nat (pagenum s)) \<and>
       (\<exists>n. sz \<le> int n * int PAGESIZE \<and> int n * int PAGESIZE < sz + int PAGESIZE \<and> allocated n s t)
     else r = 0 \<and> t = s)"
proof (cases "0 < sz")
  case True
  obtain n where n: "alloc_size sz = int n * int PAGESIZE" "sz \<le> int n * int PAGESIZE"
    "int n * int PAGESIZE < sz + int PAGESIZE"
    using alloc_size_pages [OF True sz] by auto
  have g: "0 \<le> pagenum s" "pagenum s \<le> int MAX_PAGE_NUM" "globalAddress s = pagenum s * int PAGESIZE"
    using a by (simp_all add: alloc_ok_def)
  have M: "int MAX_MEM_SIZE = int MAX_PAGE_NUM * int PAGESIZE" by (simp add: size_consts)
  have small: "(int n * int PAGESIZE + globalAddress s) mod 2 ^ 64 = int n * int PAGESIZE + globalAddress s"
    using n(3) g sz by (simp add: size_consts)
  have fits: "int n * int PAGESIZE + globalAddress s \<le> int MAX_MEM_SIZE \<longleftrightarrow> pagenum s + int n \<le> int MAX_PAGE_NUM"
    unfolding g(3) M by (simp add: PAGESIZE_def) arith
  have iff: "globalAddress s + sz \<le> int MAX_MEM_SIZE \<longleftrightarrow> pagenum s + int n \<le> int MAX_PAGE_NUM"
    using n(2,3) unfolding g(3) M by (simp add: PAGESIZE_def) arith
  show ?thesis
  proof (cases "pagenum s + int n \<le> int MAX_PAGE_NUM")
    case fit: True
    have host: "host_ok s" using ok by (simp add: mem_ok_def)
    obtain t where t: "alloc_loop (int n * int PAGESIZE) s = Some t" "allocated n s t"
      using alloc_loop_eq [OF a host fit] by blast
    have "globalAddress t = globalAddress s + int n * int PAGESIZE"
      using t(2) by (auto simp: allocated_def)
    then have "mi_alloc sz s = Some (page_addr (nat (pagenum s)), t)"
      using True t(1) small fits fit g by (simp add: mi_alloc_def n(1) Let_def page_addr_def)
    with fit iff True n t allocated_mem_ok [OF ok a t(2) fit] allocated_ok [OF a host t(2) fit]
    show ?thesis by auto
  next
    case False
    then have "mi_alloc sz s = Some (0, s)"
      using True small fits by (simp add: mi_alloc_def n(1) Let_def)
    with False iff ok a show ?thesis by simp
  qed
qed (use ok a in \<open>simp add: mi_alloc_def\<close>)

section \<open>Start-up of a host\<close>

text \<open>The part of \<open>initLocalEnv\<close> behind the host table: \<open>hn\<close> hosts, this one is \<open>h\<close>.\<close>

definition boot :: "int \<Rightarrow> int \<Rightarrow> mem_st" where
  "boot h hn = the (initmem (initsyn (the (initnet [] [] (mem_globals\<lparr>hostnum := hn, myhostid := h\<rparr>)))))"

lemma boot_ok:
  assumes "0 \<le> h" "h < hn" "hn \<le> int MAX_HOST_NUM"
  shows "mem_ok (\<lambda>g. if g = nat h then [0] else []) (\<lambda>_. []) (\<lambda>_ _. []) (boot h hn)"
    "alloc_ok (boot h hn)" "hostnum (boot h hn) = hn" "myhostid (boot h hn) = h"
    "ivals (boot h hn) = [empty_interval\<lparr>i_isBarrier := 1\<rparr>]" "wns (boot h hn) = []"
    "intervalNow (boot h hn) = Some 0" "me (boot h hn) = nat h" "pagenum (boot h hn) = 0"
    "quiet (boot h hn)" "wire (boot h hn) = []" "k < LOCK_NUM \<Longrightarrow> locks (boot h hn) k = free_lock"
proof -
  define g where "g = mem_globals\<lparr>hostnum := hn, myhostid := h\<rparr>"
  have h: "aidx (myhostid g) MAX_HOST_NUM = Some (nat h)" using assms by (simp add: g_def aidx_def)
  obtain s where s: "initnet [] [] g = Some s" "ivals s = []" "wns s = []" "hostnum s = hn"
    "myhostid s = h" "quiet s" "wire s = []"
    using h by (simp add: initnet_def g_def quiet_def snd_ok_def ring_ok_def MAX_QUEUE_SIZE_def MAX_HOST_NUM_def)
  have i: "host_ok (initsyn s)" "ivals (initsyn s) = []" "wns (initsyn s) = []" "hostnum (initsyn s) = hn"
    "myhostid (initsyn s) = h" "me (initsyn s) = nat h" "quiet (initsyn s)" "wire (initsyn s) = []"
    "\<And>k. k < LOCK_NUM \<Longrightarrow> locks (initsyn s) k = free_lock"
    using assms s by (auto simp: host_ok_def initsyn_def me_def quiet_def snd_ok_def)
  obtain t where t: "initmem (initsyn s) = Some t"
    "mem_ok (first_lists (initsyn s)) (\<lambda>_. []) (\<lambda>_ _. []) t" "alloc_ok t"
    "ivals t = [empty_interval\<lparr>i_isBarrier := 1\<rparr>]" "wns t = []" "hostnum t = hn" "myhostid t = h"
    "intervalNow t = Some 0" "pagenum t = 0" "quiet t" "wire t = []"
    "locks t = locks (initsyn s)"
    using i(7,8) initmem_ok [OF i(1-3)] i(4,5) by auto
  have b: "boot h hn = t" using s(1) t(1) by (simp add: boot_def g_def)
  have "first_lists (initsyn s) = (\<lambda>g. if g = nat h then [0] else [])"
    by (simp add: first_lists_def i fun_eq_iff)
  with t(2) show "mem_ok (\<lambda>g. if g = nat h then [0] else []) (\<lambda>_. []) (\<lambda>_ _. []) (boot h hn)"
    by (simp add: b)
  show "alloc_ok (boot h hn)" "hostnum (boot h hn) = hn" "myhostid (boot h hn) = h"
    "ivals (boot h hn) = [empty_interval\<lparr>i_isBarrier := 1\<rparr>]" "wns (boot h hn) = []"
    "intervalNow (boot h hn) = Some 0" "me (boot h hn) = nat h" "pagenum (boot h hn) = 0"
    "quiet (boot h hn)" "wire (boot h hn) = []" "k < LOCK_NUM \<Longrightarrow> locks (boot h hn) k = free_lock"
    using t i(9) by (simp_all add: b me_def)
qed

text \<open>The variables that start-up sets and the invariant does not mention.\<close>

lemma open_sockets_Nil [simp]: "open_sockets ports b i n [] nm = nm"
  by (cases n) simp_all

lemma boot_fields:
  assumes "0 \<le> h" "h < hn" "hn \<le> int MAX_HOST_NUM"
  shows "i < MAX_HOST_NUM \<Longrightarrow> barrierTimestamps (boot h hn) i = replicate MAX_HOST_NUM (- 1)"
    "i < MAX_HOST_NUM \<Longrightarrow> barrierFlags (boot h hn) i = 0" "k < LOCK_NUM \<Longrightarrow> myLocks (boot h hn) k = 0"
    "waitFlag (boot h hn) = 0" "lasthostid (boot h hn) = - 1" "recv_ok (boot h hn)" "recvQueueSize (boot h hn) = 0"
    "snd_seqs (datamanager (boot h hn)) = (\<lambda>_. 0)" "isSigioDisabled (boot h hn) = 0"
  using assms
  by (auto simp: boot_def initnet_def initsyn_def initmem_def aidx_in_range Let_def recv_ok_def ring_ok_def
      set_intervalList_def empty_manager_def mem_globals_def syn_globals_def net_globals_def init_globals_def
      init_st.defs net_st.defs syn_st.defs mem_st.defs split: option.splits)

section \<open>Properties\<close>

text \<open>Start-up establishes the invariant of the memory module: after \<open>initmem\<close> every page is
  unmapped, this host has one interval (of barrier kind, with the zero timestamp), the other hosts
  have none, and all lists are well formed.\<close>

theorem initmem_establishes:
  assumes "0 \<le> myhostid s" "myhostid s < hostnum s" "hostnum s \<le> int MAX_HOST_NUM"
    and "ivals s = []" "wns s = []"
  shows "\<exists>t. initmem s = Some t \<and>
    mem_ok (\<lambda>h. if int h = myhostid s then [0] else []) (\<lambda>_. []) (\<lambda>_ _. []) t \<and> alloc_ok t \<and>
    (\<forall>k<MAX_PAGE_NUM. p_state (pageArray t k) = UNMAP) \<and>
    i_timestamp (ivals t ! 0) = zero_ts \<and> i_isBarrier (ivals t ! 0) = 1"
proof -
  have "host_ok s" using assms by (simp add: host_ok_def)
  moreover have "first_lists s = (\<lambda>h. if int h = myhostid s then [0] else [])"
    using assms(1) by (auto simp: first_lists_def me_def fun_eq_iff)
  ultimately obtain t where "initmem s = Some t" "alloc_ok t"
    "mem_ok (\<lambda>h. if int h = myhostid s then [0] else []) (\<lambda>_. []) (\<lambda>_ _. []) t"
    "ivals t = [empty_interval\<lparr>i_isBarrier := 1\<rparr>]" "pagenum t = 0"
    using initmem_ok [OF _ assms(4,5)] by auto
  then show ?thesis by (simp add: alloc_ok_def empty_interval_def)
qed

theorem initmem_establishes_witness:
  "\<exists>t. initmem (mem_globals\<lparr>hostnum := 4, myhostid := 2\<rparr>) = Some t \<and>
    mem_ok (\<lambda>h. if int h = 2 then [0] else []) (\<lambda>_. []) (\<lambda>_ _. []) t"
  using initmem_establishes [of "mem_globals\<lparr>hostnum := 4, myhostid := 2\<rparr>"]
  by (auto simp: MAX_HOST_NUM_def)

text \<open>C25: \<open>mi_alloc\<close> on every size for which the rounding does not overflow. When the size is positive
  and fits into what is left of the shared range, the next \<open>n\<close> pages are handed out, \<open>n\<close> being the
  size in pages rounded up: the address of the first is returned, the pages this host owns (index modulo
  the number of hosts) become readable and zeroed, the others are missing, all other pages stay as
  they were. Otherwise it returns NULL and changes nothing. The invariant is kept.\<close>

theorem mi_alloc_spec:
  assumes "mem_ok L W P s" "alloc_ok s" "sz + int PAGESIZE \<le> 2147483648"
  shows "\<exists>r t. mi_alloc sz s = Some (r, t) \<and> mem_ok L W P t \<and> alloc_ok t \<and>
    (if 0 < sz \<and> globalAddress s + sz \<le> int MAX_MEM_SIZE
     then r = page_addr (nat (pagenum s)) \<and>
       (\<exists>n. sz \<le> int n * int PAGESIZE \<and> int n * int PAGESIZE < sz + int PAGESIZE \<and> allocated n s t)
     else r = 0 \<and> t = s)"
  by (rule mi_alloc_ok [OF assms])

theorem mi_alloc_spec_witness:
  "\<exists>t. mi_alloc 5000 (boot 1 3) = Some (int START_ADDRESS, t) \<and> allocated 2 (boot 1 3) t"
proof -
  have b: "mem_ok (\<lambda>g. if g = nat 1 then [0] else []) (\<lambda>_. []) (\<lambda>_ _. []) (boot 1 3)" "alloc_ok (boot 1 3)"
    using boot_ok [of 1 3] by (simp_all add: MAX_HOST_NUM_def)
  have "pagenum (boot 1 3) = 0"
    using boot_ok [of 1 3] by (simp add: MAX_HOST_NUM_def)
  moreover from this have "globalAddress (boot 1 3) = 0" using b(2) by (simp add: alloc_ok_def)
  ultimately obtain r t n where t: "mi_alloc 5000 (boot 1 3) = Some (r, t)" "r = page_addr 0"
    "5000 \<le> int n * int PAGESIZE" "int n * int PAGESIZE < 5000 + int PAGESIZE" "allocated n (boot 1 3) t"
    using mi_alloc_spec [OF b, of 5000] by (auto simp: PAGESIZE_def MAX_MEM_SIZE_def)
  then have "n = 2" by (simp add: PAGESIZE_def)
  with t show ?thesis by (simp add: page_addr_def)
qed


end
