(* ===== verification/Incorporate.thy ===== *)
theory Incorporate
  imports Alloc
begin

text \<open>
  \<open>incorporateWnPacket\<close> (\<open>src/mem.c\<close>) as an update of an abstract log: every host keeps, for each
  host, a list of intervals with the pages written in them. The pointer operations refine the
  update of that list, keep the invariant of the memory module and return whenever the packet is
  well formed.
\<close>

section \<open>The log a host keeps\<close>

type_synonym log_entry = "timestamp \<times> int list"

definition entry_of :: "(nat \<Rightarrow> nat list) \<Rightarrow> mem_st \<Rightarrow> nat \<Rightarrow> log_entry" where
  "entry_of W s i = (i_timestamp (ivals s ! i), map (\<lambda>w. w_pageIndex (wns s ! w)) (W i))"

definition host_log :: "(nat \<Rightarrow> nat list) \<Rightarrow> (nat \<Rightarrow> nat list) \<Rightarrow> mem_st \<Rightarrow> nat \<Rightarrow> log_entry list" where
  "host_log L W s h = map (entry_of W s) (L h)"

text \<open>Pages that are new for an interval are appended in the order of the packet.\<close>

definition add_pages :: "int list \<Rightarrow> int list \<Rightarrow> int list" where
  "add_pages old new = fold (\<lambda>p ps. if p \<in> set ps then ps else ps @ [p]) new old"

fun log_update :: "timestamp \<Rightarrow> int list \<Rightarrow> log_entry list \<Rightarrow> log_entry list" where
  "log_update t new [] = []"
| "log_update t new ((u, old) # es) =
     (if u = t then (u, add_pages old new) # es else (u, old) # log_update t new es)"

definition merge_log :: "timestamp \<Rightarrow> int list \<Rightarrow> log_entry list \<Rightarrow> log_entry list" where
  "merge_log t new es =
     (if t \<in> fst ` set es then log_update t new es else (t, add_pages [] new) # es)"

lemma add_pages_simps [simp]:
  "add_pages old [] = old"
  "add_pages old (p # ps) = add_pages (if p \<in> set old then old else old @ [p]) ps"
  by (simp_all add: add_pages_def)

lemma set_add_pages [simp]: "set (add_pages old new) = set old \<union> set new"
  by (induction new arbitrary: old) auto

lemma add_pages_subset: "set new \<subseteq> set old \<Longrightarrow> add_pages old new = old"
  by (induction new arbitrary: old) auto

lemma add_pages_idem: "add_pages (add_pages old new) new = add_pages old new"
  by (rule add_pages_subset) simp

lemma log_update_idem: "log_update t new (log_update t new es) = log_update t new es"
  by (induction es) (auto simp: add_pages_idem)

lemma fst_log_update [simp]: "map fst (log_update t new es) = map fst es"
  by (induction es) auto

lemma merge_log_idem: "merge_log t new (merge_log t new es) = merge_log t new es"
proof -
  have "fst ` set (log_update t new es) = fst ` set es"
    using fst_log_update [of t new es] by (metis set_map)
  then show ?thesis
    by (simp add: merge_log_def log_update_idem add_pages_idem)
qed

section \<open>One notice of another host\<close>

lemma attach_notice_frame:
  "me (attach_notice k h i p s) = me s" "host_ok (attach_notice k h i p s) = host_ok s"
  "vm (attach_notice k h i p s) = vm s" "intervalNow (attach_notice k h i p s) = intervalNow s"
  "hostnum (attach_notice k h i p s) = hostnum s" "myhostid (attach_notice k h i p s) = myhostid s"
  "procArray (attach_notice k h i p s) = procArray s"
  "length (ivals (attach_notice k h i p s)) = length (ivals s)"
  "length (wns (attach_notice k h i p s)) = Suc (length (wns s))"
  "map i_timestamp (ivals (attach_notice k h i p s)) = map i_timestamp (ivals s)"
  "p_state (pageArray (attach_notice k h i p s) j) = p_state (pageArray s j)"
  "p_address (pageArray (attach_notice k h i p s) j) = p_address (pageArray s j)"
  "p_twinPage (pageArray (attach_notice k h i p s) j) = p_twinPage (pageArray s j)"
  by (auto simp: attach_notice_def page_upd_def me_def host_ok_def Let_def map_update_same
      split: option.splits)

lemma attach_notice_wns:
  "w < length (wns s) \<Longrightarrow>
    w_diffAddress (wns (attach_notice k h i p s) ! w) = w_diffAddress (wns s ! w) \<and>
    w_pageIndex (wns (attach_notice k h i p s) ! w) = w_pageIndex (wns s ! w)"
  "w_pageIndex (wns (attach_notice k h i p s) ! length (wns s)) = int k"
  "w_diffAddress (wns (attach_notice k h i p s) ! length (wns s)) = None"
  by (auto simp: attach_notice_def page_upd_def nth_append nth_update Let_def split: option.splits)

lemma ts_ok_map:
  "map i_timestamp xs = map i_timestamp ys \<Longrightarrow>
    (\<forall>iv\<in>set xs. ts_ok (i_timestamp iv)) = (\<forall>iv\<in>set ys. ts_ok (i_timestamp iv))"
  by (metis (mono_tags, lifting) image_eqI image_iff set_map)

lemma attach_remote_ok:
  assumes ok: "mem_ok L W P s" and k: "k < MAX_PAGE_NUM" and h: "h < MAX_HOST_NUM" "h \<noteq> me s"
    and i: "i \<in> set (L h)"
  defines "t \<equiv> attach_notice k h i (last_notice (W i)) s"
  shows "mem_ok L (W(i := W i @ [length (wns s)])) (P(k := (P k)(h := length (wns s) # P k h))) t"
proof -
  let ?P = "P(k := (P k)(h := length (wns s) # P k h))"
  have links: "links_ok L (W(i := W i @ [length (wns s)])) ?P t"
    unfolding t_def by (rule attach_notice_links [OF mem_ok_simps(2) [OF ok] k h(1) i])
  have "page_ok ?P t j" if j: "j < MAX_PAGE_NUM" for j
  proof -
    have "page_ok ?P t j = page_ok P s j"
    proof (rule page_ok_cong)
      show "w_diffAddress (wns t ! w) = w_diffAddress (wns s ! w)" if "w \<in> set (P j (me s))" for w
        using links_page_alloc(1) [OF mem_ok_simps(2) [OF ok] j _ that] host_ok_me(1) ok
        by (simp add: t_def attach_notice_wns mem_ok_def)
    qed (use h(2) in \<open>simp_all add: t_def attach_notice_frame\<close>)
    with ok j show ?thesis by (simp add: mem_ok_def)
  qed
  moreover have "\<forall>iv\<in>set (ivals t). ts_ok (i_timestamp iv)"
    using ts_ok_map [OF attach_notice_frame(10)] ok by (simp add: t_def mem_ok_def)
  ultimately show ?thesis
    using ok links by (simp add: mem_ok_def t_def attach_notice_frame)
qed

section \<open>The loop over the notices of a packet\<close>

lemma invalidate_frame_entries:
  assumes "same_links s t" "links_ok L W P s" "h < MAX_HOST_NUM" "i \<in> set (L h)"
  shows "entry_of W t i = entry_of W s i"
proof -
  have "w_pageIndex (wns t ! w) = w_pageIndex (wns s ! w)" if "w \<in> set (W i)" for w
    using links_notice_alloc(1) [OF assms(2) links_interval_alloc [OF assms(2-4)] that] assms(1)
    by (simp add: same_links_def)
  with assms(1) show ?thesis by (simp add: entry_of_def same_links_def)
qed

lemma attach_entry:
  assumes ok: "links_ok L W P s" and g: "g < MAX_HOST_NUM" and j: "j \<in> set (L g)"
  shows "entry_of (W(i := W i @ [length (wns s)])) (attach_notice k h i p s) j =
    (if j = i then (fst (entry_of W s i), snd (entry_of W s i) @ [int k]) else entry_of W s j)"
proof -
  have jl: "j < length (ivals s)" using links_interval_alloc [OF ok g j] .
  have "i_timestamp (ivals (attach_notice k h i p s) ! j) = i_timestamp (ivals s ! j)"
    using arg_cong [where f = "\<lambda>xs. xs ! j", OF attach_notice_frame(10) [of k h i p s]] jl
    by (simp add: attach_notice_frame(8))
  moreover have "w_pageIndex (wns (attach_notice k h i p s) ! w) = w_pageIndex (wns s ! w)"
    if "w \<in> set (W j)" for w
    using links_notice_alloc(1) [OF ok jl that] by (simp add: attach_notice_wns)
  ultimately show ?thesis
    by (auto simp: entry_of_def attach_notice_wns(2))
qed

text \<open>The state after one page of the packet.\<close>

lemma same_notice_find:
  assumes "links_ok L W P s" "i < length (ivals s)"
  shows "chain_find (nextInInterval s)
      (\<lambda>w. map_option (\<lambda>n. w_pageIndex n = p) (wn_get s (Some w))) (i_notices (ivals s ! i)) =
    Some (find (\<lambda>w. w_pageIndex (wns s ! w) = p) (W i))"
  using links_chain_notices [OF assms] links_notice_alloc(1) [OF assms]
  by (intro chain_find_eq) (simp_all add: wn_get_def)

lemma last_notice_snoc [simp]: "last_notice (ws @ [w]) = Some w"
  by (simp add: last_notice_def)

definition page_index :: "int \<Rightarrow> bool" where
  "page_index p \<longleftrightarrow> 0 \<le> p \<and> p < int MAX_PAGE_NUM"

lemma incorporate_step:
  assumes ok: "mem_ok L W P s" and h: "h < MAX_HOST_NUM" "h \<noteq> me s" and i: "i \<in> set (L h)"
    and new: "p \<notin> set (snd (entry_of W s i))" and p: "page_index p"
  shows "\<exists>t u. invalidate_page (nat p) s = Some t \<and>
    u = attach_notice (nat p) h i (last_notice (W i)) t \<and>
    incorporate_notices (p # ps) h i (last_notice (W i)) s =
      incorporate_notices ps h i (last_notice (W i @ [length (wns s)])) u \<and>
    mem_ok L (W(i := W i @ [length (wns s)])) (P(nat p := (P (nat p))(h := length (wns s) # P (nat p) h))) u \<and>
    same_links s t \<and> pages_frame (nat p) s t \<and> length (wns t) = length (wns s) \<and>
    p_state (pageArray t (nat p)) = (if p_state (pageArray s (nat p)) \<in> {RDONLY, WRITE} then INVALID
      else p_state (pageArray s (nat p))) \<and> page_bytes u = page_bytes s"
proof -
  have k: "nat p < MAX_PAGE_NUM" "aidx p MAX_PAGE_NUM = Some (nat p)" "int (nat p) = p"
    using p by (auto simp: page_index_def aidx_def)
  note links = mem_ok_simps(2) [OF ok]
  have il: "i < length (ivals s)" using links_interval_alloc [OF links h(1) i] .
  obtain t where t: "invalidate_page (nat p) s = Some t" "mem_ok L W P t" "same_links s t"
    "pages_frame (nat p) s t" "p_state (pageArray t (nat p)) =
      (if p_state (pageArray s (nat p)) \<in> {RDONLY, WRITE} then INVALID else p_state (pageArray s (nat p)))"
    "page_bytes t = page_bytes s"
    using invalidate_page_ok [OF ok k(1)] by blast
  have len: "length (wns t) = length (wns s)" "length (ivals t) = length (ivals s)"
    using t(3) by (simp_all add: same_links_def)
  define u where "u = attach_notice (nat p) h i (last_notice (W i)) t"
  have u: "mem_ok L (W(i := W i @ [length (wns s)]))
      (P(nat p := (P (nat p))(h := length (wns s) # P (nat p) h))) u"
    using attach_remote_ok [OF t(2) k(1) h(1) _ i] h(2) pages_frame_me [OF t(4)] len
    by (simp add: u_def)
  have none: "find (\<lambda>w. w_pageIndex (wns s ! w) = p) (W i) = None"
    using new by (auto simp: find_None_iff entry_of_def)
  have "incorporate_notices (p # ps) h i (last_notice (W i)) s =
      incorporate_notices ps h i (last_notice (W i @ [length (wns s)])) u"
  proof (cases "W i = []")
    case True
    then show ?thesis
      using il same_notice_find [OF links il] none k t(1) len
      by (simp add: incorporate_notices.simps(2) iv_get_def u_def attach_notice_def last_notice_def
          iv_upd_def page_upd_def Let_def)
  next
    case False
    then have "last (W i) < length (wns s)" using links_notice_alloc(1) [OF links il] by simp
    then show ?thesis
      using False il same_notice_find [OF links il] none k t(1) len
      by (simp add: incorporate_notices.simps(2) iv_get_def u_def attach_notice_def last_notice_def
          wn_upd_def page_upd_def Let_def nth_append list_update_append)
  qed
  moreover have "page_bytes u = page_bytes s"
    using t(6) page_bytes_vm [of u t] by (simp add: u_def attach_notice_frame)
  ultimately show ?thesis using t u len by (auto simp: u_def)
qed

text \<open>The page states after notices for the pages \<open>new\<close> that the interval did not have yet.\<close>

definition invalidated :: "int set \<Rightarrow> mem_st \<Rightarrow> nat \<Rightarrow> pagestate_t" where
  "invalidated new s k =
     (if int k \<in> new \<and> p_state (pageArray s k) \<in> {RDONLY, WRITE} then INVALID
      else p_state (pageArray s k))"

definition incorporated ::
    "(nat \<Rightarrow> nat list) \<Rightarrow> (nat \<Rightarrow> nat list) \<Rightarrow> nat \<Rightarrow> int list \<Rightarrow> mem_st \<Rightarrow>
     (nat \<Rightarrow> nat list) \<Rightarrow> mem_st \<Rightarrow> bool" where
  "incorporated L W i ps s W' t \<longleftrightarrow>
     entry_of W' t i = (fst (entry_of W s i), add_pages (snd (entry_of W s i)) ps) \<and>
     (\<forall>g<MAX_HOST_NUM. \<forall>j\<in>set (L g). j \<noteq> i \<longrightarrow> entry_of W' t j = entry_of W s j) \<and>
     (\<forall>k. p_state (pageArray t k) = invalidated (set ps - set (snd (entry_of W s i))) s k) \<and>
     page_bytes t = page_bytes s \<and>
     me t = me s \<and> hostnum t = hostnum s \<and> myhostid t = myhostid s \<and> intervalNow t = intervalNow s"

lemma incorporated_skip:
  assumes "p \<in> set (snd (entry_of W s i))" "incorporated L W i ps s W' t"
  shows "incorporated L W i (p # ps) s W' t"
proof -
  have "set (p # ps) - set (snd (entry_of W s i)) = set ps - set (snd (entry_of W s i))"
    using assms(1) by auto
  with assms show ?thesis by (simp add: incorporated_def)
qed

lemma incorporated_new:
  assumes new: "p \<notin> set (snd (entry_of W s i))" and p: "page_index p"
    and ei: "entry_of W1 u i = (fst (entry_of W s i), snd (entry_of W s i) @ [p])"
    and ej: "\<forall>g<MAX_HOST_NUM. \<forall>j\<in>set (L g). j \<noteq> i \<longrightarrow> entry_of W1 u j = entry_of W s j"
    and st: "\<forall>k. p_state (pageArray u k) = invalidated {p} s k"
    and fr: "me u = me s" "hostnum u = hostnum s" "myhostid u = myhostid s" "intervalNow u = intervalNow s"
      "page_bytes u = page_bytes s"
    and inc: "incorporated L W1 i ps u W' t"
  shows "incorporated L W i (p # ps) s W' t"
proof -
  have "p_state (pageArray t k) = invalidated (set (p # ps) - set (snd (entry_of W s i))) s k" for k
    using inc new st by (auto simp: incorporated_def ei invalidated_def)
  with assms show ?thesis by (simp add: incorporated_def)
qed

lemma incorporate_notices_ok:
  "mem_ok L W P s \<Longrightarrow> h < MAX_HOST_NUM \<Longrightarrow> h \<noteq> me s \<Longrightarrow> i \<in> set (L h) \<Longrightarrow> list_all page_index ps \<Longrightarrow>
    \<exists>t W' P'. incorporate_notices ps h i (last_notice (W i)) s = Some t \<and> mem_ok L W' P' t \<and>
      incorporated L W i ps s W' t"
proof (induction ps arbitrary: W P s)
  case Nil
  then show ?case by (auto simp: incorporated_def invalidated_def)
next
  case (Cons p ps)
  note links = mem_ok_simps(2) [OF Cons.prems(1)]
  have il: "i < length (ivals s)" using links_interval_alloc [OF links] Cons.prems by blast
  have p: "page_index p" "list_all page_index ps" using Cons.prems by auto
  show ?case
  proof (cases "p \<in> set (snd (entry_of W s i))")
    case True
    then obtain w where w: "find (\<lambda>w. w_pageIndex (wns s ! w) = p) (W i) = Some w"
      by (cases "find (\<lambda>w. w_pageIndex (wns s ! w) = p) (W i)") (auto simp: entry_of_def find_None_iff)
    then have "incorporate_notices (p # ps) h i (last_notice (W i)) s =
        incorporate_notices ps h i (last_notice (W i)) s"
      using il same_notice_find [OF links il, of p] by (simp add: incorporate_notices.simps(2) iv_get_def)
    with Cons.IH [OF Cons.prems(1-4) p(2)] incorporated_skip [OF True] show ?thesis by metis
  next
    case False
    let ?W = "W(i := W i @ [length (wns s)])"
    obtain t u P1 where t: "invalidate_page (nat p) s = Some t"
      "u = attach_notice (nat p) h i (last_notice (W i)) t"
      "incorporate_notices (p # ps) h i (last_notice (W i)) s =
        incorporate_notices ps h i (last_notice (?W i)) u"
      "mem_ok L ?W P1 u" "same_links s t" "pages_frame (nat p) s t" "length (wns t) = length (wns s)"
      "p_state (pageArray t (nat p)) = (if p_state (pageArray s (nat p)) \<in> {RDONLY, WRITE} then INVALID
        else p_state (pageArray s (nat p)))" "page_bytes u = page_bytes s"
      using incorporate_step [where ps = ps, OF Cons.prems(1-4) False p(1)] by auto
    have m: "me u = me s" "hostnum u = hostnum s" "myhostid u = myhostid s" "intervalNow u = intervalNow s"
      "page_bytes u = page_bytes s"
      using t(9) pages_frame_me [OF t(6)] t(6) by (simp_all add: t(2) attach_notice_frame pages_frame_def)
    obtain t' W' P' where t': "incorporate_notices ps h i (last_notice (?W i)) u = Some t'"
      "mem_ok L W' P' t'" "incorporated L ?W i ps u W' t'"
      using Cons.IH [of ?W P1 u, OF t(4) Cons.prems(2) _ Cons.prems(4) p(2)] Cons.prems(3) m(1) by metis
    have links_t: "links_ok L W P t" using links_ok_same [OF t(5) links] .
    have entry: "entry_of ?W u j = (if j = i then (fst (entry_of W s i), snd (entry_of W s i) @ [p])
        else entry_of W s j)" if "g < MAX_HOST_NUM" "j \<in> set (L g)" for g j
      using attach_entry [OF links_t that] invalidate_frame_entries [OF t(5) links that] p(1) t(7)
        invalidate_frame_entries [OF t(5) links Cons.prems(2,4)]
      by (simp add: t(2) page_index_def)
    have "incorporated L W i (p # ps) s W' t'"
    proof (rule incorporated_new [OF False p(1) _ _ _ m t'(3)])
      show "entry_of ?W u i = (fst (entry_of W s i), snd (entry_of W s i) @ [p])"
        using entry [OF Cons.prems(2,4)] by simp
      show "\<forall>g<MAX_HOST_NUM. \<forall>j\<in>set (L g). j \<noteq> i \<longrightarrow> entry_of ?W u j = entry_of W s j"
        using entry by auto
      have "p_state (pageArray u k) = p_state (pageArray t k)" for k
        by (simp add: t(2) attach_notice_frame)
      moreover have "p_state (pageArray t k) = invalidated {p} s k" for k
        using t(6,8) p(1)
        by (cases "k = nat p") (auto simp: invalidated_def pages_frame_def page_index_def)
      ultimately show "\<forall>k. p_state (pageArray u k) = invalidated {p} s k" by simp
    qed
    with t(3) t' show ?thesis by auto
  qed
qed

section \<open>The whole packet\<close>

lemma set_intervalList_frame [simp]:
  "me (set_intervalList h p s) = me s" "pageArray (set_intervalList h p s) = pageArray s"
  "wns (set_intervalList h p s) = wns s" "ivals (set_intervalList h p s) = ivals s"
  "vm (set_intervalList h p s) = vm s" "hostnum (set_intervalList h p s) = hostnum s"
  "myhostid (set_intervalList h p s) = myhostid s" "intervalNow (set_intervalList h p s) = intervalNow s"
  "barrierTimestamps (set_intervalList h p s) = barrierTimestamps s"
  by (simp_all add: set_intervalList_def me_def)

lemma push_interval_ok:
  assumes ok: "mem_ok L W P s" and h: "h < MAX_HOST_NUM"
    and iv: "i_notices iv = None" "i_prev iv = None" "ts_ok (i_timestamp iv)"
  shows "\<exists>t. push_interval h iv s = Some (length (ivals s), t) \<and>
    mem_ok (L(h := length (ivals s) # L h)) (W(length (ivals s) := [])) P t \<and>
    entry_of (W(length (ivals s) := [])) t (length (ivals s)) = (i_timestamp iv, []) \<and>
    (\<forall>g<MAX_HOST_NUM. \<forall>j\<in>set (L g). entry_of (W(length (ivals s) := [])) t j = entry_of W s j) \<and>
    pageArray t = pageArray s \<and> wns t = wns s \<and> me t = me s \<and> hostnum t = hostnum s \<and>
    myhostid t = myhostid s \<and> intervalNow t = intervalNow s \<and> vm t = vm s"
proof -
  note links = mem_ok_simps(2) [OF ok]
  let ?n = "length (ivals s)"
  define vs where "vs = (case L h of [] \<Rightarrow> ivals s
    | j # _ \<Rightarrow> (ivals s)[j := (ivals s ! j)\<lparr>i_prev := Some ?n\<rparr>])"
  define t where "t = set_intervalList h (Some ?n)
    (s\<lparr>ivals := vs @ [iv\<lparr>i_next := pr_intervalList (procArray s h)\<rparr>]\<rparr>)"
  have e: "push_interval h iv s = Some (?n, t)"
    by (simp add: push_interval_eq [OF links h] t_def vs_def)
  have vs: "length vs = ?n" "map i_timestamp vs = map i_timestamp (ivals s)"
    by (auto simp: vs_def map_update_same split: list.splits)
  have vts: "i_timestamp (vs ! j) = i_timestamp (ivals s ! j)" if "j < ?n" for j
    using vs that by (metis nth_map)
  have fr: "pageArray t = pageArray s" "wns t = wns s" "me t = me s" "hostnum t = hostnum s"
    "myhostid t = myhostid s" "intervalNow t = intervalNow s" "vm t = vm s"
    by (simp_all add: t_def me_def)
  have "page_ok P t k = page_ok P s k" for k
    by (rule page_ok_cong) (simp_all add: fr)
  moreover have "\<forall>v\<in>set (ivals t). ts_ok (i_timestamp v)"
    using ok iv(3) ts_ok_map [OF vs(2)] by (simp add: t_def mem_ok_def)
  moreover have "links_ok (L(h := ?n # L h)) (W(?n := [])) P t"
    by (rule push_interval_links [OF links h iv(1,2) e])
  ultimately have "mem_ok (L(h := ?n # L h)) (W(?n := [])) P t"
    using ok by (auto simp: mem_ok_def fr host_ok_def)
  moreover have "entry_of (W(?n := [])) t ?n = (i_timestamp iv, [])"
    using vs by (simp add: entry_of_def t_def nth_append)
  moreover have "entry_of (W(?n := [])) t j = entry_of W s j" if "g < MAX_HOST_NUM" "j \<in> set (L g)" for g j
    using links_interval_alloc [OF links that] vs vts by (simp add: entry_of_def t_def nth_append)
  ultimately show ?thesis using e fr by auto
qed

lemma log_update_at:
  "find (\<lambda>k. fst (f k) = t) ks = Some i \<Longrightarrow> distinct ks \<Longrightarrow>
    log_update t new (map f ks) = map (f(i := (fst (f i), add_pages (snd (f i)) new))) ks"
proof (induction ks)
  case Nil
  then show ?case by simp
next
  case (Cons k ks)
  have "fst (f i) = t" using Cons.prems(1) by (metis (mono_tags, lifting) find_Some_iff)
  with Cons show ?case
    by (cases "f k") (auto split: if_splits)
qed

definition packet_pages :: "wnPacket_t \<Rightarrow> int list" where
  "packet_pages pk = take (nat (k_wnCount pk)) (k_wnArray pk)"

definition packet_ok :: "mem_st \<Rightarrow> wnPacket_t \<Rightarrow> bool" where
  "packet_ok s pk \<longleftrightarrow> 0 \<le> k_hostid pk \<and> k_hostid pk < int MAX_HOST_NUM \<and> k_hostid pk \<noteq> myhostid s \<and>
     ts_ok (k_timestamp pk) \<and> k_wnCount pk \<le> int (length (k_wnArray pk)) \<and>
     list_all page_index (packet_pages pk)"

definition known_pages :: "timestamp \<Rightarrow> log_entry list \<Rightarrow> int list" where
  "known_pages t es = (case find (\<lambda>e. fst e = t) es of None \<Rightarrow> [] | Some e \<Rightarrow> snd e)"

lemma find_map_fst:
  "find (\<lambda>e. fst e = t) (map f ks) = map_option f (find (\<lambda>k. fst (f k) = t) ks)"
  by (induction ks) auto

text \<open>\<open>packet_effect\<close>: the log of the sender of the intervals is merged, the other logs are as they
  were, and exactly the pages with a new notice are invalidated.\<close>

definition packet_effect ::
    "wnPacket_t \<Rightarrow> (nat \<Rightarrow> log_entry list) \<Rightarrow> mem_st \<Rightarrow> (nat \<Rightarrow> log_entry list) \<Rightarrow> mem_st \<Rightarrow> bool" where
  "packet_effect pk lg s lg' t \<longleftrightarrow>
     (\<forall>g<MAX_HOST_NUM. lg' g = (if int g = k_hostid pk
        then merge_log (k_timestamp pk) (packet_pages pk) (lg g) else lg g)) \<and>
     (\<forall>k. p_state (pageArray t k) = invalidated (set (packet_pages pk) -
        set (known_pages (k_timestamp pk) (lg (nat (k_hostid pk))))) s k) \<and>
     page_bytes t = page_bytes s \<and>
     me t = me s \<and> hostnum t = hostnum s \<and> myhostid t = myhostid s \<and> intervalNow t = intervalNow s"

lemma incorporateWnPacket_ok:
  assumes ok: "mem_ok L W P s" and pk: "packet_ok s pk"
  shows "\<exists>t L' W' P'. incorporateWnPacket (Some pk) s = Some (0, t) \<and> mem_ok L' W' P' t \<and>
    packet_effect pk (host_log L W s) s (host_log L' W' t) t"
proof -
  note links = mem_ok_simps(2) [OF ok]
  let ?h = "nat (k_hostid pk)" and ?ts = "k_timestamp pk" and ?ps = "packet_pages pk"
  have h: "?h < MAX_HOST_NUM" "aidx (k_hostid pk) MAX_HOST_NUM = Some ?h" "?h \<noteq> me s"
    "int ?h = k_hostid pk"
    using pk mem_ok_simps(1) [OF ok] by (auto simp: packet_ok_def aidx_def me_def host_ok_def)
  have pages: "list_all page_index ?ps" "k_wnCount pk \<le> int (length (k_wnArray pk))"
    using pk by (auto simp: packet_ok_def)
  have ch: "chain (nextI s) (pr_intervalList (procArray s ?h)) (L ?h)"
    using links_chain_intervals [OF links h(1)] .
  have alloc: "k < length (ivals s)" if "k \<in> set (L ?h)" for k
    using links_interval_alloc [OF links h(1) that] .
  have ts: "fst (entry_of W s k) = i_timestamp (ivals s ! k)" for k by (simp add: entry_of_def)
  have find: "chain_find (nextI s)
      (\<lambda>k. map_option (\<lambda>i. i_timestamp i = ?ts) (iv_get s (Some k))) (pr_intervalList (procArray s ?h)) =
    Some (find (\<lambda>k. fst (entry_of W s k) = ?ts) (L ?h))"
    using alloc by (intro chain_find_eq [OF ch]) (simp add: iv_get_def ts)
  have known: "known_pages ?ts (host_log L W s ?h) = (case find (\<lambda>k. fst (entry_of W s k) = ?ts) (L ?h) of
      None \<Rightarrow> [] | Some i \<Rightarrow> snd (entry_of W s i))"
    by (simp add: known_pages_def host_log_def find_map_fst split: option.splits)
  show ?thesis
  proof (cases "find (\<lambda>k. fst (entry_of W s k) = ?ts) (L ?h)")
    case (Some i)
    then have i: "i \<in> set (L ?h)" "fst (entry_of W s i) = ?ts"
      by (auto simp: find_Some_iff)
    obtain t W' P' where t: "incorporate_notices ?ps ?h i (last_notice (W i)) s = Some t"
      "mem_ok L W' P' t" "incorporated L W i ?ps s W' t"
      using incorporate_notices_ok [OF ok h(1,3) i(1) pages(1)] by auto
    have cw: "chain (nextInInterval s) (i_notices (ivals s ! i)) (W i)"
      using links_chain_notices [OF links alloc [OF i(1)]] .
    have last: "(case i_notices (ivals s ! i) of None \<Rightarrow> Some None
        | Some w \<Rightarrow> map_option Some (chain_last (nextInInterval s) w)) = Some (last_notice (W i))"
      using cw chain_last_eq [of "nextInInterval s" _ "W i"]
      by (cases "i_notices (ivals s ! i)") (auto simp: last_notice_def)
    have e: "incorporateWnPacket (Some pk) s = Some (0, t)"
      using h(2) find Some last alloc [OF i(1)] pages(2) t(1)
      by (simp add: incorporateWnPacket_def iv_get_def packet_pages_def)
    have "host_log L W' t g = (if int g = k_hostid pk then merge_log ?ts ?ps (host_log L W s g)
        else host_log L W s g)" if g: "g < MAX_HOST_NUM" for g
    proof (cases "g = ?h")
      case True
      have m: "?ts \<in> fst ` set (host_log L W s ?h)"
        using i by (force simp: host_log_def)
      have "host_log L W' t ?h = map ((entry_of W s)(i := (fst (entry_of W s i),
          add_pages (snd (entry_of W s i)) ?ps))) (L ?h)"
        using t(3) h(1) by (auto simp: host_log_def incorporated_def)
      also have "\<dots> = log_update ?ts ?ps (host_log L W s ?h)"
        using log_update_at [OF Some chain_distinct [OF ch]] by (simp add: host_log_def)
      finally show ?thesis using m True h(4) by (simp add: merge_log_def)
    next
      case False
      have "i \<notin> set (L g)"
        using links i(1) False g h(1) by (auto simp: links_ok_def interval_lists_def)
      then have "map (entry_of W' t) (L g) = map (entry_of W s) (L g)"
        using t(3) g by (intro map_cong) (auto simp: incorporated_def)
      with False h(4) show ?thesis by (auto simp: host_log_def)
    qed
    moreover have "p_state (pageArray t k) = invalidated (set ?ps - set (known_pages ?ts (host_log L W s ?h))) s k" for k
      using t(3) Some by (simp add: incorporated_def known)
    ultimately have "packet_effect pk (host_log L W s) s (host_log L W' t) t"
      using t(3) by (simp add: packet_effect_def incorporated_def)
    with e t show ?thesis by blast
  next
    case None
    let ?n = "length (ivals s)" and ?iv = "empty_interval\<lparr>i_timestamp := ?ts\<rparr>"
    let ?L = "L(?h := ?n # L ?h)" and ?W = "W(?n := [])"
    have iv: "i_notices ?iv = None" "i_prev ?iv = None" "ts_ok (i_timestamp ?iv)"
      using pk by (simp_all add: empty_interval_def packet_ok_def)
    obtain u where u: "push_interval ?h ?iv s = Some (?n, u)" "mem_ok ?L ?W P u"
      "entry_of ?W u ?n = (?ts, [])"
      "\<forall>g<MAX_HOST_NUM. \<forall>j\<in>set (L g). entry_of ?W u j = entry_of W s j" "pageArray u = pageArray s"
      "me u = me s" "hostnum u = hostnum s" "myhostid u = myhostid s" "intervalNow u = intervalNow s"
      "vm u = vm s"
      using push_interval_ok [OF ok h(1) iv] by auto
    note pb = page_bytes_vm [OF u(10)]
    obtain t W' P' where t: "incorporate_notices ?ps ?h ?n (last_notice (?W ?n)) u = Some t"
      "mem_ok ?L W' P' t" "incorporated ?L ?W ?n ?ps u W' t"
      using incorporate_notices_ok [OF u(2) h(1) _ _ pages(1), of ?n] h(3) u(6) by auto
    have e: "incorporateWnPacket (Some pk) s = Some (0, t)"
      using h(2) find None u(1) pages(2) t(1)
      by (simp add: incorporateWnPacket_def packet_pages_def last_notice_def)
    have nL: "?n \<notin> set (L g)" if "g < MAX_HOST_NUM" for g
      using links_interval_alloc [OF links that] by blast
    have old: "map (entry_of W' t) (L g) = map (entry_of W s) (L g)" if g: "g < MAX_HOST_NUM" for g
    proof (rule map_cong [OF refl])
      fix j assume j: "j \<in> set (L g)"
      then have "j \<in> set (?L g)" "j \<noteq> ?n" using nL [OF g] by auto
      then have "entry_of W' t j = entry_of ?W u j"
        using t(3) g by (auto simp: incorporated_def)
      with u(4) g j show "entry_of W' t j = entry_of W s j" by simp
    qed
    have new: "entry_of W' t ?n = (?ts, add_pages [] ?ps)"
      using t(3) u(3) by (simp add: incorporated_def)
    have notin: "?ts \<notin> fst ` set (host_log L W s ?h)"
      using None by (auto simp: host_log_def find_None_iff)
    have "host_log ?L W' t g = (if int g = k_hostid pk then merge_log ?ts ?ps (host_log L W s g)
        else host_log L W s g)" if g: "g < MAX_HOST_NUM" for g
      using old [OF g] new notin h(4) by (auto simp: host_log_def merge_log_def)
    moreover have "p_state (pageArray t k) = invalidated (set ?ps - set (known_pages ?ts (host_log L W s ?h))) s k" for k
      using t(3) u(3,5) None by (auto simp: incorporated_def known invalidated_def)
    ultimately have "packet_effect pk (host_log L W s) s (host_log ?L W' t) t"
      using t(3) u(6-9) pb by (simp add: packet_effect_def incorporated_def)
    with e t show ?thesis by blast
  qed
qed

section \<open>Properties\<close>

lemma known_notices_skip:
  "mem_ok L W P s \<Longrightarrow> h < MAX_HOST_NUM \<Longrightarrow> i \<in> set (L h) \<Longrightarrow> set ps \<subseteq> set (snd (entry_of W s i)) \<Longrightarrow>
    incorporate_notices ps h i l s = Some s"
proof (induction ps)
  case (Cons p ps)
  note links = mem_ok_simps(2) [OF Cons.prems(1)]
  have il: "i < length (ivals s)" using links_interval_alloc [OF links] Cons.prems by blast
  have "p \<in> set (snd (entry_of W s i))" using Cons.prems by simp
  then obtain w where "find (\<lambda>w. w_pageIndex (wns s ! w) = p) (W i) = Some w"
    by (cases "find (\<lambda>w. w_pageIndex (wns s ! w) = p) (W i)") (auto simp: entry_of_def find_None_iff)
  then show ?case
    using il same_notice_find [OF links il, of p] Cons by (simp add: incorporate_notices.simps(2) iv_get_def)
qed simp

text \<open>C12: Incorporating a packet of write notices returns 0 and has exactly this effect: the log kept for
  the host of the packet gets the interval if it is new, and each page of the packet at most once, in
  order; the logs of the other hosts stay; the readable and written pages for which the interval had
  no notice yet become invalid, no other page changes its state. The lists of intervals and notices,
  the protection of the pages and the diffs of local writes stay consistent, and no byte of a page
  changes. That a page has at most one notice in an interval is what the loop with \<open>wnExistFlag\<close> does; the
  assertions mem81.21 to mem81.31 of \<open>src/tests/mem-test.c\<close> expect a second notice of page 1 in a known
  interval, which the code does not make.\<close>

theorem incorporate_refines_log:
  assumes "mem_ok L W P s" "packet_ok s pk"
  shows "\<exists>t L' W' P'. incorporateWnPacket (Some pk) s = Some (0, t) \<and> mem_ok L' W' P' t \<and>
    (\<forall>h<MAX_HOST_NUM. host_log L' W' t h =
      (if int h = k_hostid pk then merge_log (k_timestamp pk) (packet_pages pk) (host_log L W s h)
       else host_log L W s h)) \<and>
    (\<forall>k. p_state (pageArray t k) =
      (if int k \<in> set (packet_pages pk) \<and>
          int k \<notin> set (known_pages (k_timestamp pk) (host_log L W s (nat (k_hostid pk)))) \<and>
          (p_state (pageArray s k) = RDONLY \<or> p_state (pageArray s k) = WRITE)
       then INVALID else p_state (pageArray s k)) \<and>
     map_option snd (vm t (page_addr k)) = map_option snd (vm s (page_addr k)))"
proof -
  obtain t L' W' P' where "incorporateWnPacket (Some pk) s = Some (0, t)" "mem_ok L' W' P' t"
    "packet_effect pk (host_log L W s) s (host_log L' W' t) t"
    using incorporateWnPacket_ok [OF assms] by blast
  then show ?thesis
    by (intro exI conjI) (auto simp: packet_effect_def invalidated_def page_bytes_def fun_eq_iff)
qed

definition sample_packet :: wnPacket_t where
  "sample_packet = \<lparr>k_hostid = 1, k_timestamp = zero_ts[1 := 1], k_wnCount = 2,
     k_wnArray = 0 # 3 # replicate (MAX_WN_NUM - 2) (- 1)\<rparr>"

lemma sample_packet_pages: "packet_pages sample_packet = [0, 3]"
  by (simp add: packet_pages_def sample_packet_def)

lemma sample_packet_ok: "packet_ok (boot 0 3) sample_packet"
  using boot_ok(4) [of 0 3]
  by (simp add: packet_ok_def sample_packet_pages)
    (simp add: sample_packet_def ts_ok_def zero_ts_def page_index_def list_all_length nth_update
      in32_def size_consts)

lemma boot_sample:
  "mem_ok (\<lambda>g. if g = nat 0 then [0] else []) (\<lambda>_. []) (\<lambda>_ _. []) (boot 0 3)"
  using boot_ok [of 0 3] by (simp add: MAX_HOST_NUM_def)

theorem incorporate_refines_log_witness:
  "\<exists>t L' W' P'. incorporateWnPacket (Some sample_packet) (boot 0 3) = Some (0, t) \<and> mem_ok L' W' P' t \<and>
    host_log L' W' t 1 = [(zero_ts[1 := 1], [0, 3])]"
proof -
  have n: "(1::nat) < MAX_HOST_NUM" by (simp add: MAX_HOST_NUM_def)
  from incorporate_refines_log [OF boot_sample sample_packet_ok] obtain t L' W' P' where
    "incorporateWnPacket (Some sample_packet) (boot 0 3) = Some (0, t)" "mem_ok L' W' P' t"
    "\<forall>h<MAX_HOST_NUM. host_log L' W' t h = (if int h = k_hostid sample_packet
       then merge_log (k_timestamp sample_packet) (packet_pages sample_packet)
         (host_log (\<lambda>g. if g = nat 0 then [0] else []) (\<lambda>_. []) (boot 0 3) h)
       else host_log (\<lambda>g. if g = nat 0 then [0] else []) (\<lambda>_. []) (boot 0 3) h)"
    by blast
  moreover from this(3) n have "host_log L' W' t 1 = [(zero_ts[1 := 1], [0, 3])]"
    unfolding sample_packet_pages by (simp add: sample_packet_def merge_log_def host_log_def)
  ultimately show ?thesis by blast
qed

lemma incorporate_known:
  assumes ok: "mem_ok L W P s" and pk: "packet_ok s pk"
    and known: "k_timestamp pk \<in> fst ` set (host_log L W s (nat (k_hostid pk)))"
      "set (packet_pages pk) \<subseteq> set (known_pages (k_timestamp pk) (host_log L W s (nat (k_hostid pk))))"
  shows "incorporateWnPacket (Some pk) s = Some (0, s)"
proof -
  note links = mem_ok_simps(2) [OF ok]
  let ?h = "nat (k_hostid pk)" and ?ts = "k_timestamp pk"
  have h: "?h < MAX_HOST_NUM" "aidx (k_hostid pk) MAX_HOST_NUM = Some ?h"
    using pk by (auto simp: packet_ok_def aidx_def)
  have alloc: "k < length (ivals s)" if "k \<in> set (L ?h)" for k
    using links_interval_alloc [OF links h(1) that] .
  have ts: "fst (entry_of W s k) = i_timestamp (ivals s ! k)" for k by (simp add: entry_of_def)
  obtain i where i: "find (\<lambda>k. fst (entry_of W s k) = ?ts) (L ?h) = Some i"
    using known(1) by (cases "find (\<lambda>k. fst (entry_of W s k) = ?ts) (L ?h)")
      (auto simp: host_log_def find_None_iff)
  then have iL: "i \<in> set (L ?h)" by (auto simp: find_Some_iff)
  have find: "chain_find (nextI s)
      (\<lambda>k. map_option (\<lambda>i. i_timestamp i = ?ts) (iv_get s (Some k))) (pr_intervalList (procArray s ?h)) =
    Some (Some i)"
    using alloc i chain_find_eq [OF links_chain_intervals [OF links h(1)],
        of "\<lambda>k. map_option (\<lambda>i. i_timestamp i = ?ts) (iv_get s (Some k))" "\<lambda>k. fst (entry_of W s k) = ?ts"]
    by (simp add: iv_get_def ts)
  have cw: "chain (nextInInterval s) (i_notices (ivals s ! i)) (W i)"
    using links_chain_notices [OF links alloc [OF iL]] .
  obtain l where l: "(case i_notices (ivals s ! i) of None \<Rightarrow> Some None
      | Some w \<Rightarrow> map_option Some (chain_last (nextInInterval s) w)) = Some l"
    using cw chain_last_eq [of "nextInInterval s" _ "W i"]
    by (cases "i_notices (ivals s ! i)") auto
  have "set (packet_pages pk) \<subseteq> set (snd (entry_of W s i))"
    using known(2) i by (simp add: known_pages_def host_log_def find_map_fst)
  then have "incorporate_notices (packet_pages pk) ?h i l s = Some s"
    using known_notices_skip [OF ok h(1) iL] by blast
  then show ?thesis
    using h(2) find l alloc [OF iL] pk
    by (simp add: incorporateWnPacket_def iv_get_def packet_pages_def packet_ok_def)
qed

text \<open>C13: A packet that arrives a second time (a retransmitted message, or an interval forwarded by two
  hosts) changes nothing at all: every page of it has its notice already and is skipped. The result is 0,
  not the -2 of the comment of \<open>incorporateWnPacket\<close>. The assertions mem81.21 to mem81.31 of
  \<open>src/tests/mem-test.c\<close>, which expect a second notice for a page of a known interval, contradict it.\<close>

theorem incorporate_idempotent:
  assumes "mem_ok L W P s" "packet_ok s pk" "incorporateWnPacket (Some pk) s = Some (r, t)"
  shows "incorporateWnPacket (Some pk) t = Some (0, t)"
proof -
  obtain L' W' P' where t: "mem_ok L' W' P' t" "packet_effect pk (host_log L W s) s (host_log L' W' t) t"
    using incorporateWnPacket_ok [OF assms(1,2)] assms(3) by auto
  let ?h = "nat (k_hostid pk)" and ?ts = "k_timestamp pk"
  have h: "?h < MAX_HOST_NUM" "int ?h = k_hostid pk" using assms(2) by (auto simp: packet_ok_def)
  have lg: "host_log L' W' t ?h = merge_log ?ts (packet_pages pk) (host_log L W s ?h)"
    using t(2) h by (simp add: packet_effect_def)
  have up: "find (\<lambda>e. fst e = u) es \<noteq> None \<Longrightarrow>
      \<exists>old. find (\<lambda>e. fst e = u) (log_update u new es) = Some (u, add_pages old new)" for u new es
    by (induction es) auto
  have "\<exists>old. find (\<lambda>e. fst e = ?ts) (host_log L' W' t ?h) = Some (?ts, add_pages old (packet_pages pk))"
  proof (cases "find (\<lambda>e. fst e = ?ts) (host_log L W s ?h) = None")
    case True
    then have "?ts \<notin> fst ` set (host_log L W s ?h)" by (auto simp: find_None_iff)
    then show ?thesis by (auto simp: lg merge_log_def)
  next
    case False
    then obtain e where "e \<in> set (host_log L W s ?h)" "fst e = ?ts" by (auto simp: find_None_iff)
    then have "?ts \<in> fst ` set (host_log L W s ?h)" by force
    with up [OF False] show ?thesis by (simp add: lg merge_log_def)
  qed
  then obtain old where f: "find (\<lambda>e. fst e = ?ts) (host_log L' W' t ?h) = Some (?ts, add_pages old (packet_pages pk))"
    by blast
  then have "?ts \<in> fst ` set (host_log L' W' t ?h)"
    by (metis (mono_tags, lifting) find_Some_iff fst_conv image_eqI nth_mem)
  moreover have "packet_ok t pk" using assms(2) t(2) by (simp add: packet_ok_def packet_effect_def)
  moreover have "set (packet_pages pk) \<subseteq> set (known_pages ?ts (host_log L' W' t ?h))"
    using f by (simp add: known_pages_def)
  ultimately show ?thesis by (intro incorporate_known [OF t(1)])
qed

theorem incorporate_idempotent_witness:
  "\<exists>t. incorporateWnPacket (Some sample_packet) (boot 0 3) = Some (0, t) \<and>
    incorporateWnPacket (Some sample_packet) t = Some (0, t)"
proof -
  obtain t where "incorporateWnPacket (Some sample_packet) (boot 0 3) = Some (0, t)"
    using incorporateWnPacket_ok [OF boot_sample sample_packet_ok] by blast
  with incorporate_idempotent [OF boot_sample sample_packet_ok this] show ?thesis by blast
qed

end
