(* ===== verification/Frames.thy ===== *)
theory Frames
  imports Intervals
begin

text \<open>
  What the operations on intervals, write notices and pages leave alone, without any assumption on
  the state: everything but the heap objects, the lists of the hosts, the page table and the mapping.
\<close>

lemma bindE: "Option.bind x f = Some y \<Longrightarrow> (\<And>a. x = Some a \<Longrightarrow> f a = Some y \<Longrightarrow> Q) \<Longrightarrow> Q"
  by (cases x) auto

definition heap_frame :: "mem_st \<Rightarrow> mem_st \<Rightarrow> bool" where
  "heap_frame s t \<longleftrightarrow>
     t = s\<lparr>pageArray := pageArray t, procArray := procArray t, ivals := ivals t, wns := wns t, vm := vm t\<rparr>"

lemma heap_frame_refl [simp]: "heap_frame s s"
  by (simp add: heap_frame_def)

lemma heap_frame_trans: "heap_frame s t \<Longrightarrow> heap_frame t u \<Longrightarrow> heap_frame s u"
  by (cases s; cases t; cases u) (simp add: heap_frame_def)

named_theorems heap_frames \<open>operations that change the heap only\<close>

lemma heap_frame_steps [heap_frames]:
  "heap_frame s (page_upd k f s)" "heap_frame s (set_intervalList h p s)"
  "heap_frame s (vm_mprotect a pr s)" "heap_frame s (s\<lparr>wns := ws\<rparr>)" "heap_frame s (s\<lparr>ivals := is\<rparr>)"
  "heap_frame s (snd (freeTwinPage i s))"
  by (auto simp: heap_frame_def page_upd_def set_intervalList_def vm_mprotect_def freeTwinPage_def Let_def
      split: option.splits)

lemma heap_frame_upd [heap_frames]:
  "iv_upd p f s = Some t \<Longrightarrow> heap_frame s t" "wn_upd p g s = Some t \<Longrightarrow> heap_frame s t"
  by (auto simp: iv_upd_def wn_upd_def heap_frame_def split: option.splits if_splits)

lemma heap_frame_alloc: "heap_frame (page_upd k f (s\<lparr>wns := ws\<rparr>)) u \<Longrightarrow> heap_frame s u"
  by (blast intro: heap_frame_trans heap_frame_steps)

lemma heap_frame_push [heap_frames]: "push_interval h iv s = Some (k, t) \<Longrightarrow> heap_frame s t"
  by (auto simp: push_interval_def Let_def split: bind_splits if_splits
      intro!: heap_frame_steps(2) [THEN [2] heap_frame_trans] heap_frame_steps(5)
      dest!: heap_frame_upd(1) intro: heap_frame_trans [OF heap_frame_steps(5)])

lemma heap_frame_invalidate [heap_frames]: "invalidate_page k s = Some t \<Longrightarrow> heap_frame s t"
proof -
  assume r: "invalidate_page k s = Some t"
  let ?p = "pageArray s k" and ?u = "page_upd k (\<lambda>p. p\<lparr>p_state := INVALID\<rparr>) s"
  have u: "heap_frame s ?u" by (rule heap_frame_steps)
  show ?thesis
  proof (cases "p_state ?p = WRITE")
    case True
    then obtain m pg v where v: "wn_upd (p_notices ?p m) (\<lambda>w. w\<lparr>w_diffAddress := createLocalDiff pg (p_twinPage ?p)\<rparr>) ?u = Some v"
      "t = vm_mprotect (p_address ?p) PROT_NONE (snd (freeTwinPage (int k) v))"
      using r by (auto simp: invalidate_page_def Let_def split: bind_splits)
    show ?thesis
      unfolding v(2) using u heap_frame_upd(2) [OF v(1)] by (blast intro: heap_frame_trans heap_frame_steps)
  next
    case False
    then show ?thesis
      using r u by (auto simp: invalidate_page_def Let_def split: if_splits intro: heap_frame_trans heap_frame_steps)
  qed
qed

lemma heap_frame_notices [heap_frames]: "incorporate_notices ps h iv l s = Some t \<Longrightarrow> heap_frame s t"
proof (induction ps arbitrary: l s)
  case (Cons p ps)
  from Cons.prems obtain interval same where f: "iv_get s (Some iv) = Some interval"
    "chain_find (nextInInterval s) (\<lambda>w. map_option (\<lambda>n. w_pageIndex n = p) (wn_get s (Some w))) (i_notices interval) = Some same"
    by (auto simp: incorporate_notices.simps(2) split: bind_splits)
  show ?case
  proof (cases same)
    case (Some x)
    with Cons.prems f have "incorporate_notices ps h iv l s = Some t"
      by (simp add: incorporate_notices.simps(2))
    then show ?thesis by (rule Cons.IH)
  next
    case None
    with Cons.prems f obtain k u v n where u: "invalidate_page k s = Some u"
      and v: "(case l of None \<Rightarrow> iv_upd (Some iv) (\<lambda>i. i\<lparr>i_notices := Some (length (wns u))\<rparr>)
          (page_upd k (\<lambda>p. p\<lparr>p_notices := (p_notices p)(h := Some (length (wns u)))\<rparr>) (u\<lparr>wns := wns u @ [n]\<rparr>))
        | Some l \<Rightarrow> wn_upd (Some l) (\<lambda>w. w\<lparr>w_nextInInterval := Some (length (wns u))\<rparr>)
          (page_upd k (\<lambda>p. p\<lparr>p_notices := (p_notices p)(h := Some (length (wns u)))\<rparr>) (u\<lparr>wns := wns u @ [n]\<rparr>))) = Some v"
      and t: "incorporate_notices ps h iv (Some (length (wns u))) v = Some t"
      by (auto simp: incorporate_notices.simps(2) Let_def split: bind_splits)
    let ?w = "page_upd k (\<lambda>p. p\<lparr>p_notices := (p_notices p)(h := Some (length (wns u)))\<rparr>) (u\<lparr>wns := wns u @ [n]\<rparr>)"
    have "heap_frame u ?w" by (blast intro: heap_frame_trans heap_frame_steps)
    moreover have "heap_frame ?w v" using v heap_frame_upd by (cases l) fastforce+
    ultimately show ?thesis
      using heap_frame_invalidate [OF u] Cons.IH [OF t] by (blast intro: heap_frame_trans)
  qed
qed simp

lemma heap_frame_packet [heap_frames]: "incorporateWnPacket pk s = Some (r, t) \<Longrightarrow> heap_frame s t"
proof (cases pk)
  case (Some q)
  assume run: "incorporateWnPacket pk s = Some (r, t)"
  let ?new = "\<lambda>h found. case found of
      Some k \<Rightarrow> do {
        interval \<leftarrow> iv_get s (Some k);
        lastwn \<leftarrow> (case i_notices interval of None \<Rightarrow> Some None
                   | Some w \<Rightarrow> map_option Some (chain_last (nextInInterval s) w));
        Some (k, lastwn, s) }
    | None \<Rightarrow> do { (k, s) \<leftarrow> push_interval h (empty_interval\<lparr>i_timestamp := k_timestamp q\<rparr>) s;
               Some (k, None, s) }"
  from run Some obtain h found iv l u where u: "?new h found = Some (iv, l, u)"
    and n: "incorporate_notices (take (nat (k_wnCount q)) (k_wnArray q)) h iv l u = Some t"
    by (auto simp: incorporateWnPacket_def elim!: bindE split: prod.split_asm if_split_asm)
  have "heap_frame s u"
    using u by (cases found) (auto split: bind_splits option.splits intro: heap_frame_push)
  then show ?thesis using heap_frame_notices [OF n] heap_frame_trans by blast
qed (simp add: incorporateWnPacket_def)

text \<open>Consequences for the fields of the other modules.\<close>

lemma heap_frame_fields:
  assumes "heap_frame s t"
  shows "hostnum t = hostnum s" "myhostid t = myhostid s" "intervalNow t = intervalNow s"
    "barrierTimestamps t = barrierTimestamps s" "locks t = locks s" "waitFlag t = waitFlag s"
    "myLocks t = myLocks s" "lasthostid t = lasthostid s" "barrierFlags t = barrierFlags s" "wire t = wire s"
    "recvQueue t = recvQueue s" "recvHead t = recvHead s" "recvTail t = recvTail s"
    "recvQueueSize t = recvQueueSize s" "fetchWNIWaitFlag t = fetchWNIWaitFlag s"
    "fetchPageWaitFlag t = fetchPageWaitFlag s" "fetchDiffWaitFlag t = fetchDiffWaitFlag s"
  using assms by (cases s; cases t; simp add: heap_frame_def)+

end
