(* ===== verification/Writes.thy ===== *)
theory Writes
  imports Incorporate Frames
begin

text \<open>
  Local writes and new intervals: the first write to a readable page (the \<open>RDONLY\<close> branch of
  \<open>segv_handler\<close>) and \<open>addNewInterval\<close> (\<open>src/mem.c\<close>), on states that satisfy the invariant of the
  memory module.
\<close>

section \<open>The first write to a page\<close>

definition write_fault :: "int \<Rightarrow> mem_st \<Rightarrow> mem_st option" where
  "write_fault pageIndex s =
     do { (_, s) \<leftarrow> createTwinPage pageIndex s;
          (_, s) \<leftarrow> createWriteNotice pageIndex s;
          let s = page_upd (nat pageIndex) (\<lambda>p. p\<lparr>p_state := WRITE\<rparr>) s;
          Some (vm_mprotect (p_address (pageArray s (nat pageIndex))) PROT_READ_WRITE s) }"

lemma createWriteNotice_eq:
  assumes links: "links_ok L W P s" and host: "host_ok s" and k: "k < MAX_PAGE_NUM"
    and st: "p_state (pageArray s k) = RDONLY" and now: "intervalNow s = Some i" "i \<in> set (L (me s))"
  shows "createWriteNotice (int k) s = Some (0, attach_notice k (me s) i (last_notice (W i)) s)"
proof -
  note h = host_ok_me(1,2) [OF host]
  have il: "i < length (ivals s)" using links_interval_alloc [OF links h(1) now(2)] .
  have alloc: "w < length (wns s)" if "w \<in> set (W i)" for w
    using links_notice_alloc(1) [OF links il that] .
  have ch: "chain (nextInInterval s) (i_notices (ivals s ! i)) (W i)"
    using links_chain_notices [OF links il] .
  show ?thesis
  proof (cases "W i")
    case Nil
    with ch show ?thesis
      using k st now h il
      by (simp add: createWriteNotice_def attach_notice_def last_notice_def iv_get_def iv_upd_def
          page_upd_def Let_def)
  next
    case (Cons w ws)
    let ?new = "\<lparr>w_interval = Some i, w_nextInPage = p_notices (pageArray s k) (me s),
      w_nextInInterval = None, w_diffAddress = None, w_pageIndex = int k\<rparr>"
    let ?u = "page_upd k (\<lambda>p. p\<lparr>p_notices := (p_notices p)(me s := Some (length (wns s)))\<rparr>)
      (s\<lparr>wns := wns s @ [?new]\<rparr>)"
    have c: "chain (nextInInterval s) (Some w) (W i)" "i_notices (ivals s ! i) = Some w"
      using ch Cons by simp_all
    have "chain (nextInInterval ?u) p (W i) = chain (nextInInterval s) p (W i)" for p
      using alloc by (intro chain_cong) (auto simp: nextInInterval_eq page_upd_def nth_append less_Suc_eq)
    then have "chain_last (nextInInterval ?u) w = Some (last (W i))"
      using c(1) by (intro chain_last_eq) simp
    moreover have "last (W i) < length (wns s)" using alloc Cons by simp
    ultimately show ?thesis
      using k st now h il Cons c(2)
      by (simp add: createWriteNotice_def attach_notice_def last_notice_def iv_get_def wn_upd_def
          page_upd_def Let_def nth_append list_update_append)
  qed
qed

text \<open>What the operations on memory leave alone.\<close>

lemma net_part [simp]:
  "quiet (page_upd k f s) = quiet s" "wire (page_upd k f s) = wire s"
  "quiet (vm_mprotect a p s) = quiet s" "wire (vm_mprotect a p s) = wire s"
  "quiet (attach_notice j h i l s) = quiet s" "wire (attach_notice j h i l s) = wire s"
  by (auto simp: quiet_def snd_ok_def page_upd_def vm_mprotect_def attach_notice_def Let_def
      split: option.splits)

lemma write_fault_ok:
  assumes ok: "mem_ok L W P s" and k: "k < MAX_PAGE_NUM" and st: "p_state (pageArray s k) = RDONLY"
    and now: "intervalNow s = Some i"
  defines "n \<equiv> length (wns s)"
  shows "\<exists>t bs. write_fault (int k) s = Some t \<and>
    mem_ok L (W(i := W i @ [n])) (P(k := (P k)(me s := n # P k (me s)))) t \<and>
    vm s (page_addr k) = Some (PROT_READ, bs) \<and> vm t = (vm s)(page_addr k \<mapsto> (PROT_READ_WRITE, bs)) \<and>
    p_state (pageArray t k) = WRITE \<and> p_twinPage (pageArray t k) = Some bs \<and>
    (\<forall>j. j \<noteq> k \<longrightarrow> p_state (pageArray t j) = p_state (pageArray s j) \<and>
       p_twinPage (pageArray t j) = p_twinPage (pageArray s j)) \<and>
    (\<forall>g<MAX_HOST_NUM. \<forall>j\<in>set (L g). entry_of (W(i := W i @ [n])) t j =
       (if j = i then (fst (entry_of W s i), snd (entry_of W s i) @ [int k]) else entry_of W s j)) \<and>
    hostnum t = hostnum s \<and> myhostid t = myhostid s \<and> intervalNow t = intervalNow s \<and>
    quiet t = quiet s \<and> wire t = wire s"
proof -
  note links = mem_ok_simps(2) [OF ok]
  have h: "host_ok s" "me s < MAX_HOST_NUM" using ok host_ok_me by (auto simp: mem_ok_def)
  have i: "i \<in> set (L (me s))" using ok now by (auto simp: mem_ok_def)
  let ?p = "pageArray s k" and ?P = "P(k := (P k)(me s := n # P k (me s)))" and ?W = "W(i := W i @ [n])"
  obtain bs where bs: "vm s (page_addr k) = Some (PROT_READ, bs)" "length bs = PAGESIZE"
    "p_address ?p = page_addr k" "p_twinPage ?p = None" "list_all (has_diff s) (P k (me s))"
    using mem_ok_simps(3) [OF ok k] st by (auto simp: page_ok_def mapped_def Let_def)
  define a where "a = attach_notice k (me s) i (last_notice (W i)) s"
  have links_a: "links_ok L ?W ?P a"
    unfolding a_def n_def by (rule attach_notice_links [OF links k h(2) i])
  define u where "u = page_upd k (\<lambda>p. p\<lparr>p_twinPage := Some bs\<rparr>) s"
  define t where "t = vm_mprotect (page_addr k) PROT_READ_WRITE (page_upd k (\<lambda>p. p\<lparr>p_state := WRITE\<rparr>)
    (attach_notice k (me s) i (last_notice (W i)) u))"
  have twin: "createTwinPage (int k) s = Some (0, u)"
    using k st bs by (simp add: createTwinPage_def vm_read_def u_def Let_def)
  have uf: "p_state (pageArray u k) = RDONLY" "intervalNow u = Some i" "me u = me s" "same_links s u"
    "hostnum u = hostnum s" "myhostid u = myhostid s" "vm u = vm s" "wns u = wns s" "ivals u = ivals s"
    "p_address (pageArray u k) = page_addr k"
    using st now bs by (simp_all add: u_def page_upd_def me_def same_links_def)
  have notice: "createWriteNotice (int k) u = Some (0, attach_notice k (me s) i (last_notice (W i)) u)"
    using createWriteNotice_eq [OF links_ok_same [OF uf(4) links] _ k uf(1,2)] i h(1)
    by (simp add: uf host_ok_def)
  have e: "write_fault (int k) s = Some t"
    using twin notice uf(10) by (simp add: write_fault_def t_def attach_notice_frame page_upd_def)
  define v where "v = attach_notice k (me s) i (last_notice (W i)) u"
  have v: "vm v = vm s" "p_state (pageArray v j) = p_state (pageArray u j)"
    "p_address (pageArray v j) = p_address (pageArray u j)"
    "p_twinPage (pageArray v j) = p_twinPage (pageArray u j)" for j
    by (simp_all add: v_def attach_notice_frame uf)
  have links_v: "links_ok L ?W ?P v"
    unfolding v_def n_def using attach_notice_links [OF links_ok_same [OF uf(4) links] k h(2) i]
    by (simp add: uf)
  have t: "vm t = (vm s)(page_addr k \<mapsto> (PROT_READ_WRITE, bs))" "wns t = wns v" "ivals t = ivals v"
    "pageArray t = (pageArray v)(k := (pageArray v k)\<lparr>p_state := WRITE\<rparr>)" "procArray t = procArray v"
    "hostnum t = hostnum s" "myhostid t = myhostid s" "intervalNow t = Some i"
    using bs uf v(1) by (simp_all add: t_def v_def [symmetric] page_upd_def vm_mprotect_vm)
      (simp_all add: v_def attach_notice_frame uf)
  have me: "me t = me s" by (simp add: me_def t)
  have wd: "w_diffAddress (wns t ! w) = w_diffAddress (wns s ! w)" if "w < n" for w
    using attach_notice_wns(1) [of w u] that by (simp add: t v_def uf n_def)
  have new: "w_diffAddress (wns t ! n) = None"
    using attach_notice_wns(3) [where s = u] by (simp add: t v_def uf n_def)
  have alloc: "w < n" if "w \<in> set (P j (me s))" "j < MAX_PAGE_NUM" for w j
    using links_page_alloc(1) [OF links that(2) h(2) that(1)] by (simp add: n_def)
  have pa: "p_state (pageArray t j) = (if j = k then WRITE else p_state (pageArray s j))"
    "p_address (pageArray t j) = p_address (pageArray s j)"
    "p_twinPage (pageArray t j) = (if j = k then Some bs else p_twinPage (pageArray s j))" for j
    by (simp_all add: t(4) v) (simp_all add: u_def page_upd_def)
  have "page_ok ?P t j" if j: "j < MAX_PAGE_NUM" for j
  proof (cases "j = k")
    case True
    have "list_all (has_diff t) (P k (me s))"
      using bs(5) wd alloc [OF _ k] by (auto simp: list_all_iff has_diff_def)
    with True show ?thesis
      using bs new by (simp add: page_ok_def pa t(1) me mapped_def Let_def)
  next
    case False
    have "page_ok ?P t j = page_ok P s j"
      by (rule page_ok_cong) (use False t(1) me wd alloc [OF _ j] in \<open>auto simp: pa\<close>)
    with mem_ok_simps(3) [OF ok j] show ?thesis by simp
  qed
  moreover have "\<forall>iv\<in>set (ivals t). ts_ok (i_timestamp iv)"
    using ts_ok_map [OF attach_notice_frame(10)] ok by (simp add: t v_def uf mem_ok_def)
  moreover have "links_ok L ?W ?P t"
    by (rule links_ok_same [OF _ links_v]) (simp add: same_links_def t)
  ultimately have ok_t: "mem_ok L ?W ?P t"
    using h(1) i by (simp add: mem_ok_def t me host_ok_def)
  have "entry_of ?W t j = (if j = i then (fst (entry_of W s i), snd (entry_of W s i) @ [int k])
      else entry_of W s j)" if "g < MAX_HOST_NUM" "j \<in> set (L g)" for g j
  proof -
    have "entry_of ?W t j = entry_of ?W v j" by (simp add: entry_of_def t)
    also have "\<dots> = (if j = i then (fst (entry_of W u i), snd (entry_of W u i) @ [int k])
        else entry_of W u j)"
      using attach_entry [OF links_ok_same [OF uf(4) links] that] by (simp add: v_def uf n_def)
    finally show ?thesis by (simp add: entry_of_def uf)
  qed
  moreover have "quiet t = quiet s" "wire t = wire s" by (simp_all add: t_def u_def)
  ultimately show ?thesis using e ok_t bs(1) t(1,6,7,8) pa by (auto simp: now)
qed

section \<open>States with the same memory\<close>

definition same_mem :: "mem_st \<Rightarrow> mem_st \<Rightarrow> bool" where
  "same_mem s t \<longleftrightarrow> pageArray t = pageArray s \<and> procArray t = procArray s \<and> ivals t = ivals s \<and>
     wns t = wns s \<and> vm t = vm s \<and> hostnum t = hostnum s \<and> myhostid t = myhostid s \<and>
     intervalNow t = intervalNow s \<and> pagenum t = pagenum s \<and> globalAddress t = globalAddress s \<and>
     barrierTimestamps t = barrierTimestamps s"

lemma same_mem_refl [simp]: "same_mem s s"
  by (simp add: same_mem_def)

lemma same_mem_trans: "same_mem s t \<Longrightarrow> same_mem t u \<Longrightarrow> same_mem s u"
  by (simp add: same_mem_def)

lemma same_mem_me: "same_mem s t \<Longrightarrow> me t = me s"
  by (simp add: same_mem_def me_def)

text \<open>The invariant reads the heap, the pages and the numbers of the hosts only.\<close>

definition same_heap :: "mem_st \<Rightarrow> mem_st \<Rightarrow> bool" where
  "same_heap s t \<longleftrightarrow> pageArray t = pageArray s \<and> procArray t = procArray s \<and> ivals t = ivals s \<and>
     wns t = wns s \<and> vm t = vm s \<and> hostnum t = hostnum s \<and> myhostid t = myhostid s \<and>
     intervalNow t = intervalNow s"

lemma mem_ok_same_heap:
  assumes "same_heap s t"
  shows "mem_ok L W P t = mem_ok L W P s"
proof -
  have "page_ok P t k = page_ok P s k" for k
    by (rule page_ok_cong) (use assms in \<open>auto simp: same_heap_def me_def\<close>)
  moreover have "nextI t = nextI s" "prevI t = prevI s" "nextInPage t = nextInPage s"
    "nextInInterval t = nextInInterval s" "me t = me s"
    using assms by (auto simp: same_heap_def link_reads me_def fun_eq_iff)
  moreover from this have "links_ok L W P t = links_ok L W P s"
    using assms by (simp add: links_ok_def interval_lists_def notice_lists_def page_lists_def same_heap_def)
  ultimately show ?thesis
    using assms by (simp add: mem_ok_def host_ok_def same_heap_def)
qed

lemma host_log_same_heap: "same_heap s t \<Longrightarrow> host_log L W t = host_log L W s"
  by (simp add: host_log_def entry_of_def same_heap_def fun_eq_iff)

lemma same_mem_heap: "same_mem s t \<Longrightarrow> same_heap s t"
  by (simp add: same_mem_def same_heap_def)

lemmas mem_ok_same_mem = mem_ok_same_heap [OF same_mem_heap]

lemma alloc_ok_same_mem: "same_mem s t \<Longrightarrow> alloc_ok t = alloc_ok s"
  by (simp add: alloc_ok_def same_mem_def)

lemmas host_log_same_mem = host_log_same_heap [OF same_mem_heap]

lemma same_mem_net_frame: "net_frame s t \<Longrightarrow> same_mem s t"
  by (cases s; cases t) (simp add: net_frame_def same_mem_def)

lemma mem_ok_intervalNow:
  assumes "mem_ok L W P s" "i \<in> set (L (me s))"
  shows "mem_ok L W P (s\<lparr>intervalNow := Some i\<rparr>)"
proof -
  let ?t = "s\<lparr>intervalNow := Some i\<rparr>"
  have "page_ok P ?t k = page_ok P s k" for k
    by (rule page_ok_cong) (auto simp: me_def)
  moreover have "links_ok L W P ?t"
    by (rule links_ok_same [OF _ mem_ok_simps(2) [OF assms(1)]]) (simp add: same_links_def)
  ultimately show ?thesis
    using assms by (simp add: mem_ok_def host_ok_def me_def)
qed

section \<open>A new local interval\<close>

lemma local_interval_ok:
  assumes ok: "mem_ok L W P s"
    and iv: "i_notices iv = None" "i_prev iv = None" "ts_ok (i_timestamp iv)"
  defines "n \<equiv> length (ivals s)" and "h \<equiv> me s"
  shows "\<exists>t. push_interval h iv s = Some (n, t) \<and>
    mem_ok (L(h := n # L h)) (W(n := [])) P (t\<lparr>intervalNow := Some n\<rparr>) \<and>
    (\<forall>g<MAX_HOST_NUM. host_log (L(h := n # L h)) (W(n := [])) t g =
       (if g = h then (i_timestamp iv, []) # host_log L W s g else host_log L W s g)) \<and>
    pageArray t = pageArray s \<and> wns t = wns s \<and> hostnum t = hostnum s \<and> myhostid t = myhostid s \<and>
    vm t = vm s \<and> length (ivals t) = Suc n \<and> i_timestamp (ivals t ! n) = i_timestamp iv"
proof -
  note links = mem_ok_simps(2) [OF ok]
  have h: "h < MAX_HOST_NUM" using ok host_ok_me by (auto simp: mem_ok_def h_def)
  obtain t where t: "push_interval h iv s = Some (n, t)" "mem_ok (L(h := n # L h)) (W(n := [])) P t"
    "entry_of (W(n := [])) t n = (i_timestamp iv, [])"
    "\<forall>g<MAX_HOST_NUM. \<forall>j\<in>set (L g). entry_of (W(n := [])) t j = entry_of W s j"
    "pageArray t = pageArray s" "wns t = wns s" "me t = me s" "hostnum t = hostnum s"
    "myhostid t = myhostid s" "vm t = vm s"
    using push_interval_ok [OF ok h iv] unfolding n_def by auto
  have "mem_ok (L(h := n # L h)) (W(n := [])) P (t\<lparr>intervalNow := Some n\<rparr>)"
    using mem_ok_intervalNow [OF t(2), of n] t(7) by (simp add: h_def)
  moreover have "host_log (L(h := n # L h)) (W(n := [])) t g =
      (if g = h then (i_timestamp iv, []) # host_log L W s g else host_log L W s g)"
    if "g < MAX_HOST_NUM" for g
    using t(3,4) that by (auto simp: host_log_def)
  moreover have "length (ivals t) = Suc n"
    using t(1) push_interval_eq [OF links h] by (auto simp: n_def split: list.splits)
  moreover have "i_timestamp (ivals t ! n) = i_timestamp iv"
    using t(3) by (simp add: entry_of_def)
  ultimately show ?thesis using t by auto
qed

text \<open>The interval \<open>addNewInterval\<close> starts: the newest local timestamp with the own component counted up.\<close>

definition next_ts :: "mem_st \<Rightarrow> timestamp \<Rightarrow> timestamp" where
  "next_ts s t = (take (nat (hostnum s)) t @ replicate (MAX_HOST_NUM - nat (hostnum s)) 0)
     [me s := s32 (t ! me s + 1)]"

lemma next_ts_ok:
  assumes "ts_ok t" "host_ok s"
  shows "ts_ok (next_ts s t)"
    "copy_ts (hostnum s) t = Some (take (nat (hostnum s)) t @ replicate (MAX_HOST_NUM - nat (hostnum s)) 0)"
    "(take (nat (hostnum s)) t @ replicate (MAX_HOST_NUM - nat (hostnum s)) 0) ! me s = t ! me s"
proof -
  have l: "length t = MAX_HOST_NUM" "nat (hostnum s) \<le> MAX_HOST_NUM" "me s < nat (hostnum s)"
    using assms by (auto simp: ts_ok_def host_ok_def me_def)
  have "list_all in32 (take (nat (hostnum s)) t @ replicate (MAX_HOST_NUM - nat (hostnum s)) 0)"
    using assms(1) by (auto simp: ts_ok_def list_all_iff in32_def dest: in_set_takeD)
  then show "ts_ok (next_ts s t)"
    using l by (auto simp: ts_ok_def next_ts_def list_all_length nth_update)
  show "copy_ts (hostnum s) t = Some (take (nat (hostnum s)) t @ replicate (MAX_HOST_NUM - nat (hostnum s)) 0)"
    using l by (simp add: copy_ts_def)
  show "(take (nat (hostnum s)) t @ replicate (MAX_HOST_NUM - nat (hostnum s)) 0) ! me s = t ! me s"
    using l by (simp add: nth_append)
qed

lemma next_ts_after:
  assumes "ts_ok t" "host_ok s" "t ! me s < 2147483647"
  shows "ts_after (nat (hostnum s)) (next_ts s t) t"
proof -
  have l: "length t = MAX_HOST_NUM" "nat (hostnum s) \<le> MAX_HOST_NUM" "me s < nat (hostnum s)"
    using assms by (auto simp: ts_ok_def host_ok_def me_def)
  have "in32 (t ! me s)" using assms(1) l by (simp add: ts_ok_def list_all_length)
  then have "s32 (t ! me s + 1) = t ! me s + 1" using assms(3) by (simp add: in32_def)
  then show ?thesis
    using l by (auto simp: ts_after_def next_ts_def nth_append nth_list_update intro!: exI [of _ "me s"])
qed

lemma addNewInterval_ok:
  assumes ok: "mem_ok L W P s" and j: "L (me s) = j # js"
  defines "n \<equiv> length (ivals s)" and "h \<equiv> me s"
  defines "ts \<equiv> next_ts s (i_timestamp (ivals s ! j))"
  shows "\<exists>t. addNewInterval s = Some t \<and> mem_ok (L(h := n # L h)) (W(n := [])) P t \<and>
    intervalNow t = Some n \<and> i_timestamp (ivals t ! n) = ts \<and>
    (\<forall>g<MAX_HOST_NUM. host_log (L(h := n # L h)) (W(n := [])) t g =
       (if g = h then (ts, []) # host_log L W s g else host_log L W s g)) \<and>
    pageArray t = pageArray s \<and> wns t = wns s \<and> vm t = vm s \<and> hostnum t = hostnum s \<and>
    myhostid t = myhostid s \<and> isSigioDisabled t = 0"
proof -
  let ?s = "disableSigio s"
  have sm: "same_mem s ?s" by (simp add: same_mem_def disableSigio_def)
  have ok': "mem_ok L W P ?s" using ok mem_ok_same_mem [OF sm] by simp
  note links = mem_ok_simps(2) [OF ok]
  have h: "host_ok s" "h < MAX_HOST_NUM" "aidx (myhostid s) MAX_HOST_NUM = Some h"
    using ok host_ok_me by (auto simp: mem_ok_def h_def)
  have jl: "j < length (ivals s)" using links_interval_alloc [OF links h(2), of j] j by (simp add: h_def)
  have p: "pr_intervalList (procArray s h) = Some j"
    using links_chain_intervals [OF links h(2)] j by (simp add: h_def)
  have tok: "ts_ok (i_timestamp (ivals s ! j))" using ok jl by (simp add: mem_ok_def)
  note nts = next_ts_ok [OF tok h(1)]
  let ?iv = "empty_interval\<lparr>i_timestamp := ts\<rparr>"
  have iv: "i_notices ?iv = None" "i_prev ?iv = None" "ts_ok (i_timestamp ?iv)"
    using nts(1) by (simp_all add: empty_interval_def ts_def)
  obtain u where u: "push_interval h ?iv ?s = Some (n, u)"
    "mem_ok (L(h := n # L h)) (W(n := [])) P (u\<lparr>intervalNow := Some n\<rparr>)"
    "\<forall>g<MAX_HOST_NUM. host_log (L(h := n # L h)) (W(n := [])) u g =
       (if g = h then (ts, []) # host_log L W ?s g else host_log L W ?s g)"
    "pageArray u = pageArray s" "wns u = wns s" "hostnum u = hostnum s" "myhostid u = myhostid s"
    "vm u = vm s" "i_timestamp (ivals u ! n) = ts"
    using local_interval_ok [OF ok' iv] same_mem_me [OF sm]
    by (auto simp: n_def h_def disableSigio_def)
  let ?t = "enableSigio (u\<lparr>intervalNow := Some n\<rparr>)"
  have e: "addNewInterval s = Some ?t"
    using h(3) p jl nts(2,3) u(1)
    by (simp add: addNewInterval_def iv_get_def ts_def next_ts_def h_def disableSigio_def Let_def)
  have "same_mem (u\<lparr>intervalNow := Some n\<rparr>) ?t" by (simp add: same_mem_def enableSigio_def)
  then have "mem_ok (L(h := n # L h)) (W(n := [])) P ?t" using u(2) mem_ok_same_mem by blast
  moreover have "host_log K V ?t = host_log K V u" for K V
    by (simp add: host_log_def entry_of_def enableSigio_def fun_eq_iff)
  moreover have "host_log L W ?s = host_log L W s" by (rule host_log_same_mem [OF sm])
  ultimately show ?thesis
    using e u by (intro exI [of _ ?t]) (simp add: enableSigio_def)
qed

section \<open>A sample state\<close>

text \<open>Host 0 of 3 after start-up and the allocation of one page, which it owns.\<close>

definition sample :: mem_st where
  "sample = snd (the (mi_alloc 4096 (boot 0 3)))"

abbreviation first_L :: "nat \<Rightarrow> nat list" where
  "first_L \<equiv> (\<lambda>g. if g = nat 0 then [0] else [])"

lemma sample_ok:
  "mem_ok first_L (\<lambda>_. []) (\<lambda>_ _. []) sample" "alloc_ok sample" "p_state (pageArray sample 0) = RDONLY"
  "intervalNow sample = Some 0" "hostnum sample = 3" "myhostid sample = 0" "me sample = 0"
  "ivals sample = [empty_interval\<lparr>i_isBarrier := 1\<rparr>]" "wns sample = []"
  "vm sample (page_addr 0) = Some (PROT_READ, replicate PAGESIZE 0)" "quiet sample" "wire sample = []"
  "k < LOCK_NUM \<Longrightarrow> locks sample k = free_lock"
  "barrierTimestamps sample = barrierTimestamps (boot 0 3)" "pagenum sample = 1"
proof -
  have b: "alloc_ok (boot 0 3)" "pagenum (boot 0 3) = 0" "globalAddress (boot 0 3) = 0"
    "hostnum (boot 0 3) = 3" "myhostid (boot 0 3) = 0"
    using boot_ok [of 0 3] by (simp_all add: MAX_HOST_NUM_def alloc_ok_def)
  obtain r t where rt: "mi_alloc 4096 (boot 0 3) = Some (r, t)" "mem_ok first_L (\<lambda>_. []) (\<lambda>_ _. []) t"
    "alloc_ok t" "\<exists>n. 4096 \<le> int n * int PAGESIZE \<and> int n * int PAGESIZE < 4096 + int PAGESIZE \<and>
      allocated n (boot 0 3) t"
    using mi_alloc_ok [OF boot_sample b(1), of 4096] b by (auto simp: PAGESIZE_def MAX_MEM_SIZE_def)
  then have s: "sample = t" by (simp add: sample_def)
  have a: "allocated 1 (boot 0 3) sample"
  proof -
    obtain n where n: "4096 \<le> int n * int PAGESIZE" "int n * int PAGESIZE < 4096 + int PAGESIZE"
      "allocated n (boot 0 3) t"
      using rt(4) by blast
    then have "n = 1" by (simp add: PAGESIZE_def)
    with n(3) s show ?thesis by simp
  qed
  obtain f v where fv: "sample = (boot 0 3)\<lparr>pageArray := f, vm := v, pagenum := 1,
      globalAddress := int PAGESIZE\<rparr>" "f 0 = new_page (boot 0 3) 0"
    "v (page_addr 0) = Some (PROT_READ, replicate PAGESIZE 0)"
    using a b by (auto simp: allocated_def elim!: allE [of _ 0])
  show "mem_ok first_L (\<lambda>_. []) (\<lambda>_ _. []) sample" "alloc_ok sample" using rt s by simp_all
  show "p_state (pageArray sample 0) = RDONLY" "vm sample (page_addr 0) = Some (PROT_READ, replicate PAGESIZE 0)"
    "hostnum sample = 3" "myhostid sample = 0" "me sample = 0"
    using fv(3) b by (simp_all add: fv(1) fv(2) new_page_def me_def)
  show "intervalNow sample = Some 0" "ivals sample = [empty_interval\<lparr>i_isBarrier := 1\<rparr>]" "wns sample = []"
    using boot_ok [of 0 3] by (simp_all add: fv(1) MAX_HOST_NUM_def)
  show "quiet sample" "wire sample = []" "k < LOCK_NUM \<Longrightarrow> locks sample k = free_lock"
    using boot_ok(10,11,12) [of 0 3] by (auto simp: fv(1) MAX_HOST_NUM_def quiet_def snd_ok_def)
  show "barrierTimestamps sample = barrierTimestamps (boot 0 3)" "pagenum sample = 1" by (simp_all add: fv(1))
qed

section \<open>A host that has written\<close>

lemma heap_frame_write_fault: "write_fault p s = Some t \<Longrightarrow> heap_frame s t"
proof -
  have twin: "createTwinPage p s = Some (r, u) \<Longrightarrow> heap_frame s u" for r s u
    by (auto simp: createTwinPage_def Let_def elim!: bindE split: if_split_asm intro: heap_frames)
  have notice: "createWriteNotice p s = Some (r, u) \<Longrightarrow> heap_frame s u" for r s u
    by (auto simp: createWriteNotice_def Let_def elim!: bindE split: if_split_asm option.split_asm
        dest!: heap_frame_upd heap_frame_alloc)
  have mark: "heap_frame s (vm_mprotect a pr (page_upd k f s))" for a pr k f s
    by (blast intro: heap_frame_trans heap_frame_steps)
  assume "write_fault p s = Some t"
  then obtain x y where xy: "createTwinPage p s = Some x" "createWriteNotice p (snd x) = Some y"
    "t = vm_mprotect (p_address (pageArray (page_upd (nat p) (\<lambda>p. p\<lparr>p_state := WRITE\<rparr>) (snd y)) (nat p))) PROT_READ_WRITE
      (page_upd (nat p) (\<lambda>p. p\<lparr>p_state := WRITE\<rparr>) (snd y))"
    by (auto simp: write_fault_def Let_def elim!: bindE split: prod.split_asm)
  have "heap_frame s (snd x)" "heap_frame (snd x) (snd y)"
    using twin [of s "fst x" "snd x"] notice [of "snd x" "fst y" "snd y"] xy(1,2) by simp_all
  then show ?thesis unfolding xy(3) using mark heap_frame_trans by metis
qed

text \<open>Host 0 of 3 after its first write to the page of \<^const>\<open>sample\<close>.\<close>

definition written :: mem_st where
  "written = the (write_fault 0 sample)"

abbreviation written_W :: "nat \<Rightarrow> nat list" where
  "written_W \<equiv> (\<lambda>i. if i = 0 then [0] else [])"

abbreviation written_P :: "nat \<Rightarrow> nat \<Rightarrow> nat list" where
  "written_P \<equiv> (\<lambda>k h. if k = 0 \<and> h = 0 then [0] else [])"

lemma written_ok:
  "write_fault 0 sample = Some written" "mem_ok first_L written_W written_P written"
  "vm written (page_addr 0) = Some (PROT_READ_WRITE, replicate PAGESIZE 0)" "p_state (pageArray written 0) = WRITE"
  "p_twinPage (pageArray written 0) = Some (replicate PAGESIZE 0)" "hostnum written = 3" "myhostid written = 0"
  "me written = 0" "quiet written" "wire written = []"
  "g < MAX_HOST_NUM \<Longrightarrow> host_log first_L written_W written g = (if g = 0 then [(zero_ts, [0])] else [])"
  "barrierTimestamps written = barrierTimestamps (boot 0 3)"
proof -
  let ?z = "replicate PAGESIZE (0::byte)"
  have WP: "(\<lambda>_. [])(0 := [] @ [0]) = written_W" "(\<lambda>_ _. [])(0 := (\<lambda>_. [])(0 := [0 :: nat])) = written_P"
    by (auto simp: fun_eq_iff)
  have k: "(0::nat) < MAX_PAGE_NUM" by (simp add: MAX_PAGE_NUM_def MAX_MEM_SIZE_def PAGESIZE_def)
  obtain s bs where s: "write_fault (int 0) sample = Some s" "mem_ok first_L written_W written_P s"
    "vm sample (page_addr 0) = Some (PROT_READ, bs)"
    "vm s = (vm sample)(page_addr 0 \<mapsto> (PROT_READ_WRITE, bs))" "p_state (pageArray s 0) = WRITE"
    "p_twinPage (pageArray s 0) = Some bs" "hostnum s = hostnum sample" "myhostid s = myhostid sample"
    "quiet s = quiet sample" "\<forall>g<MAX_HOST_NUM. \<forall>j\<in>set (first_L g). entry_of written_W s j =
       (if j = 0 then (fst (entry_of (\<lambda>_. []) sample 0), snd (entry_of (\<lambda>_. []) sample 0) @ [int 0])
        else entry_of (\<lambda>_. []) sample j)" "wire s = wire sample"
    using write_fault_ok [OF sample_ok(1) k sample_ok(3,4)] unfolding sample_ok(7,9) list.size WP by blast
  have w: "written = s" using s(1) by (simp add: written_def)
  have bs: "bs = ?z" using s(3) sample_ok(10) by simp
  show "write_fault 0 sample = Some written" using s(1) by (simp add: w)
  then have "heap_frame sample written" by (rule heap_frame_write_fault)
  then show "barrierTimestamps written = barrierTimestamps (boot 0 3)"
    using heap_frame_fields(4) sample_ok(14) by simp
  show "mem_ok first_L written_W written_P written" using s(2) by (simp add: w)
  show "vm written (page_addr 0) = Some (PROT_READ_WRITE, ?z)" "p_twinPage (pageArray written 0) = Some ?z"
    using s(4,6) bs by (simp_all add: w)
  show "p_state (pageArray written 0) = WRITE" using s(5) by (simp add: w)
  show "hostnum written = 3" "myhostid written = 0" "me written = 0" "quiet written" "wire written = []"
    using s(7-9,11) by (simp_all add: w sample_ok me_def)
  show "g < MAX_HOST_NUM \<Longrightarrow> host_log first_L written_W written g = (if g = 0 then [(zero_ts, [0])] else [])"
    using s(10) [rule_format, of 0 0]
    by (simp add: w host_log_def MAX_HOST_NUM_def) (simp add: entry_of_def sample_ok(8) empty_interval_def)
qed

section \<open>Properties\<close>

text \<open>C16: The first write to a readable page, for every state that satisfies the invariant: the page
  becomes writable with its bytes unchanged, its twin is a copy of them, one write notice for the page
  is added at the end of the current interval and to the list of the page, and nothing else changes;
  the invariant is kept.\<close>

theorem write_fault_spec:
  assumes "mem_ok L W P s" "k < MAX_PAGE_NUM" "p_state (pageArray s k) = RDONLY" "intervalNow s = Some i"
  shows "\<exists>t bs. write_fault (int k) s = Some t \<and>
    mem_ok L (W(i := W i @ [length (wns s)])) (P(k := (P k)(me s := length (wns s) # P k (me s)))) t \<and>
    p_state (pageArray t k) = WRITE \<and> p_twinPage (pageArray t k) = Some bs \<and>
    vm s (page_addr k) = Some (PROT_READ, bs) \<and> vm t = (vm s)(page_addr k \<mapsto> (PROT_READ_WRITE, bs)) \<and>
    (\<forall>j. j \<noteq> k \<longrightarrow> p_state (pageArray t j) = p_state (pageArray s j)) \<and>
    (\<forall>g<MAX_HOST_NUM. \<forall>j\<in>set (L g). entry_of (W(i := W i @ [length (wns s)])) t j =
       (if j = i then (fst (entry_of W s i), snd (entry_of W s i) @ [int k]) else entry_of W s j))"
  using write_fault_ok [OF assms] by blast

theorem write_fault_spec_witness:
  "\<exists>t. write_fault 0 sample = Some t \<and> p_state (pageArray t 0) = WRITE \<and>
    p_twinPage (pageArray t 0) = Some (replicate PAGESIZE 0)"
  using write_fault_spec [OF sample_ok(1) _ sample_ok(3,4)] sample_ok(10) by auto

text \<open>C18: \<open>addNewInterval\<close> puts an empty interval in front of the list of this host and makes it the
  current one. As long as the own component of the newest timestamp does not overflow, the new
  timestamp is after it in the order of \<open>isAfterInterval\<close>, with only the own component changed among
  those of the hosts; pages, notices and the other logs stay, SIGIO is enabled at the end.\<close>

theorem addNewInterval_spec:
  assumes "mem_ok L W P s" "L (me s) = j # js" "i_timestamp (ivals s ! j) ! me s < 2147483647"
  defines "n \<equiv> length (ivals s)"
  shows "\<exists>t ts. addNewInterval s = Some t \<and> mem_ok (L(me s := n # L (me s))) (W(n := [])) P t \<and>
    intervalNow t = Some n \<and> isSigioDisabled t = 0 \<and>
    isAfterInterval (hostnum s) (Some ts) (Some (i_timestamp (ivals s ! j))) = Some 1 \<and>
    (\<forall>h<nat (hostnum s). ts ! h = i_timestamp (ivals s ! j) ! h + (if h = me s then 1 else 0)) \<and>
    (\<forall>g<MAX_HOST_NUM. host_log (L(me s := n # L (me s))) (W(n := [])) t g =
       (if g = me s then (ts, []) # host_log L W s g else host_log L W s g)) \<and>
    pageArray t = pageArray s \<and> wns t = wns s \<and> vm t = vm s"
proof -
  let ?u = "i_timestamp (ivals s ! j)" let ?ts = "next_ts s ?u"
  have host: "host_ok s" and links: "links_ok L W P s" using assms(1) by (simp_all add: mem_ok_def)
  have "j < length (ivals s)"
    using links_interval_alloc [OF links host_ok_me(1) [OF host], of j] assms(2) by simp
  then have u: "ts_ok ?u" using assms(1) by (simp add: mem_ok_def)
  have l: "length ?u = MAX_HOST_NUM" "nat (hostnum s) \<le> MAX_HOST_NUM" "me s < nat (hostnum s)"
    "length ?ts = MAX_HOST_NUM" "0 \<le> hostnum s"
    using u next_ts_ok(1) [OF u host] host by (auto simp: ts_ok_def host_ok_def me_def)
  have "isAfterInterval (hostnum s) (Some ?ts) (Some ?u) = Some 1"
    using isAfterInterval_eq [of "hostnum s" ?ts ?u] l next_ts_after [OF u host assms(3)] by auto
  moreover have "in32 (?u ! me s)" using u l by (simp add: ts_ok_def list_all_length)
  then have "s32 (?u ! me s + 1) = ?u ! me s + 1" using assms(3) by (simp add: in32_def)
  then have "\<forall>h<nat (hostnum s). ?ts ! h = ?u ! h + (if h = me s then 1 else 0)"
    using l by (simp add: next_ts_def nth_list_update nth_append)
  ultimately show ?thesis
    using addNewInterval_ok [OF assms(1,2)] unfolding n_def by blast
qed

theorem addNewInterval_spec_witness:
  "\<exists>t ts. addNewInterval sample = Some t \<and> intervalNow t = Some 1 \<and>
    isAfterInterval 3 (Some ts) (Some zero_ts) = Some 1"
proof -
  have "i_timestamp (ivals sample ! 0) = zero_ts" by (simp add: sample_ok empty_interval_def)
  moreover have "zero_ts ! 0 = 0" by (simp add: zero_ts_def)
  ultimately show ?thesis
    using addNewInterval_spec [OF sample_ok(1), of 0 "[]"] by (auto simp: sample_ok)
qed
text \<open>C17: No local write is lost to a remote write notice. A page that is being written becomes invalid
  and inaccessible, its bytes stay, and the newest local write notice of the page gets the diff
  against the twin, so that the written bytes can be recovered from the twin's version; a readable
  page only loses its protection bit, any other page is left alone.\<close>

theorem invalidate_keeps_writes:
  assumes "mem_ok L W P s" "k < MAX_PAGE_NUM" "p_state (pageArray s k) = WRITE"
  shows "\<exists>t w bs twin. invalidate_page k s = Some t \<and> mem_ok L W P t \<and>
    p_state (pageArray t k) = INVALID \<and> p_twinPage (pageArray s k) = Some twin \<and>
    vm s (page_addr k) = Some (PROT_READ_WRITE, bs) \<and> vm t (page_addr k) = Some (PROT_NONE, bs) \<and>
    p_notices (pageArray t k) (me s) = Some w \<and>
    (\<exists>d. w_diffAddress (wns t ! w) = Some d \<and> patch twin d = bs)"
proof -
  obtain t bs ts w ws where t: "invalidate_page k s = Some t" "p_notices (pageArray s k) (me s) = Some w"
    "w < length (wns s)" "vm s (page_addr k) = Some (PROT_READ_WRITE, bs)" "length bs = PAGESIZE"
    "p_twinPage (pageArray s k) = Some ts" "length ts = PAGESIZE"
    "t = s\<lparr>pageArray := (pageArray s)(k := (pageArray s k)\<lparr>p_state := INVALID, p_twinPage := None\<rparr>),
        wns := (wns s)[w := (wns s ! w)\<lparr>w_diffAddress := Some (sub_bytes bs ts)\<rparr>],
        vm := (vm s)(page_addr k \<mapsto> (PROT_NONE, bs))\<rparr>"
    using invalidate_write [OF assms] by blast
  moreover have "mem_ok L W P t"
    using invalidate_page_ok [OF assms(1,2)] t(1) by auto
  moreover have "patch ts (sub_bytes bs ts) = bs"
    using page_diff.apply_make [of bs PAGESIZE ts] t by (simp add: patch_eq)
  ultimately show ?thesis by auto
qed


theorem invalidate_keeps_writes_witness:
  "\<exists>s t bs. write_fault 0 sample = Some s \<and> invalidate_page 0 s = Some t \<and>
    p_state (pageArray t 0) = INVALID \<and> vm t (page_addr 0) = Some (PROT_NONE, bs)"
proof -
  obtain s W P where s: "write_fault (int 0) sample = Some s" "mem_ok first_L W P s"
    "p_state (pageArray s 0) = WRITE"
    using write_fault_ok [OF sample_ok(1) _ sample_ok(3,4)] by auto
  with invalidate_keeps_writes [OF s(2) _ s(3)] show ?thesis by auto
qed

end
