(* ===== verification/Messages.thy ===== *)
theory Messages
  imports Sending
begin

text \<open>
  Building a message in the free slot of the sending queue and sending it: the sequence
  \<open>nextFreeMsgInQueue(0)\<close>, assignment of \<open>from\<close>, \<open>to\<close> and \<open>command\<close>, calls of \<open>apendMsgData\<close>,
  \<open>sendMsg\<close> that every request and every reply of the source repeats. \<open>packed\<close> is the message such a
  sequence has built, by the bytes appended so far.
\<close>

section \<open>A new message\<close>

text \<open>\<open>nextFreeMsgInQueue(0)\<close> and the three assignments that follow it everywhere.\<close>

definition new_msg :: "int \<Rightarrow> command_t \<Rightarrow> 'a net_st_scheme \<Rightarrow> (msgref \<times> 'a net_st_scheme) option" where
  "new_msg to cmd s =
     (case nextFreeMsgInQueue 0 s of
        (None, _) \<Rightarrow> None
      | (Some r, s) \<Rightarrow> Some (r, set_msg r ((msg_at s r)\<lparr>m_from := myhostid s, m_to := to,
                                           m_command := cmd_code cmd\<rparr>) s))"

definition packed :: "int \<Rightarrow> int \<Rightarrow> command_t \<Rightarrow> timestamp \<Rightarrow> byte list \<Rightarrow> mimsg_t" where
  "packed from to cmd ts bs = \<lparr>m_from = from, m_to = to, m_command = cmd_code cmd,
     m_size = int (length bs), m_seqno = - 1, m_timestamp = ts, m_data = poke (\<lambda>_. 0) 0 bs\<rparr>"

definition no_ts :: timestamp where
  "no_ts = replicate MAX_HOST_NUM (- 1)"

lemma packed_fields [simp]:
  "m_from (packed from to cmd ts bs) = from" "m_to (packed from to cmd ts bs) = to"
  "m_command (packed from to cmd ts bs) = cmd_code cmd"
  "m_size (packed from to cmd ts bs) = int (length bs)"
  "m_timestamp (packed from to cmd ts bs) = ts" "m_data (packed from to cmd ts bs) = poke (\<lambda>_. 0) 0 bs"
  by (simp_all add: packed_def)

lemma peek_packed:
  "off + n \<le> length bs \<Longrightarrow> peek (poke d 0 bs) off n = take n (drop off bs)"
  by (rule nth_equalityI) (auto simp: poke_def)

lemma wire_packed [simp]:
  "wire_msg ((packed from to cmd ts bs)\<lparr>m_seqno := q\<rparr>) = (packed from to cmd ts bs)\<lparr>m_seqno := q\<rparr>"
  by (simp add: wire_msg_def packed_def poke_def fun_eq_iff)

section \<open>Filling the free slot\<close>

definition fill :: "'a net_st_scheme \<Rightarrow> mimsg_t \<Rightarrow> 'a net_st_scheme" where
  "fill s m = set_msg (SndSlot (sndTail s)) m s"

lemma fill_simps [simp]:
  "sndTail (fill s m) = sndTail s" "fill (fill s m) m' = fill s m'"
  "sndQueue (fill s m) (sndTail s) = m" "msg_at (fill s m) (SndSlot (sndTail s)) = m"
  "set_msg (SndSlot (sndTail s)) m' (fill s m) = fill s m'"
  "hostnum (fill s m) = hostnum s" "myhostid (fill s m) = myhostid s"
  by (simp_all add: fill_def)

lemma fill_frame: "net_frame s (fill s m)"
  by (simp add: fill_def net_frame_def)

lemma quiet_fill [simp]: "quiet (fill s m) = quiet s"
  by (simp add: quiet_def snd_ok_def fill_def)

lemma new_msg_fill:
  "quiet s \<Longrightarrow> new_msg to cmd s = Some (SndSlot (sndTail s), fill s (packed (myhostid s) to cmd no_ts []))"
  by (simp add: new_msg_def nextFree_quiet fill_def packed_def empty_msg_def no_ts_def)

lemma append_fill:
  assumes "0 < len" "nat len \<le> length bs" "int (length as) + len \<le> int DATA_SIZE"
  shows "apendMsgData (Some (SndSlot (sndTail s))) (Some bs) len (fill s (packed from to cmd ts as)) =
    Some (0, fill s (packed from to cmd ts (as @ take (nat len) bs)))"
  using assms poke_append [of "\<lambda>_. 0" 0 as "take (nat len) bs"]
  by (simp add: apendMsgData_def Let_def packed_def del: set_msg.simps)

lemma append_fill_int:
  "length as + 4 \<le> DATA_SIZE \<Longrightarrow>
    apendMsgData (Some (SndSlot (sndTail s))) (Some (int_bytes x)) 4 (fill s (packed from to cmd ts as)) =
    Some (0, fill s (packed from to cmd ts (as @ int_bytes x)))"
  by (subst append_fill) simp_all

text \<open>What is sent: the message with the sequence number of its receiver.\<close>

definition sent_msg :: "'a net_st_scheme \<Rightarrow> int \<Rightarrow> command_t \<Rightarrow> timestamp \<Rightarrow> byte list \<Rightarrow> datagram" where
  "sent_msg s to cmd ts bs = (nat to, dataPorts s (nat to) (nat (myhostid s)),
     (packed (myhostid s) to cmd ts bs)\<lparr>m_seqno := snd_seqs (datamanager s) (nat to)\<rparr>)"

definition in_hosts :: "int \<Rightarrow> bool" where
  "in_hosts h \<longleftrightarrow> 0 \<le> h \<and> h < int MAX_HOST_NUM"

lemma send_fill:
  assumes "quiet s" "in_hosts to" "in_hosts (myhostid s)" "length bs \<le> DATA_SIZE"
  shows "\<exists>s'. sendMsg (Some (SndSlot (sndTail s))) (fill s (packed (myhostid s) to cmd ts bs)) = Some (0, s') \<and>
    quiet s' \<and> net_frame s s' \<and> sent (wire s) (wire s') [sent_msg s to cmd ts bs]"
proof -
  let ?m = "packed (myhostid s) to cmd ts bs"
  have "holding ?m (fill s ?m)" using assms(1) by (simp add: holding_def)
  moreover have "sendable ?m" using assms by (simp add: sendable_def in_hosts_def)
  ultimately obtain s' where s': "sendMsg (Some (SndSlot (sndTail s))) (fill s ?m) = Some (0, s')" "quiet s'"
    "net_frame (fill s ?m) s'" "sent (wire (fill s ?m)) (wire s')
      [dgram (fill s ?m) (?m\<lparr>m_seqno := snd_seqs (datamanager (fill s ?m)) (nat (m_to ?m))\<rparr>)]"
    using sendMsg_quiet [of ?m "fill s ?m"] by auto
  moreover have "dgram (fill s ?m) (?m\<lparr>m_seqno := snd_seqs (datamanager (fill s ?m)) (nat (m_to ?m))\<rparr>) =
      sent_msg s to cmd ts bs" "wire (fill s ?m) = wire s"
    by (simp_all add: dgram_def sent_msg_def fill_def)
  ultimately show ?thesis using net_frame_trans [OF fill_frame s'(3)] by auto
qed

text \<open>A message without data.\<close>

lemma new_send:
  assumes "quiet s" "in_hosts to" "in_hosts (myhostid s)"
  shows "\<exists>s'. Option.bind (new_msg to cmd s) (\<lambda>(r, s). sendMsg (Some r) s) = Some (0, s') \<and>
    quiet s' \<and> net_frame s s' \<and> sent (wire s) (wire s') [sent_msg s to cmd no_ts []]"
  using send_fill [OF assms, of "[]" cmd no_ts] assms(1) by (simp add: new_msg_fill)

end
