(* ===== verification/Protocol.thy ===== *)
theory Protocol
  imports Writes Messages
begin

text \<open>
  The requests and replies of the memory module (\<open>grantWNI\<close>, \<open>grantPage\<close>, \<open>grantDiff\<close> and the
  \<open>handle...Msg\<close> functions of \<open>src/mem.c\<close>), with the layout of their messages in \<open>msg->data\<close>.
\<close>

section \<open>Messages\<close>

text \<open>\<open>wnPacket_t\<close> in memory.\<close>

definition PACKET_SIZE :: nat where "PACKET_SIZE = 4 + 4 * MAX_HOST_NUM + 4 + 4 * MAX_WN_NUM"

definition packet_bytes :: "wnPacket_t \<Rightarrow> byte list" where
  "packet_bytes pk = int_bytes (k_hostid pk) @ ints_bytes (k_timestamp pk) @
     int_bytes (k_wnCount pk) @ ints_bytes (k_wnArray pk)"

definition packet_at :: "buffer \<Rightarrow> nat \<Rightarrow> wnPacket_t" where
  "packet_at d off =
     \<lparr>k_hostid = peek_int d off, k_timestamp = peek_ints d (off + 4) MAX_HOST_NUM,
      k_wnCount = peek_int d (off + 4 + 4 * MAX_HOST_NUM),
      k_wnArray = peek_ints d (off + 8 + 4 * MAX_HOST_NUM) MAX_WN_NUM\<rparr>"

text \<open>\<open>packetNum\<close> packets behind the first \<open>int\<close> of \<open>data\<close>; reading past \<open>data\<close> is undefined.\<close>

definition packets_of :: "buffer \<Rightarrow> wnPacket_t list option" where
  "packets_of d =
     (let n = nat (peek_int d 0) in
      if 4 + PACKET_SIZE * n \<le> DATA_SIZE
      then Some (map (\<lambda>i. packet_at d (4 + PACKET_SIZE * i)) [0..<n]) else None)"

fun incorporate_all :: "wnPacket_t list \<Rightarrow> mem_st \<Rightarrow> mem_st option" where
  "incorporate_all [] s = Some s"
| "incorporate_all (pk # pks) s =
     do { (_, s) \<leftarrow> incorporateWnPacket (Some pk) s; incorporate_all pks s }"

section \<open>Pages\<close>

definition grantPage :: "int \<Rightarrow> int \<Rightarrow> mem_st \<Rightarrow> (int \<times> mem_st) option" where
  "grantPage hostid pageIndex s =
     (if hostid < 0 \<or> hostid \<ge> hostnum s then Some (- 1, s)
      else if hostid = myhostid s then Some (- 1, s)
      else if pageIndex < 0 \<or> pageIndex \<ge> int MAX_PAGE_NUM then Some (- 1, s)
      else let p = pageArray s (nat pageIndex) in
        if p_state p = UNMAP \<or> p_state p = MISS then Some (- 1, s)
        else do {
          (r, s) \<leftarrow> new_msg hostid GRANT_PAGE s;
          (_, s) \<leftarrow> apendMsgData (Some r) (Some (int_bytes pageIndex)) 4 s;
          content \<leftarrow> page_mem p s;
          (_, s) \<leftarrow> apendMsgData (Some r) content (int PAGESIZE) s;
          (_, s) \<leftarrow> sendMsg (Some r) s;
          Some (0, s) })"

definition handleFetchPageMsg :: "mimsg_t \<Rightarrow> mem_st \<Rightarrow> mem_st option" where
  "handleFetchPageMsg msg s = map_option snd (grantPage (m_from msg) (peek_int (m_data msg) 0) s)"

definition handleGrantPageMsg :: "mimsg_t option \<Rightarrow> mem_st \<Rightarrow> mem_st option" where
  "handleGrantPageMsg msg s =
     (case msg of None \<Rightarrow> Some s
      | Some m \<Rightarrow> do {
          k \<leftarrow> aidx (peek_int (m_data m) 0) MAX_PAGE_NUM;
          let addr = p_address (pageArray s k);
          (if addr = 0 then None
           else do {
             s \<leftarrow> vm_write addr (peek (m_data m) 4 PAGESIZE) (vm_mmap addr PROT_READ_WRITE s);
             let s = page_upd k (\<lambda>p. p\<lparr>p_startInterval := intervalNow s\<rparr>) s;
             Some (s\<lparr>fetchPageWaitFlag := 0\<rparr>) }) })"

section \<open>Diffs\<close>

text \<open>The search for the write notice of an interval with a given timestamp, in the list of a page.\<close>

definition find_notice :: "mem_st \<Rightarrow> timestamp \<Rightarrow> ptr \<Rightarrow> ptr option" where
  "find_notice s ts p =
     chain_find (nextInPage s)
       (\<lambda>w. do { n \<leftarrow> wn_get s (Some w); i \<leftarrow> iv_get s (w_interval n); Some (i_timestamp i = ts) }) p"

definition grantDiff :: "int \<Rightarrow> timestamp option \<Rightarrow> int \<Rightarrow> mem_st \<Rightarrow> (int \<times> mem_st) option" where
  "grantDiff hostid ts pageIndex s =
     (if hostid < 0 \<or> hostid \<ge> hostnum s \<or> hostid = myhostid s then Some (- 1, s)
      else case ts of None \<Rightarrow> Some (- 1, s)
      | Some t \<Rightarrow>
        if pageIndex < 0 \<or> pageIndex \<ge> int MAX_PAGE_NUM then Some (- 1, s)
        else let k = nat pageIndex; p = pageArray s k in
          if p_state p = UNMAP \<or> p_state p = MISS then Some (- 1, s)
          else do {
            me \<leftarrow> aidx (myhostid s) MAX_HOST_NUM;
            found \<leftarrow> find_notice s t (p_notices p me);
            (case found of
               None \<Rightarrow> Some (- 2, s)
             | Some w \<Rightarrow> do {
                 n \<leftarrow> wn_get s found;
                 s \<leftarrow> (if w_diffAddress n = None then do {
                        page \<leftarrow> page_mem p s;
                        s \<leftarrow> wn_upd found
                               (\<lambda>n. n\<lparr>w_diffAddress := createLocalDiff page (p_twinPage p)\<rparr>) s;
                        Some (if p_state p = WRITE
                              then vm_mprotect (p_address p) PROT_READ
                                     (page_upd k (\<lambda>p. p\<lparr>p_state := RDONLY\<rparr>)
                                       (snd (freeTwinPage pageIndex s)))
                              else s) }
                      else Some s);
                 (r, s) \<leftarrow> new_msg hostid GRANT_DIFF s;
                 (_, s) \<leftarrow> apendMsgData (Some r) (Some (ints_bytes t)) (int (4 * MAX_HOST_NUM)) s;
                 (_, s) \<leftarrow> apendMsgData (Some r) (Some (int_bytes pageIndex)) 4 s;
                 n \<leftarrow> wn_get s found;
                 (_, s) \<leftarrow> apendMsgData (Some r) (w_diffAddress n) (int PAGESIZE) s;
                 (_, s) \<leftarrow> sendMsg (Some r) s;
                 Some (0, s) }) })"

definition handleFetchDiffMsg :: "mimsg_t \<Rightarrow> mem_st \<Rightarrow> mem_st option" where
  "handleFetchDiffMsg msg s =
     map_option snd (grantDiff (m_from msg) (Some (peek_ints (m_data msg) 4 MAX_HOST_NUM))
       (peek_int (m_data msg) 0) s)"

definition handleGrantDiffMsg :: "mimsg_t option \<Rightarrow> mem_st \<Rightarrow> mem_st option" where
  "handleGrantDiffMsg msg s =
     (case msg of None \<Rightarrow> Some s
      | Some m \<Rightarrow> do {
          let ts = peek_ints (m_data m) 0 MAX_HOST_NUM;
          let diff = peek (m_data m) (4 * (MAX_HOST_NUM + 1)) PAGESIZE;
          k \<leftarrow> aidx (peek_int (m_data m) (4 * MAX_HOST_NUM)) MAX_PAGE_NUM;
          h \<leftarrow> aidx (m_from m) MAX_HOST_NUM;
          let p = pageArray s k;
          found \<leftarrow> find_notice s ts (p_notices p h);
          s \<leftarrow> (case found of
                  None \<Rightarrow> Some s
                | Some w \<Rightarrow> do {
                    n \<leftarrow> wn_get s found;
                    s \<leftarrow> (if w_diffAddress n = None
                           then wn_upd found (\<lambda>n. n\<lparr>w_diffAddress := Some diff\<rparr>) s else Some s);
                    let s = vm_mprotect (p_address p) PROT_READ_WRITE s;
                    s \<leftarrow> (if p_address p = 0 then Some s
                           else do { page \<leftarrow> vm_read (p_address p) s;
                                     vm_write (p_address p)
                                       (the (snd (applyDiff (Some page) (Some diff)))) s });
                    Some (vm_mprotect (p_address p) PROT_NONE s) });
          Some (s\<lparr>fetchDiffWaitFlag := 0\<rparr>) })"

section \<open>Write notices and intervals\<close>

text \<open>The packets for one interval: a first one, and one more while notices are left over.\<close>

partial_function (option) append_packets ::
    "msgref \<Rightarrow> int \<Rightarrow> timestamp \<Rightarrow> ptr \<Rightarrow> int \<Rightarrow> mem_st \<Rightarrow> (int \<times> mem_st) option" where
  "append_packets r h ts notices packetNum s =
     do { x \<leftarrow> addWNIIntoPacketForHost s empty_packet h (Some ts) notices;
          y \<leftarrow> apendMsgData (Some r) (Some (packet_bytes (snd x))) (int PACKET_SIZE) s;
          (if fst x = None then Some (packetNum + 1, snd y)
           else append_packets r h ts (fst x) (packetNum + 1) (snd y)) }"

text \<open>From the oldest interval of a host towards the newest, along \<open>prev\<close>.\<close>

partial_function (option) append_intervals ::
    "msgref \<Rightarrow> int \<Rightarrow> timestamp \<Rightarrow> ptr \<Rightarrow> int \<Rightarrow> mem_st \<Rightarrow> (int \<times> mem_st) option" where
  "append_intervals r h ts p packetNum s =
     (case p of None \<Rightarrow> Some (packetNum, s)
      | Some k \<Rightarrow> do {
          iv \<leftarrow> iv_get s p;
          a \<leftarrow> isAfterInterval (hostnum s) (Some (i_timestamp iv)) (Some ts);
          x \<leftarrow> (if a \<noteq> 0 \<and> i_notices iv \<noteq> None
                 then append_packets r h (i_timestamp iv) (i_notices iv) packetNum s
                 else Some (packetNum, s));
          append_intervals r h ts (i_prev iv) (fst x) (snd x) })"

function append_hosts :: "msgref \<Rightarrow> nat \<Rightarrow> timestamp \<Rightarrow> int \<Rightarrow> int \<Rightarrow> mem_st \<Rightarrow> (int \<times> mem_st) option" where
  "append_hosts r i ts hn packetNum s =
     (if int i < hn then do {
        h \<leftarrow> aidx (int i) MAX_HOST_NUM;
        x \<leftarrow> (case pr_intervalList (procArray s h) of
               None \<Rightarrow> Some (packetNum, s)
             | Some k \<Rightarrow> do { oldest \<leftarrow> chain_last (nextI s) k;
                            append_intervals r (int i) ts (Some oldest) packetNum s });
        append_hosts r (Suc i) ts hn (fst x) (snd x) }
      else Some (packetNum, s))"
  by pat_completeness auto
termination
  by (relation "measure (\<lambda>(r, i, ts, hn, n, s). nat (hn - int i))") auto

declare append_hosts.simps [simp del]

definition grantWNI :: "int \<Rightarrow> timestamp option \<Rightarrow> mem_st \<Rightarrow> (int \<times> mem_st) option" where
  "grantWNI hostid ts s =
     (if hostid < 0 \<or> hostid \<ge> hostnum s then Some (- 1, s)
      else case ts of None \<Rightarrow> Some (- 1, s)
      | Some t \<Rightarrow>
        if hostid = myhostid s then Some (- 1, s)
        else do {
          (r, s) \<leftarrow> new_msg hostid GRANT_WN_I s;
          now \<leftarrow> iv_get s (intervalNow s);
          s \<leftarrow> msg_upd (Some r) (\<lambda>m. m\<lparr>m_timestamp := i_timestamp now\<rparr>) s;
          (_, s) \<leftarrow> apendMsgData (Some r) (Some (int_bytes 0)) 4 s;
          (packetNum, s) \<leftarrow> append_hosts r 0 t (hostnum s) 0 s;
          s \<leftarrow> msg_upd (Some r) (\<lambda>m. m\<lparr>m_data := poke (m_data m) 0 (int_bytes packetNum)\<rparr>) s;
          (_, s) \<leftarrow> sendMsg (Some r) s;
          Some (0, s) })"

definition handleFetchWNIMsg :: "mimsg_t \<Rightarrow> mem_st \<Rightarrow> mem_st option" where
  "handleFetchWNIMsg msg s =
     map_option snd (grantWNI (m_from msg) (Some (peek_ints (m_data msg) 0 MAX_HOST_NUM)) s)"

definition handleGrantWNIMsg :: "mimsg_t option \<Rightarrow> mem_st \<Rightarrow> mem_st option" where
  "handleGrantWNIMsg msg s =
     (case msg of None \<Rightarrow> Some s
      | Some m \<Rightarrow> do {
          me \<leftarrow> aidx (myhostid s) MAX_HOST_NUM;
          let ts = m_timestamp m;
          (k, s) \<leftarrow> push_interval me (empty_interval\<lparr>i_timestamp := ts[me := s32 (ts ! me + 1)]\<rparr>) s;
          let s = s\<lparr>intervalNow := Some k\<rparr>;
          packets \<leftarrow> packets_of (m_data m);
          s \<leftarrow> incorporate_all packets s;
          Some (s\<lparr>fetchWNIWaitFlag := 0\<rparr>) })"

end
