(* ===== verification/Sync.thy ===== *)
theory Sync
  imports Protocol
begin

text \<open>
  Lock messages (\<open>grantLock\<close>, \<open>handleAcquireMsg\<close>, \<open>handleReleaseMsg\<close>, \<open>handleGrantMsg\<close> of \<open>src/syn.c\<close>)
  and the text form in which a request carries the number of the lock: \<open>sprintf\<close> with \<open>%d\<close> into a buffer
  on the stack, of which four bytes are sent, read back with \<open>strtol\<close>.
\<close>

section \<open>Numbers as text\<close>

fun dec_digits :: "nat \<Rightarrow> byte list" where
  "dec_digits n =
     (if n < 10 then [word_of_nat (48 + n)] else dec_digits (n div 10) @ [word_of_nat (48 + n mod 10)])"

declare dec_digits.simps [simp del]

definition sprintf_d :: "int \<Rightarrow> byte list" where
  "sprintf_d x = (if x < 0 then 45 # dec_digits (nat (- x)) else dec_digits (nat x))"

text \<open>\<open>char buffer[20]; sprintf(buffer, "%d", x);\<close> leaves the rest of the buffer as it was.\<close>

definition sprintf_buffer :: "int \<Rightarrow> buffer \<Rightarrow> byte list" where
  "sprintf_buffer x stack =
     (let t = sprintf_d x @ [0] in map (\<lambda>i. if i < length t then t ! i else stack i) [0..<20])"

definition is_space :: "byte \<Rightarrow> bool" where
  "is_space b \<longleftrightarrow> b = 32 \<or> (9 \<le> b \<and> b \<le> 13)"

definition is_digit :: "byte \<Rightarrow> bool" where
  "is_digit b \<longleftrightarrow> 48 \<le> b \<and> b \<le> 57"

text \<open>\<open>strtol\<close> in base 10 on the bytes of an array; a number that does not end inside the array makes
  the function read past it.\<close>

fun parse_digits :: "int \<Rightarrow> byte list \<Rightarrow> int option" where
  "parse_digits acc [] = None"
| "parse_digits acc (b # bs) = (if is_digit b then parse_digits (10 * acc + (uint b - 48)) bs else Some acc)"

definition long_clamp :: "int \<Rightarrow> int" where
  "long_clamp v = max (- (2 ^ 63)) (min (2 ^ 63 - 1) v)"

definition strtol :: "byte list \<Rightarrow> int option" where
  "strtol bs =
     (case dropWhile is_space bs of
        [] \<Rightarrow> None
      | b # r \<Rightarrow>
          if b = 45 then map_option (\<lambda>v. long_clamp (- v)) (parse_digits 0 r)
          else if b = 43 then map_option long_clamp (parse_digits 0 r)
          else map_option long_clamp (parse_digits 0 (b # r)))"

text \<open>\<open>int lockno = strtol(msg->data, NULL, 10);\<close>\<close>

definition msg_lockno :: "mimsg_t \<Rightarrow> int option" where
  "msg_lockno m = map_option s32 (strtol (peek (m_data m) 0 DATA_SIZE))"

section \<open>Granting a lock\<close>

definition grantLock :: "int \<Rightarrow> int \<Rightarrow> 'a syn_st_scheme \<Rightarrow> 'a syn_st_scheme option" where
  "grantLock lockno hostid s =
     (if lockno < - 1 \<or> lockno \<ge> int LOCK_NUM \<or> hostid < 0 \<or> hostid \<ge> hostnum s then Some s
      else if hostid = myhostid s then Some s
      else do {
        mgr \<leftarrow> crem lockno (hostnum s);
        (if mgr \<noteq> myhostid s then Some s
         else do {
           k \<leftarrow> aidx lockno LOCK_NUM;
           (r, s) \<leftarrow> new_msg hostid GRANT_LOCK s;
           (_, s) \<leftarrow> apendMsgData (Some r) (Some (int_bytes lockno)) 4 s;
           (_, s) \<leftarrow> apendMsgData (Some r) (Some (int_bytes (l_lasthostid (locks s k)))) 4 s;
           (_, s) \<leftarrow> sendMsg (Some r) s;
           Some s }) })"

section \<open>Handlers\<close>

definition handleAcquireMsg :: "mimsg_t \<Rightarrow> 'a syn_st_scheme \<Rightarrow> 'a syn_st_scheme option" where
  "handleAcquireMsg msg s =
     do { lockno \<leftarrow> msg_lockno msg;
          (if 0 \<le> lockno \<and> lockno \<le> int LOCK_NUM then do {
             (result, s) \<leftarrow> graspLock lockno (m_from msg) s;
             (if result \<ge> - 1 then grantLock lockno (m_from msg) s else Some s) }
           else Some s) }"

definition handleReleaseMsg :: "mimsg_t \<Rightarrow> 'a syn_st_scheme \<Rightarrow> 'a syn_st_scheme option" where
  "handleReleaseMsg msg s =
     do { lockno \<leftarrow> msg_lockno msg;
          (if 0 \<le> lockno \<and> lockno < int LOCK_NUM then do {
             (result, s) \<leftarrow> freeLock lockno (m_from msg) s;
             (if result \<ge> 0 then
                (if result = myhostid s
                 then Some (s\<lparr>lasthostid := m_from msg, waitFlag := 0,
                             myLocks := (myLocks s)(nat lockno := 1)\<rparr>)
                 else grantLock lockno result s)
              else Some s) }
           else Some s) }"

definition handleGrantMsg :: "mimsg_t option \<Rightarrow> 'a syn_st_scheme \<Rightarrow> 'a syn_st_scheme" where
  "handleGrantMsg msg s =
     (case msg of None \<Rightarrow> s
      | Some m \<Rightarrow>
          let lockno = peek_int (m_data m) 0 in
          if 0 \<le> lockno \<and> lockno < int LOCK_NUM
          then s\<lparr>lasthostid := peek_int (m_data m) 4, myLocks := (myLocks s)(nat lockno := 1), waitFlag := 0\<rparr>
          else s)"

definition handleExitBarrierMsg :: "mimsg_t option \<Rightarrow> 'a syn_st_scheme \<Rightarrow> 'a syn_st_scheme" where
  "handleExitBarrierMsg msg s =
     (case msg of None \<Rightarrow> s | Some m \<Rightarrow> if m_from m = 0 then s\<lparr>waitFlag := 0\<rparr> else s)"

section \<open>A request for a lock, from text to number\<close>

lemma is_digit_dec: "n < 10 \<Longrightarrow> is_digit (word_of_nat (48 + n)) \<and> uint (word_of_nat (48 + n) :: byte) = int (48 + n)"
proof -
  assume "n < 10"
  then have "n = 0 \<or> n = 1 \<or> n = 2 \<or> n = 3 \<or> n = 4 \<or> n = 5 \<or> n = 6 \<or> n = 7 \<or> n = 8 \<or> n = 9"
    by arith
  then show ?thesis by (elim disjE) (simp_all add: is_digit_def word_le_def)
qed

lemma dec_digits_digits: "list_all is_digit (dec_digits n)"
proof (induction n rule: dec_digits.induct)
  case (1 n)
  then show ?case
    using is_digit_dec [of n] is_digit_dec [of "n mod 10"] by (subst dec_digits.simps) auto
qed

lemma dec_digits_not_Nil: "dec_digits n \<noteq> []"
  by (subst dec_digits.simps) simp

lemma parse_append:
  "list_all is_digit ds \<Longrightarrow> parse_digits acc (ds @ bs) =
    parse_digits (foldl (\<lambda>a b. 10 * a + (uint b - 48)) acc ds) bs"
  by (induction ds arbitrary: acc) auto

lemma dec_digits_value: "foldl (\<lambda>a b. 10 * a + (uint b - 48)) 0 (dec_digits n) = int n"
proof (induction n rule: dec_digits.induct)
  case (1 n)
  show ?case
  proof (cases "n < 10")
    case True
    then show ?thesis using is_digit_dec [of n] by (subst dec_digits.simps) simp
  next
    case False
    then show ?thesis
      using "1.IH" [OF False] is_digit_dec [of "n mod 10"]
      by (subst dec_digits.simps) (simp add: zdiv_int zmod_int)
  qed
qed

lemma length_dec_digits: "n < 10 ^ Suc m \<Longrightarrow> length (dec_digits n) \<le> Suc m"
proof (induction m arbitrary: n)
  case 0
  then show ?case by (subst dec_digits.simps) simp
next
  case (Suc m)
  then have "length (dec_digits (n div 10)) \<le> Suc m" by (simp add: less_mult_imp_div_less)
  then show ?case by (subst dec_digits.simps) simp
qed

lemma strtol_dec:
  assumes "\<not> is_digit b" "n < 2 ^ 31"
  shows "strtol (dec_digits n @ b # bs) = Some (int n)"
proof -
  obtain d ds where d: "dec_digits n = d # ds" using dec_digits_not_Nil [of n] by (cases "dec_digits n") auto
  then have dig: "is_digit d" using dec_digits_digits [of n] by simp
  then have ne: "\<not> is_space d" "d \<noteq> 45" "d \<noteq> 43"
    by (auto simp: is_digit_def is_space_def word_le_def)
  have "parse_digits 0 (dec_digits n @ b # bs) = Some (int n)"
    using parse_append [OF dec_digits_digits] dec_digits_value assms(1) by simp
  moreover have "strtol (dec_digits n @ b # bs) = map_option long_clamp (parse_digits 0 (dec_digits n @ b # bs))"
    using ne by (simp add: strtol_def d)
  moreover have "long_clamp (int n) = int n" using assms(2) by (simp add: long_clamp_def)
  ultimately show ?thesis by simp
qed

text \<open>The four bytes that are sent determine the number of the lock, whatever the stack held before:
  shorter numbers bring their NUL along, four digits are followed by the zeroed rest of \<open>data\<close>.\<close>

lemma msg_lockno_text:
  assumes "0 \<le> lockno" "lockno < int LOCK_NUM"
    and "peek d 0 4 = take 4 (sprintf_buffer lockno stack)" "d 4 = 0"
  shows "msg_lockno (m\<lparr>m_data := d\<rparr>) = Some lockno"
proof -
  let ?t = "dec_digits (nat lockno)"
  have len: "length ?t \<le> 4"
    using length_dec_digits [of "nat lockno" 3] assms(2) by (simp add: LOCK_NUM_def)
  have d: "d i = (?t @ [0]) ! i" if "i \<le> length ?t" for i
  proof (cases "i < 4")
    case True
    then have "d i = take 4 (sprintf_buffer lockno stack) ! i"
      using assms(3) nth_peek [of i 4 d 0] by simp
    with True that assms(1) show ?thesis
      by (simp add: sprintf_buffer_def sprintf_d_def Let_def nth_append)
  next
    case False
    with that len have "i = 4" "length ?t = 4" by auto
    with assms(4) show ?thesis by (simp add: nth_append)
  qed
  have D: "DATA_SIZE = length ?t + 1 + (DATA_SIZE - length ?t - 1)"
    using len by (simp add: size_consts)
  have "peek d 0 (length ?t + 1) = ?t @ [0]"
    by (rule nth_equalityI) (simp_all add: d)
  then obtain bs where "peek d 0 DATA_SIZE = ?t @ 0 # bs"
    using peek_add [of d 0 "length ?t + 1"] D by (metis append.assoc append_Cons append_Nil)
  moreover have "\<not> is_digit 0" by (simp add: is_digit_def word_le_def)
  ultimately have "strtol (peek d 0 DATA_SIZE) = Some lockno"
    using strtol_dec [of 0 "nat lockno" bs] assms(1,2) by (simp add: LOCK_NUM_def)
  with assms(1,2) show ?thesis by (simp add: msg_lockno_def in32_def LOCK_NUM_def)
qed

end
