(* ===== verification/Exchange.thy ===== *)
theory Exchange
  imports Protocol Sync
begin

text \<open>
  The exchanges between two hosts, end to end: what a handler sends, and what the handler at the other
  side does with it (\<open>grantPage\<close> and \<open>handleGrantPageMsg\<close>, \<open>grantDiff\<close> and \<open>handleGrantDiffMsg\<close> of
  \<open>src/mem.c\<close>, \<open>grantLock\<close> and \<open>handleGrantMsg\<close> of \<open>src/syn.c\<close>).
\<close>

section \<open>Reading a message\<close>

lemma in_hosts_me: "host_ok s \<Longrightarrow> in_hosts (myhostid s)"
  by (simp add: host_ok_def in_hosts_def)

lemma in_hosts_host: "host_ok s \<Longrightarrow> 0 \<le> h \<Longrightarrow> h < hostnum s \<Longrightarrow> in_hosts h"
  by (simp add: host_ok_def in_hosts_def)

lemma peek_int_packed:
  "off + 4 \<le> length bs \<Longrightarrow> take 4 (drop off bs) = int_bytes x \<Longrightarrow> in32 x \<Longrightarrow>
    peek_int (poke d 0 bs) off = x"
  by (simp add: peek_int_def peek_packed)

lemma peek_ints_packed:
  assumes "take (4 * length xs) (drop off bs) = ints_bytes xs" "list_all in32 xs" "n = length xs"
    "off + 4 * length xs \<le> length bs"
  shows "peek_ints (poke d 0 bs) off n = xs"
  by (rule peek_ints_of_bytes) (use assms in \<open>simp_all add: peek_packed\<close>)

section \<open>Packets\<close>

definition packet_wf :: "wnPacket_t \<Rightarrow> bool" where
  "packet_wf pk \<longleftrightarrow> in32 (k_hostid pk) \<and> ts_ok (k_timestamp pk) \<and> in32 (k_wnCount pk) \<and>
     length (k_wnArray pk) = MAX_WN_NUM \<and> list_all in32 (k_wnArray pk)"

lemma length_packet_bytes: "packet_wf pk \<Longrightarrow> length (packet_bytes pk) = PACKET_SIZE"
  by (simp add: packet_wf_def packet_bytes_def PACKET_SIZE_def ts_ok_def)

lemma packet_at_bytes:
  assumes wf: "packet_wf pk" and d: "peek d off PACKET_SIZE = packet_bytes pk"
  shows "packet_at d off = pk"
proof -
  have len: "length (k_timestamp pk) = MAX_HOST_NUM" "length (k_wnArray pk) = MAX_WN_NUM"
    using wf by (simp_all add: packet_wf_def ts_ok_def)
  have P: "PACKET_SIZE = 4 + (4 * MAX_HOST_NUM + (4 + 4 * MAX_WN_NUM))"
    by (simp add: PACKET_SIZE_def)
  have "peek d off 4 @ peek d (off + 4) (4 * MAX_HOST_NUM) @ peek d (off + 4 + 4 * MAX_HOST_NUM) 4 @
      peek d (off + 8 + 4 * MAX_HOST_NUM) (4 * MAX_WN_NUM) = peek d off PACKET_SIZE"
    by (simp only: P peek_add append_assoc) (simp add: algebra_simps)
  also have "\<dots> = int_bytes (k_hostid pk) @ ints_bytes (k_timestamp pk) @
      int_bytes (k_wnCount pk) @ ints_bytes (k_wnArray pk)"
    by (simp add: d packet_bytes_def)
  finally have "peek d off 4 = int_bytes (k_hostid pk)"
    "peek d (off + 4) (4 * MAX_HOST_NUM) = ints_bytes (k_timestamp pk)"
    "peek d (off + 4 + 4 * MAX_HOST_NUM) 4 = int_bytes (k_wnCount pk)"
    "peek d (off + 8 + 4 * MAX_HOST_NUM) (4 * MAX_WN_NUM) = ints_bytes (k_wnArray pk)"
    using len by simp_all
  with wf len show ?thesis
    by (simp add: packet_at_def peek_int_def packet_wf_def ts_ok_def peek_ints_of_bytes)
qed

text \<open>The packets of a message whose data is the number of packets and then the packets.\<close>

lemma packets_of_bytes:
  assumes wf: "list_all packet_wf pks"
    and fit: "4 + PACKET_SIZE * length pks \<le> DATA_SIZE"
  shows "packets_of (poke d 0 (int_bytes (int (length pks)) @ concat (map packet_bytes pks))) = Some pks"
proof -
  let ?bs = "int_bytes (int (length pks)) @ concat (map packet_bytes pks)"
  have len: "length (concat (map packet_bytes ps)) = PACKET_SIZE * length ps" if "list_all packet_wf ps" for ps
    using that by (induction ps) (simp_all add: length_packet_bytes)
  have n: "in32 (int (length pks))"
    using fit by (simp add: in32_def PACKET_SIZE_def size_consts)
  have "peek_int (poke d 0 ?bs) 0 = int (length pks)"
    by (rule peek_int_packed) (use n in simp_all)
  moreover have "packet_at (poke d 0 ?bs) (4 + PACKET_SIZE * i) = pks ! i" if i: "i < length pks" for i
  proof (rule packet_at_bytes)
    have pks: "pks = take i pks @ pks ! i # drop (Suc i) pks" using i by (simp add: id_take_nth_drop)
    have "list_all packet_wf (take i pks)" using wf by (auto simp: list_all_iff dest: in_set_takeD)
    then have l: "length (concat (map packet_bytes (take i pks))) = PACKET_SIZE * i"
      using i by (simp add: len)
    show w: "packet_wf (pks ! i)" using wf i by (simp add: list_all_length)
    have "?bs = int_bytes (int (length pks)) @ concat (map packet_bytes (take i pks)) @
        packet_bytes (pks ! i) @ concat (map packet_bytes (drop (Suc i) pks))"
      by (subst (2) pks) simp
    then have "drop (4 + PACKET_SIZE * i) ?bs =
        packet_bytes (pks ! i) @ concat (map packet_bytes (drop (Suc i) pks))"
      using l by simp
    moreover have "4 + PACKET_SIZE * i + PACKET_SIZE \<le> length ?bs"
    proof -
      have "PACKET_SIZE * Suc i \<le> PACKET_SIZE * length pks" using i by (intro mult_le_mono2) simp
      then show ?thesis using len [OF wf] by simp
    qed
    ultimately show "peek (poke d 0 ?bs) (4 + PACKET_SIZE * i) PACKET_SIZE = packet_bytes (pks ! i)"
      using length_packet_bytes [OF w] by (simp add: peek_packed)
  qed
  ultimately show ?thesis
    using fit by (simp add: packets_of_def Let_def) (auto intro: nth_equalityI)
qed

section \<open>A page\<close>

lemma grantPage_sends:
  assumes ok: "mem_ok L W P s" and q: "quiet s" and h: "0 \<le> h" "h < hostnum s" "h \<noteq> myhostid s"
    and k: "k < MAX_PAGE_NUM" and page: "vm s (page_addr k) = Some (pr, bs)"
    and st: "p_state (pageArray s k) = RDONLY \<or> p_state (pageArray s k) = WRITE"
  shows "\<exists>s'. grantPage h (int k) s = Some (0, s') \<and> quiet s' \<and> net_frame s s' \<and>
    sent (wire s) (wire s') [sent_msg s h GRANT_PAGE no_ts (int_bytes (int k) @ bs)]"
proof -
  have host: "host_ok s" using ok by (simp add: mem_ok_def)
  have pk: "p_address (pageArray s k) = page_addr k" "length bs = PAGESIZE" "pr \<noteq> PROT_NONE"
    using mem_ok_simps(3) [OF ok k] st page by (auto simp: page_ok_def mapped_def Let_def)
  have sz: "0 < PAGESIZE" "4 + PAGESIZE \<le> DATA_SIZE" by (simp_all add: size_consts)
  let ?m = "packed (myhostid s) h GRANT_PAGE no_ts"
  obtain s' where s': "sendMsg (Some (SndSlot (sndTail s))) (fill s (?m (int_bytes (int k) @ bs))) = Some (0, s')"
    "quiet s'" "net_frame s s'" "sent (wire s) (wire s') [sent_msg s h GRANT_PAGE no_ts (int_bytes (int k) @ bs)]"
    using send_fill [OF q in_hosts_host [OF host h(1,2)] in_hosts_me [OF host], of "int_bytes (int k) @ bs"]
      pk sz by auto
  have mem: "page_mem (pageArray s k) (fill s m) = Some (Some bs)" for m
    using pk page by (simp add: page_mem_def vm_read_def fill_def)
  have "grantPage h (int k) s = Some (0, s')"
    using h k st mem append_fill [of "int PAGESIZE" bs "int_bytes (int k)" s] sz pk(2) s'(1)
      append_fill_int [of "[]" s]
    by (auto simp: grantPage_def new_msg_fill [OF q] Let_def DATA_SIZE_def MAX_MSG_SIZE_def MSG_HEAD_SIZE_def
        MAX_HOST_NUM_def)
  with s' show ?thesis by blast
qed

text \<open>The receiver of a page, whose entry is \<open>MISS\<close>: what \<open>handleGrantPageMsg\<close> and then the handler of
  the page fault do.\<close>

lemma handleGrantPage_ok:
  assumes ok: "mem_ok L W P s" and k: "k < MAX_PAGE_NUM" and st: "p_state (pageArray s k) = MISS"
    and bs: "length bs = PAGESIZE" and m: "m_data m = poke (\<lambda>_. 0) 0 (int_bytes (int k) @ bs)"
  shows "\<exists>t. handleGrantPageMsg (Some m) s = Some t \<and> fetchPageWaitFlag t = 0 \<and>
    mem_ok L W P (vm_mprotect (page_addr k) PROT_READ (page_upd k (\<lambda>p. p\<lparr>p_state := RDONLY\<rparr>) t)) \<and>
    vm t = (vm s)(page_addr k \<mapsto> (PROT_READ_WRITE, bs)) \<and>
    t = s\<lparr>vm := vm t, pageArray := (pageArray s)(k := (pageArray s k)\<lparr>p_startInterval := intervalNow s\<rparr>),
      fetchPageWaitFlag := 0\<rparr>"
proof -
  have pk: "p_address (pageArray s k) = page_addr k" "p_twinPage (pageArray s k) = None" "P k (me s) = []"
    using mem_ok_simps(3) [OF ok k] st by (auto simp: page_ok_def Let_def)
  have i: "in32 (int k)" using k by (simp add: in32_def size_consts)
  have idx: "peek_int (m_data m) 0 = int k"
    unfolding m by (rule peek_int_packed) (use i bs in simp_all)
  have cont: "peek (m_data m) 4 PAGESIZE = bs" unfolding m using bs by (simp add: peek_packed)
  define t where "t = s\<lparr>vm := (vm s)(page_addr k \<mapsto> (PROT_READ_WRITE, bs)),
    pageArray := (pageArray s)(k := (pageArray s k)\<lparr>p_startInterval := intervalNow s\<rparr>),
    fetchPageWaitFlag := 0\<rparr>"
  have e: "handleGrantPageMsg (Some m) s = Some t"
    using k pk by (simp add: handleGrantPageMsg_def idx cont vm_mmap_def vm_write_def page_upd_def t_def Let_def)
  let ?u = "vm_mprotect (page_addr k) PROT_READ (page_upd k (\<lambda>p. p\<lparr>p_state := RDONLY\<rparr>) t)"
  have u: "?u = s\<lparr>vm := (vm s)(page_addr k \<mapsto> (PROT_READ, bs)),
      pageArray := (pageArray s)(k := (pageArray s k)\<lparr>p_startInterval := intervalNow s, p_state := RDONLY\<rparr>),
      fetchPageWaitFlag := 0\<rparr>"
    by (simp add: vm_mprotect_def page_upd_def t_def)
  have "mem_ok L W P ?u"
    unfolding u using pk bs
    by (intro mem_ok_frame [OF ok k])
      (auto simp: same_links_def pages_frame_def page_ok_def mapped_def me_def)
  with e show ?thesis by (auto simp: t_def)
qed

section \<open>A diff\<close>

definition notice_ts :: "mem_st \<Rightarrow> nat \<Rightarrow> timestamp" where
  "notice_ts s w = i_timestamp (ivals s ! the (w_interval (wns s ! w)))"

lemma notice_ts_ok:
  assumes ok: "mem_ok L W P s" and k: "k < MAX_PAGE_NUM" and h: "h < MAX_HOST_NUM" and w: "w \<in> set (P k h)"
  shows "w < length (wns s)" "\<exists>i<length (ivals s). w_interval (wns s ! w) = Some i \<and>
    notice_ts s w = i_timestamp (ivals s ! i)" "ts_ok (notice_ts s w)"
proof -
  note links = mem_ok_simps(2) [OF ok]
  show "w < length (wns s)" using links_page_alloc(1) [OF links k h w] .
  obtain i where i: "i \<in> set (L h)" "w_interval (wns s ! w) = Some i"
    using links_page_alloc(3) [OF links k h w] by auto
  moreover have "i < length (ivals s)" using links_interval_alloc [OF links h i(1)] .
  ultimately show "\<exists>i<length (ivals s). w_interval (wns s ! w) = Some i \<and>
      notice_ts s w = i_timestamp (ivals s ! i)"
    and "ts_ok (notice_ts s w)"
    using ok by (auto simp: notice_ts_def mem_ok_def)
qed

lemma find_notice_eq:
  assumes ok: "mem_ok L W P s" and k: "k < MAX_PAGE_NUM" and h: "h < MAX_HOST_NUM"
  shows "find_notice s t (p_notices (pageArray s k) h) = Some (find (\<lambda>w. notice_ts s w = t) (P k h))"
  unfolding find_notice_def
proof (rule chain_find_eq)
  show "chain (nextInPage s) (p_notices (pageArray s k) h) (P k h)"
    using links_chain_page [OF mem_ok_simps(2) [OF ok] k h] .
  fix w assume "w \<in> set (P k h)"
  with notice_ts_ok [OF ok k h this] show "do { n \<leftarrow> wn_get s (Some w); i \<leftarrow> iv_get s (w_interval n);
      Some (i_timestamp i = t) } = Some (notice_ts s w = t)"
    by (auto simp: wn_get_def iv_get_def)
qed

text \<open>A local notice has its diff, but for the newest one of a page that is being written.\<close>

lemma own_notice:
  assumes ok: "mem_ok L W P s" and k: "k < MAX_PAGE_NUM" and w: "w \<in> set (P k (me s))"
  shows "has_diff s w \<or> (p_state (pageArray s k) = WRITE \<and> w = hd (P k (me s)) \<and>
    w_diffAddress (wns s ! w) = None)"
proof (cases "p_state (pageArray s k) = WRITE")
  case True
  then show ?thesis
    using mem_ok_simps(3) [OF ok k] w
    by (cases "P k (me s)") (auto simp: page_ok_def Let_def list_all_iff)
next
  case False
  then show ?thesis
    using mem_ok_simps(3) [OF ok k] w
    by (cases "p_state (pageArray s k)") (auto simp: page_ok_def Let_def list_all_iff)
qed

text \<open>The state in which the diff of the notice \<open>w\<close> exists: a page that is being written becomes
  readable and loses its twin.\<close>

definition with_diff :: "nat \<Rightarrow> nat \<Rightarrow> mem_st \<Rightarrow> mem_st" where
  "with_diff k w s =
     (case (w_diffAddress (wns s ! w), vm s (page_addr k), p_twinPage (pageArray s k)) of
        (None, Some (_, bs), Some twin) \<Rightarrow>
          s\<lparr>wns := (wns s)[w := (wns s ! w)\<lparr>w_diffAddress := Some (diff_of bs twin)\<rparr>],
            pageArray := (pageArray s)(k := (pageArray s k)\<lparr>p_twinPage := None, p_state := RDONLY\<rparr>),
            vm := (vm s)(page_addr k \<mapsto> (PROT_READ, bs))\<rparr>
      | _ \<Rightarrow> s)"

lemma with_diff_ok:
  assumes ok: "mem_ok L W P s" and k: "k < MAX_PAGE_NUM" and w: "w \<in> set (P k (me s))"
  shows "mem_ok L W P (with_diff k w s)" "has_diff (with_diff k w s) w"
proof -
  have h: "me s < MAX_HOST_NUM" using ok host_ok_me by (auto simp: mem_ok_def)
  have wl: "w < length (wns s)" using notice_ts_ok(1) [OF ok k h w] .
  have "mem_ok L W P (with_diff k w s) \<and> has_diff (with_diff k w s) w"
  proof (cases "has_diff s w")
    case True
    then have "with_diff k w s = s" by (auto simp: with_diff_def has_diff_def)
    with ok True show ?thesis by simp
  next
    case False
    with own_notice [OF ok k w] have st: "p_state (pageArray s k) = WRITE" "w = hd (P k (me s))"
      "w_diffAddress (wns s ! w) = None" by auto
    obtain bs ts where bs: "vm s (page_addr k) = Some (PROT_READ_WRITE, bs)" "length bs = PAGESIZE"
      "p_address (pageArray s k) = page_addr k" "p_twinPage (pageArray s k) = Some ts" "length ts = PAGESIZE"
      "P k (me s) \<noteq> []" "list_all (has_diff s) (tl (P k (me s)))"
      using mem_ok_simps(3) [OF ok k] st(1) by (auto simp: page_ok_def mapped_def Let_def)
    define t where "t = s\<lparr>wns := (wns s)[w := (wns s ! w)\<lparr>w_diffAddress := Some (diff_of bs ts)\<rparr>],
      pageArray := (pageArray s)(k := (pageArray s k)\<lparr>p_twinPage := None, p_state := RDONLY\<rparr>),
      vm := (vm s)(page_addr k \<mapsto> (PROT_READ, bs))\<rparr>"
    have t: "with_diff k w s = t" using st bs by (simp add: with_diff_def t_def)
    have hw: "has_diff t w" using wl bs by (simp add: has_diff_def t_def diff_of_eq)
    have hd': "has_diff t v" if "v \<in> set (P k (me s))" for v
    proof (cases "v = w")
      case False
      with that st(2) have "v \<in> set (tl (P k (me s)))" by (cases "P k (me s)") auto
      with bs(7) False show ?thesis by (auto simp: has_diff_def t_def list_all_iff)
    qed (use hw in simp)
    have "mem_ok L W P t"
    proof (rule mem_ok_frame [OF ok k])
      show "same_links s t" by (auto simp: same_links_def t_def nth_update)
      show "pages_frame k s t" by (simp add: pages_frame_def t_def)
      show "page_ok P t k" using bs hd' by (simp add: page_ok_def mapped_def t_def me_def list_all_iff)
      show "w_diffAddress (wns t ! v) = w_diffAddress (wns s ! v)" if "v \<notin> set (P k (me s))" for v
        using that w by (cases "v = w") (auto simp: t_def)
    qed
    with t hw show ?thesis by simp
  qed
  then show "mem_ok L W P (with_diff k w s)" "has_diff (with_diff k w s) w" by simp_all
qed

lemma grantDiff_sends:
  assumes ok: "mem_ok L W P s" and q: "quiet s" and h: "0 \<le> h" "h < hostnum s" "h \<noteq> myhostid s"
    and k: "k < MAX_PAGE_NUM" and st: "p_state (pageArray s k) \<notin> {UNMAP, MISS}"
    and w: "find (\<lambda>w. notice_ts s w = t) (P k (me s)) = Some w"
  shows "\<exists>s' d. grantDiff h (Some t) (int k) s = Some (0, s') \<and> quiet s' \<and>
    net_frame (with_diff k w s) s' \<and> w_diffAddress (wns (with_diff k w s) ! w) = Some d \<and>
    sent (wire s) (wire s') [sent_msg s h GRANT_DIFF no_ts (ints_bytes t @ int_bytes (int k) @ d)]"
proof -
  have host: "host_ok s" using ok by (simp add: mem_ok_def)
  note hme = host_ok_me(1,2) [OF host]
  have wP: "w \<in> set (P k (me s))" "notice_ts s w = t" using w by (auto simp: find_Some_iff)
  have wl: "w < length (wns s)" "ts_ok t" using notice_ts_ok [OF ok k hme(1) wP(1)] wP(2) by auto
  have lt: "length t = MAX_HOST_NUM" using wl by (simp add: ts_ok_def)
  let ?u = "with_diff k w s"
  obtain d where d: "w_diffAddress (wns ?u ! w) = Some d" "length d = PAGESIZE"
    using with_diff_ok(2) [OF ok k wP(1)] by (auto simp: has_diff_def)
  have u: "quiet ?u" "wire ?u = wire s" "myhostid ?u = myhostid s" "sndTail ?u = sndTail s"
    "length (wns ?u) = length (wns s)" "sent_msg ?u = sent_msg s" "hostnum ?u = hostnum s"
    using q by (auto simp: with_diff_def quiet_def snd_ok_def sent_msg_def fun_eq_iff split: option.splits)
  have sz: "4 * MAX_HOST_NUM + 4 + PAGESIZE \<le> DATA_SIZE" by (simp add: size_consts)
  let ?m = "packed (myhostid s) h GRANT_DIFF no_ts"
  obtain s' where s': "sendMsg (Some (SndSlot (sndTail s))) (fill ?u (?m (ints_bytes t @ int_bytes (int k) @ d))) = Some (0, s')"
    "quiet s'" "net_frame ?u s'"
    "sent (wire s) (wire s') [sent_msg s h GRANT_DIFF no_ts (ints_bytes t @ int_bytes (int k) @ d)]"
    using send_fill [OF u(1) in_hosts_host [OF host h(1,2)], of "ints_bytes t @ int_bytes (int k) @ d" GRANT_DIFF no_ts]
      in_hosts_me [OF host] lt d sz by (auto simp: u)
  have fw: "wn_get (fill x m) (Some w) = wn_get x (Some w)" for x m
    by (simp add: wn_get_def fill_def)
  have send: "do { (r, s) \<leftarrow> new_msg h GRANT_DIFF ?u;
      (_, s) \<leftarrow> apendMsgData (Some r) (Some (ints_bytes t)) (int (4 * MAX_HOST_NUM)) s;
      (_, s) \<leftarrow> apendMsgData (Some r) (Some (int_bytes (int k))) 4 s;
      n \<leftarrow> wn_get s (Some w);
      (_, s) \<leftarrow> apendMsgData (Some r) (w_diffAddress n) (int PAGESIZE) s;
      (_, s) \<leftarrow> sendMsg (Some r) s; Some (0, s) } = Some (0, s')"
  proof -
    have a: "apendMsgData (Some (SndSlot (sndTail s))) (Some (ints_bytes t)) (4 * int MAX_HOST_NUM) (fill ?u (?m [])) =
        Some (0, fill ?u (?m (ints_bytes t)))"
      using append_fill [of "int (4 * MAX_HOST_NUM)" "ints_bytes t" "[]" ?u] sz lt by (simp add: u)
    have b: "apendMsgData (Some (SndSlot (sndTail s))) (Some (int_bytes (int k))) 4 (fill ?u (?m (ints_bytes t))) =
        Some (0, fill ?u (?m (ints_bytes t @ int_bytes (int k))))"
      using append_fill_int [of "ints_bytes t" ?u] sz lt by (simp add: u)
    have c: "apendMsgData (Some (SndSlot (sndTail s))) (Some d) (int PAGESIZE) (fill ?u (?m (ints_bytes t @ int_bytes (int k)))) =
        Some (0, fill ?u (?m (ints_bytes t @ int_bytes (int k) @ d)))"
      using append_fill [of "int PAGESIZE" d "ints_bytes t @ int_bytes (int k)" ?u] sz lt d by (simp add: u)
    have n: "wn_get ?u (Some w) = Some (wns ?u ! w)" using wl(1) by (simp add: wn_get_def u)
    show ?thesis
      using s'(1) d(1) by (simp add: new_msg_fill [OF u(1)] u a b c fw n)
  qed
  have find: "find_notice s t (p_notices (pageArray s k) (me s)) = Some (Some w)"
    using find_notice_eq [OF ok k hme(1)] w by simp
  have "grantDiff h (Some t) (int k) s = Some (0, s')"
  proof (cases "w_diffAddress (wns s ! w)")
    case Some
    then have "?u = s" by (simp add: with_diff_def)
    with Some send find h k st hme wl(1) show ?thesis
      by (simp add: grantDiff_def wn_get_def Let_def)
  next
    case None
    with own_notice [OF ok k wP(1)] have "p_state (pageArray s k) = WRITE" by (auto simp: has_diff_def)
    then obtain bs ts where bs: "vm s (page_addr k) = Some (PROT_READ_WRITE, bs)"
      "p_address (pageArray s k) = page_addr k" "p_twinPage (pageArray s k) = Some ts"
      using mem_ok_simps(3) [OF ok k] by (auto simp: page_ok_def mapped_def Let_def)
    let ?v = "wn_upd (Some w) (\<lambda>n. n\<lparr>w_diffAddress := createLocalDiff (Some bs) (Some ts)\<rparr>) s"
    have v: "map_option (\<lambda>s. vm_mprotect (p_address (pageArray s k)) PROT_READ
        (page_upd k (\<lambda>p. p\<lparr>p_state := RDONLY\<rparr>) (snd (freeTwinPage (int k) s)))) ?v = Some ?u"
      using None bs k wl(1) \<open>p_state (pageArray s k) = WRITE\<close>
      by (simp add: wn_upd_def freeTwinPage_def page_upd_def vm_mprotect_def with_diff_def Let_def diff_of_def
          createLocalDiff_eq)
    then obtain v where "?v = Some v" "vm_mprotect (page_addr k) PROT_READ
        (page_upd k (\<lambda>p. p\<lparr>p_state := RDONLY\<rparr>) (snd (freeTwinPage (int k) v))) = ?u"
      using bs(2) by (auto simp: wn_upd_def split: if_splits)
    moreover have "page_mem (pageArray s k) s = Some (Some bs)" using bs by (simp add: page_mem_def vm_read_def)
    ultimately show ?thesis
      using None send find h k st hme wl(1) bs \<open>p_state (pageArray s k) = WRITE\<close>
      by (simp add: grantDiff_def wn_get_def Let_def)
  qed
  with s' d show ?thesis by blast
qed

text \<open>The receiver of a diff: the bytes are added to the page, which stays protected, and the notice
  keeps the diff.\<close>

definition diff_applied :: "nat \<Rightarrow> nat \<Rightarrow> byte list \<Rightarrow> byte list \<Rightarrow> mem_st \<Rightarrow> mem_st" where
  "diff_applied k w bs d s = s\<lparr>
     wns := (if w_diffAddress (wns s ! w) = None
             then (wns s)[w := (wns s ! w)\<lparr>w_diffAddress := Some d\<rparr>] else wns s),
     vm := (vm s)(page_addr k \<mapsto> (PROT_NONE, patch bs d)), fetchDiffWaitFlag := 0\<rparr>"

lemma handleGrantDiff_ok:
  assumes ok: "mem_ok L W P s" and k: "k < MAX_PAGE_NUM" and h: "h < MAX_HOST_NUM" "h \<noteq> me s"
    and st: "p_state (pageArray s k) = INVALID" and page: "vm s (page_addr k) = Some (PROT_NONE, bs)"
    and w: "find (\<lambda>w. notice_ts s w = t) (P k h) = Some w" and d: "length d = PAGESIZE"
    and m: "m_from m = int h" "m_data m = poke (\<lambda>_. 0) 0 (ints_bytes t @ int_bytes (int k) @ d)"
  shows "handleGrantDiffMsg (Some m) s = Some (diff_applied k w bs d s)"
    "mem_ok L W P (diff_applied k w bs d s)"
proof -
  have wP: "w \<in> set (P k h)" "notice_ts s w = t" using w by (auto simp: find_Some_iff)
  have wl: "w < length (wns s)" "ts_ok t" using notice_ts_ok [OF ok k h(1) wP(1)] wP(2) by auto
  have lt: "length t = MAX_HOST_NUM" "list_all in32 t" using wl by (simp_all add: ts_ok_def)
  have hm: "me s < MAX_HOST_NUM" using ok host_ok_me by (auto simp: mem_ok_def)
  have pk: "p_address (pageArray s k) = page_addr k" "length bs = PAGESIZE"
    using mem_ok_simps(3) [OF ok k] st page by (auto simp: page_ok_def mapped_def Let_def)
  have i: "in32 (int k)" using k by (simp add: in32_def size_consts)
  have ts: "peek_ints (m_data m) 0 MAX_HOST_NUM = t"
    unfolding m by (rule peek_ints_packed) (use lt in simp_all)
  have idx: "peek_int (m_data m) (4 * MAX_HOST_NUM) = int k"
    unfolding m by (rule peek_int_packed) (use i lt in simp_all)
  have cont: "peek (m_data m) (4 * (MAX_HOST_NUM + 1)) PAGESIZE = d"
    unfolding m using d lt by (simp add: peek_packed)
  have find: "find_notice s t (p_notices (pageArray s k) h) = Some (Some w)"
    using find_notice_eq [OF ok k h(1)] w by simp
  let ?t = "diff_applied k w bs d s"
  show "handleGrantDiffMsg (Some m) s = Some ?t"
    using k h m(1) find wl(1) pk page
    by (simp add: handleGrantDiffMsg_def ts idx cont [simplified] wn_get_def wn_upd_def vm_mprotect_def vm_read_def
        vm_write_def applyDiff_eq patch_eq diff_applied_def)
  have t: "same_links s ?t" by (auto simp: same_links_def diff_applied_def nth_update)
  show "mem_ok L W P ?t"
  proof (rule mem_ok_frame_own [OF ok k t])
    have wother: "w \<notin> set (P j (me s))" if j: "j < MAX_PAGE_NUM" for j
    proof
      assume a: "w \<in> set (P j (me s))"
      obtain i where i: "i \<in> set (L h)" "w_interval (wns s ! w) = Some i"
        using links_page_alloc(3) [OF mem_ok_simps(2) [OF ok] k h(1) wP(1)] by auto
      moreover obtain g where "g \<in> set (L (me s))" "w_interval (wns s ! w) = Some g"
        using links_page_alloc(3) [OF mem_ok_simps(2) [OF ok] j hm a] by auto
      ultimately show False
        using mem_ok_simps(2) [OF ok] h hm by (auto simp: links_ok_def interval_lists_def)
    qed
    show "pages_frame k s ?t" by (simp add: pages_frame_def diff_applied_def)
    have "w_diffAddress (wns ?t ! v) = w_diffAddress (wns s ! v)" if "v \<in> set (P k (me s))" for v
      using that wother [OF k] by (cases "v = w") (auto simp: diff_applied_def)
    then have "list_all (has_diff ?t) (P k (me s)) = list_all (has_diff s) (P k (me s))"
      by (intro list.pred_cong) (auto simp: has_diff_def)
    then show "page_ok P ?t k"
      using mem_ok_simps(3) [OF ok k] st pk d
      by (simp add: page_ok_def mapped_def diff_applied_def me_def patch_eq Let_def)
    show "w_diffAddress (wns ?t ! v) = w_diffAddress (wns s ! v)"
      if "j < MAX_PAGE_NUM" "j \<noteq> k" "v \<in> set (P j (me s))" for j v
      using wother [OF that(1)] that(3) by (cases "v = w") (auto simp: diff_applied_def)
  qed
qed

section \<open>A lock\<close>

lemma locks_frame:
  "quiet (s\<lparr>locks := f\<rparr>) = quiet s" "wire (s\<lparr>locks := f\<rparr>) = wire s" "sent_msg (s\<lparr>locks := f\<rparr>) = sent_msg s"
  by (simp_all add: quiet_def snd_ok_def sent_msg_def fun_eq_iff)

lemma managed_hosts:
  "managed k s \<Longrightarrow> in_hosts (myhostid s)" "managed k s \<Longrightarrow> is_host h s \<Longrightarrow> in_hosts h"
  by (auto simp: managed_def is_host_def in_hosts_def)
    (metis order.strict_trans1 pos_mod_bound pos_mod_sign dual_order.strict_trans1)+

lemma net_frame_locks: "net_frame s s' \<Longrightarrow> locks s' = locks s \<and> hostnum s' = hostnum s \<and> myhostid s' = myhostid s \<and>
    waitFlag s' = waitFlag s \<and> myLocks s' = myLocks s \<and> lasthostid s' = lasthostid s \<and> barrierFlags s' = barrierFlags s"
  by (cases s; cases s') (simp add: net_frame_def)

lemma grantLock_sends:
  assumes m: "managed k s" and q: "quiet s" and h: "is_host h s" "h \<noteq> myhostid s"
  shows "\<exists>s'. grantLock (int k) h s = Some s' \<and> quiet s' \<and> net_frame s s' \<and>
    sent (wire s) (wire s') [sent_msg s h GRANT_LOCK no_ts (int_bytes (int k) @ int_bytes (l_lasthostid (locks s k)))]"
proof -
  have sz: "8 \<le> DATA_SIZE" by (simp add: size_consts)
  have fl: "locks (fill s x) = locks s" for x by (simp add: fill_def)
  have k: "k < LOCK_NUM" "crem (int k) (hostnum s) = Some (myhostid s)"
    using m managed_crem [OF m] by (simp_all add: managed_def)
  let ?l = "int_bytes (l_lasthostid (locks s k))"
  obtain s' where s': "sendMsg (Some (SndSlot (sndTail s)))
      (fill s (packed (myhostid s) h GRANT_LOCK no_ts (int_bytes (int k) @ ?l))) = Some (0, s')"
    "quiet s'" "net_frame s s'" "sent (wire s) (wire s') [sent_msg s h GRANT_LOCK no_ts (int_bytes (int k) @ ?l)]"
    using send_fill [OF q managed_hosts(2) [OF m h(1)] managed_hosts(1) [OF m], of "int_bytes (int k) @ ?l"] sz by auto
  have "grantLock (int k) h s = Some s'"
    using h k s'(1) append_fill_int [of "[]" s] append_fill_int [of "int_bytes (int k)" s] sz
    by (simp add: grantLock_def is_host_def new_msg_fill [OF q] fl)
  with s' show ?thesis by blast
qed

lemma managed_frame: "net_frame s s' \<Longrightarrow> managed k s' = managed k s"
  by (drule net_frame_locks) (simp add: managed_def)

text \<open>The manager's answer to a request and to a release, by the state of the lock.\<close>

lemma handleAcquire_idle:
  assumes m: "managed k s" and q: "quiet s" and h: "is_host h s" "h \<noteq> myhostid s"
    and msg: "msg_lockno m = Some (int k)" "m_from m = h" and o: "lock_owner (locks s k) = None"
  shows "\<exists>s'. handleAcquireMsg m s = Some s' \<and> managed k s' \<and> quiet s' \<and>
    lock_owner (locks s' k) = Some h \<and> lock_queue (locks s' k) = [] \<and>
    sent (wire s) (wire s')
      [sent_msg s h GRANT_LOCK no_ts (int_bytes (int k) @ int_bytes (l_lasthostid (locks s k)))] \<and>
    net_frame (s\<lparr>locks := locks s'\<rparr>) s'"
proof -
  let ?l = "(locks s k)\<lparr>l_state := LOCKED, l_owner := h\<rparr>" let ?u = "s\<lparr>locks := (locks s)(k := ?l)\<rparr>"
  have g: "graspLock (int k) h s = Some (l_lasthostid (locks s k), ?u)"
    by (rule graspLock_idle [OF m h(1) o])
  obtain r t where rt: "graspLock (int k) h s = Some (r, t)" "- 1 \<le> r" "managed k t"
    "lock_owner (locks t k) = Some h" "lock_queue (locks t k) = []"
    using lm.grasp_idle [OF m h(1) o] by auto
  then have u: "managed k ?u" "lock_owner ?l = Some h" "lock_queue ?l = []" "- 1 \<le> l_lasthostid (locks s k)"
    using g by auto
  have hu: "is_host h ?u" "h \<noteq> myhostid ?u" using h by (simp_all add: is_host_def)
  obtain s' where s': "grantLock (int k) h ?u = Some s'" "quiet s'" "net_frame ?u s'"
    "sent (wire s) (wire s') [sent_msg s h GRANT_LOCK no_ts (int_bytes (int k) @ int_bytes (l_lasthostid (locks s k)))]"
    using grantLock_sends [OF u(1) _ hu] q by (auto simp: locks_frame)
  have "k < LOCK_NUM" using m by (simp add: managed_def)
  then have "handleAcquireMsg m s = Some s'"
    using msg g u(4) s'(1) by (simp add: handleAcquireMsg_def)
  with s' u managed_frame [OF s'(3)] net_frame_locks [OF s'(3)] show ?thesis by auto
qed

lemma handleAcquire_busy:
  assumes m: "managed k s" and h: "is_host h s" and msg: "msg_lockno m = Some (int k)" "m_from m = h"
    and o: "lock_owner (locks s k) = Some g" "h \<noteq> g" "h \<notin> set (lock_queue (locks s k))"
  shows "\<exists>s'. handleAcquireMsg m s = Some s' \<and> managed k s' \<and> wire s' = wire s \<and>
    lock_owner (locks s' k) = Some g \<and> lock_queue (locks s' k) = lock_queue (locks s k) @ [h] \<and>
    s' = s\<lparr>locks := locks s'\<rparr>"
proof -
  obtain s' where "graspLock (int k) h s = Some (- 3, s')" "managed k s'"
    "lock_owner (locks s' k) = Some g" "lock_queue (locks s' k) = lock_queue (locks s k) @ [h]"
    using lm.grasp_busy [OF m h o(1,2,3)] by blast
  moreover have "k < LOCK_NUM" using m by (simp add: managed_def)
  ultimately show ?thesis
    using graspLock_busy [OF m h o(1,2)] msg by (auto simp: handleAcquireMsg_def)
qed

lemma handleRelease_next:
  assumes m: "managed k s" and q: "quiet s" and msg: "msg_lockno m = Some (int k)" "m_from m = h"
    and o: "lock_owner (locks s k) = Some h" "lock_queue (locks s k) = w # ws"
  shows "\<exists>s'. handleReleaseMsg m s = Some s' \<and> managed k s' \<and> quiet s' \<and>
    lock_owner (locks s' k) = Some w \<and> lock_queue (locks s' k) = ws \<and>
    (if w = myhostid s
     then wire s' = wire s \<and> waitFlag s' = 0 \<and> lasthostid s' = h \<and> myLocks s' k = 1 \<and>
       s' = s\<lparr>locks := locks s', lasthostid := h, waitFlag := 0, myLocks := (myLocks s)(k := 1)\<rparr>
     else waitFlag s' = waitFlag s \<and> sent (wire s) (wire s')
       [sent_msg s w GRANT_LOCK no_ts (int_bytes (int k) @ int_bytes h)] \<and> net_frame (s\<lparr>locks := locks s'\<rparr>) s')"
proof -
  have h: "is_host h s" by (rule lm.owner_valid [OF m o(1)])
  let ?u = "s\<lparr>locks := (locks s)(k := next_lock h (locks s k))\<rparr>"
  have f: "freeLock (int k) h s = Some (w, ?u)" by (rule freeLock_next [OF m h o])
  with lm.release_next [OF m o] have u: "managed k ?u" "lock_owner (locks ?u k) = Some w"
    "lock_queue (locks ?u k) = ws" by auto
  have k: "k < LOCK_NUM" using m by (simp add: managed_def)
  have wh: "is_host w ?u" by (rule lm.owner_valid [OF u(1,2)])
  then have w: "0 \<le> w" by (simp add: is_host_def)
  show ?thesis
  proof (cases "w = myhostid s")
    case True
    let ?t = "?u\<lparr>lasthostid := h, waitFlag := 0, myLocks := (myLocks s)(k := 1)\<rparr>"
    have "handleReleaseMsg m s = Some ?t"
      using True msg f k w by (simp add: handleReleaseMsg_def)
    moreover have "managed k ?t = managed k ?u" "quiet ?t = quiet s"
      by (simp_all add: managed_def quiet_def snd_ok_def)
    ultimately show ?thesis using True u q by simp
  next
    case False
    have "lock_owner (locks ?u k) = Some w" using u by simp
    obtain s' where s': "grantLock (int k) w ?u = Some s'" "quiet s'" "net_frame ?u s'"
      "sent (wire s) (wire s') [sent_msg s w GRANT_LOCK no_ts (int_bytes (int k) @ int_bytes h)]"
      using grantLock_sends [OF u(1) _ wh] q False by (auto simp: locks_frame next_lock_def)
    have "handleReleaseMsg m s = Some s'"
      using False msg f k w s'(1) by (simp add: handleReleaseMsg_def)
    with s' u False managed_frame [OF s'(3)] net_frame_locks [OF s'(3)] show ?thesis by auto
  qed
qed

end
