(* ===== verification/Delivery.thy ===== *)
theory Delivery
  imports Exchange
begin

text \<open>
  Requests and answers between two hosts, end to end: what one host sends, handled by the other.
  Sample states of a host that misses a page and of one with an invalid copy give the witnesses.
\<close>

section \<open>Sample states\<close>

text \<open>A page in the log of a host has a notice on the list of the page.\<close>

lemma logged_notice:
  assumes ok: "mem_ok L W P s" and h: "h < MAX_HOST_NUM" and e: "(ts, ps) \<in> set (host_log L W s h)"
    and p: "p \<in> set ps" "page_index p"
  shows "\<exists>v. find (\<lambda>w. notice_ts s w = ts) (P (nat p) h) = Some v"
proof -
  note links = mem_ok_simps(2) [OF ok]
  obtain i where i: "i \<in> set (L h)" "ts = i_timestamp (ivals s ! i)" "ps = map (\<lambda>w. w_pageIndex (wns s ! w)) (W i)"
    using e by (auto simp: host_log_def entry_of_def)
  then obtain w where w: "w \<in> set (W i)" "w_pageIndex (wns s ! w) = p" using p(1) by auto
  have "w_interval (wns s ! w) = Some i"
    using links_notice_alloc(2) [OF links links_interval_alloc [OF links h i(1)] w(1)] .
  then have t: "notice_ts s w = ts" by (simp add: notice_ts_def i(2))
  have k: "nat p < MAX_PAGE_NUM" "int (nat p) = p" using p(2) by (auto simp: page_index_def)
  then have "w \<in> set (P (nat p) h)"
    using links h i(1) w by (auto simp: links_ok_def page_lists_def)
  with t show ?thesis
    by (cases "find (\<lambda>w. notice_ts s w = ts) (P (nat p) h)") (auto simp: find_None_iff)
qed

text \<open>Host 1 after the allocation of the page of \<^const>\<open>sample\<close>, which it misses.\<close>

lemma missing_sample:
  "\<exists>r. mem_ok (\<lambda>g. if g = nat 1 then [0] else []) (\<lambda>_. []) (\<lambda>_ _. []) r \<and>
    p_state (pageArray r 0) = MISS \<and> me r = 1 \<and> hostnum r = 3 \<and> myhostid r = 1 \<and>
    quiet r \<and> recv_ok r \<and> recvQueueSize r = 0"
proof -
  have b: "mem_ok (\<lambda>g. if g = nat 1 then [0] else []) (\<lambda>_. []) (\<lambda>_ _. []) (boot 1 3)" "alloc_ok (boot 1 3)"
    "pagenum (boot 1 3) = 0" "globalAddress (boot 1 3) = 0" "hostnum (boot 1 3) = 3" "myhostid (boot 1 3) = 1"
    using boot_ok [of 1 3] by (simp_all add: MAX_HOST_NUM_def alloc_ok_def)
  obtain x r n where r: "mi_alloc 4096 (boot 1 3) = Some (x, r)"
    "mem_ok (\<lambda>g. if g = nat 1 then [0] else []) (\<lambda>_. []) (\<lambda>_ _. []) r"
    "4096 \<le> int n * int PAGESIZE" "int n * int PAGESIZE < 4096 + int PAGESIZE" "allocated n (boot 1 3) r"
    using mi_alloc_ok [OF b(1,2), of 4096] b(4) by (auto simp: PAGESIZE_def MAX_MEM_SIZE_def)
  then have "n = 1" by (simp add: PAGESIZE_def)
  then obtain f v where "r = (boot 1 3)\<lparr>pageArray := f, vm := v, pagenum := 1, globalAddress := int PAGESIZE\<rparr>"
    "f 0 = new_page (boot 1 3) 0"
    using r(5) b by (auto simp: allocated_def elim!: allE [of _ 0])
  moreover from this have "quiet r = quiet (boot 1 3)" "recv_ok r = recv_ok (boot 1 3)" "recvQueueSize r = recvQueueSize (boot 1 3)"
    by (simp_all add: quiet_def snd_ok_def recv_ok_def)
  ultimately show ?thesis
    using r(2) b(5,6) boot_ok(10) [of 1 3] boot_fields(6,7) [of 1 3]
    by (intro exI [of _ r]) (simp add: new_page_def me_def MAX_HOST_NUM_def)
qed

definition first_packet :: wnPacket_t where
  "first_packet = \<lparr>k_hostid = 0, k_timestamp = zero_ts, k_wnCount = 1,
     k_wnArray = 0 # replicate (MAX_WN_NUM - 1) (- 1)\<rparr>"

text \<open>Host 1 with a copy of the page that a write notice of host 0 has made invalid.\<close>

lemma invalid_sample:
  "\<exists>r L W P v. mem_ok L W P r \<and> p_state (pageArray r 0) = INVALID \<and> me r = 1 \<and>
    vm r (page_addr 0) = Some (PROT_NONE, replicate PAGESIZE 0) \<and>
    find (\<lambda>w. notice_ts r w = zero_ts) (P 0 0) = Some v"
proof -
  let ?L = "\<lambda>g. if g = nat 1 then [0] else []" and ?z = "replicate PAGESIZE (0::byte)"
  obtain q where q: "mem_ok ?L (\<lambda>_. []) (\<lambda>_ _. []) q" "p_state (pageArray q 0) = MISS" "me q = 1"
    "hostnum q = 3" "myhostid q = 1"
    using missing_sample by blast
  define m where "m = packed 0 1 GRANT_PAGE no_ts (int_bytes (int 0) @ ?z)"
  obtain t where t: "mem_ok ?L (\<lambda>_. []) (\<lambda>_ _. [])
      (vm_mprotect (page_addr 0) PROT_READ (page_upd 0 (\<lambda>p. p\<lparr>p_state := RDONLY\<rparr>) t))"
    "vm t = (vm q)(page_addr 0 \<mapsto> (PROT_READ_WRITE, ?z))"
    "t = q\<lparr>vm := vm t, pageArray := (pageArray q)(0 := (pageArray q 0)\<lparr>p_startInterval := intervalNow q\<rparr>),
      fetchPageWaitFlag := 0\<rparr>"
    using handleGrantPage_ok [OF q(1) _ q(2), of ?z m] by (auto simp: m_def)
  define u where "u = vm_mprotect (page_addr 0) PROT_READ (page_upd 0 (\<lambda>p. p\<lparr>p_state := RDONLY\<rparr>) t)"
  have tq: "myhostid t = 1" by (subst t(3)) (simp add: q(5))
  have u: "mem_ok ?L (\<lambda>_. []) (\<lambda>_ _. []) u" "p_state (pageArray u 0) = RDONLY" "myhostid u = 1" "me u = 1"
    "page_bytes u 0 = Some ?z"
    using t(1,2) tq by (simp_all add: u_def page_upd_def vm_mprotect_vm page_bytes_def me_def)
  have pg: "packet_pages first_packet = [0]" by (simp add: packet_pages_def first_packet_def)
  have "packet_ok u first_packet"
    by (simp add: packet_ok_def pg u(3)) (simp add: first_packet_def page_index_def size_consts)
  with incorporateWnPacket_ok [OF u(1)] obtain r L W P where
    r: "mem_ok L W P r" "packet_effect first_packet (host_log ?L (\<lambda>_. []) u) u (host_log L W r) r"
    by blast
  have lg: "(zero_ts, [0]) \<in> set (host_log L W r 0)" "p_state (pageArray r 0) = INVALID" "me r = 1"
    "page_bytes r 0 = Some ?z"
    using r(2) u pg
    by (auto simp: packet_effect_def first_packet_def merge_log_def invalidated_def known_pages_def host_log_def
        MAX_HOST_NUM_def)
  have "vm r (page_addr 0) = Some (PROT_NONE, ?z)"
    using mem_ok_simps(3) [OF r(1), of 0] lg(2,4) by (auto simp: page_ok_def mapped_def page_bytes_def Let_def)
  moreover obtain v where "find (\<lambda>w. notice_ts r w = zero_ts) (P 0 0) = Some v"
    using logged_notice [OF r(1) _ lg(1), of 0] by (auto simp: page_index_def MAX_PAGE_NUM_def PAGESIZE_def MAX_MEM_SIZE_def MAX_HOST_NUM_def)
  ultimately show ?thesis using r(1) lg by blast
qed

section \<open>Properties\<close>

text \<open>A page moves unchanged from its holder to a host that misses it. \<open>grantPage\<close> at the holder
  returns 0 and sends one message (one to 64 times); a host that has the page as \<open>MISS\<close> and handles
  this message gets exactly the bytes of the holder, its waiting flag is cleared, and after the last
  two lines of the fault handler the page is readable and the invariant holds.\<close>

theorem page_transfer:
  assumes "mem_ok L W P s" "quiet s" "0 \<le> h" "h < hostnum s" "h \<noteq> myhostid s" "k < MAX_PAGE_NUM"
    and "vm s (page_addr k) = Some (pr, bs)"
    and "p_state (pageArray s k) = RDONLY \<or> p_state (pageArray s k) = WRITE"
    and "mem_ok L' W' P' r" "p_state (pageArray r k) = MISS"
  shows "\<exists>s' port m t. grantPage h (int k) s = Some (0, s') \<and> mem_ok L W P s' \<and>
    sent (wire s) (wire s') [(nat h, port, m)] \<and> command_of (m_command m) = Some GRANT_PAGE \<and>
    handleGrantPageMsg (Some m) r = Some t \<and> fetchPageWaitFlag t = 0 \<and>
    vm t (page_addr k) = Some (PROT_READ_WRITE, bs) \<and>
    mem_ok L' W' P' (vm_mprotect (page_addr k) PROT_READ (page_upd k (\<lambda>p. p\<lparr>p_state := RDONLY\<rparr>) t))"
proof -
  obtain s' where s': "grantPage h (int k) s = Some (0, s')" "net_frame s s'"
    "sent (wire s) (wire s') [sent_msg s h GRANT_PAGE no_ts (int_bytes (int k) @ bs)]"
    using grantPage_sends [OF assms(1-8)] by auto
  have "length bs = PAGESIZE"
    using mem_ok_simps(3) [OF assms(1,6)] assms(7,8) by (auto simp: page_ok_def mapped_def Let_def)
  then obtain t where t: "handleGrantPageMsg (Some (snd (snd (sent_msg s h GRANT_PAGE no_ts (int_bytes (int k) @ bs))))) r = Some t"
    "fetchPageWaitFlag t = 0" "vm t = (vm r)(page_addr k \<mapsto> (PROT_READ_WRITE, bs))"
    "mem_ok L' W' P' (vm_mprotect (page_addr k) PROT_READ (page_upd k (\<lambda>p. p\<lparr>p_state := RDONLY\<rparr>) t))"
    using handleGrantPage_ok [OF assms(9,6,10), of bs "snd (snd (sent_msg s h GRANT_PAGE no_ts (int_bytes (int k) @ bs)))"]
    by (auto simp: sent_msg_def)
  have "mem_ok L W P s'"
    using assms(1) mem_ok_same_mem [OF same_mem_net_frame [OF s'(2)]] by simp
  moreover have "command_of (m_command (snd (snd (sent_msg s h GRANT_PAGE no_ts (int_bytes (int k) @ bs))))) =
      Some GRANT_PAGE"
    by (simp add: sent_msg_def command_of_def commands_def)
  moreover have "vm t (page_addr k) = Some (PROT_READ_WRITE, bs)" by (simp add: t(3))
  moreover have "sent_msg s h GRANT_PAGE no_ts (int_bytes (int k) @ bs) =
      (nat h, dataPorts s (nat h) (nat (myhostid s)), snd (snd (sent_msg s h GRANT_PAGE no_ts (int_bytes (int k) @ bs))))"
    by (simp add: sent_msg_def)
  ultimately show ?thesis using s'(1,3) t(1,2,4) by metis
qed

theorem page_transfer_witness:
  "\<exists>r s' m t. p_state (pageArray r 0) = MISS \<and> grantPage 1 0 sample = Some (0, s') \<and>
    handleGrantPageMsg (Some m) r = Some t \<and>
    vm t (page_addr 0) = Some (PROT_READ_WRITE, replicate PAGESIZE 0)"
proof -
  obtain r where r: "mem_ok (\<lambda>g. if g = nat 1 then [0] else []) (\<lambda>_. []) (\<lambda>_ _. []) r"
    "p_state (pageArray r 0) = MISS"
    using missing_sample by blast
  have "(0::nat) < MAX_PAGE_NUM" "1 < hostnum sample" "1 \<noteq> myhostid sample"
    by (simp_all add: sample_ok MAX_PAGE_NUM_def MAX_MEM_SIZE_def PAGESIZE_def)
  with page_transfer [OF sample_ok(1,11) _ _ _ _ sample_ok(10) disjI1 [OF sample_ok(3)] r, of 1]
  obtain s' m t where "grantPage 1 (int 0) sample = Some (0, s')" "handleGrantPageMsg (Some m) r = Some t"
    "vm t (page_addr 0) = Some (PROT_READ_WRITE, replicate PAGESIZE 0)"
    by auto
  with r(2) show ?thesis by auto
qed

text \<open>What \<open>handleFetchDiffMsg\<close> reads in a request.\<close>

lemma fetch_diff_request:
  assumes "k < MAX_PAGE_NUM" "ts_ok ts"
  shows "peek_int (poke (\<lambda>_. 0) 0 (int_bytes (int k) @ ints_bytes ts)) 0 = int k"
    "peek_ints (poke (\<lambda>_. 0) 0 (int_bytes (int k) @ ints_bytes ts)) 4 MAX_HOST_NUM = ts"
proof -
  have ts: "length ts = MAX_HOST_NUM" "list_all in32 ts" and i: "in32 (int k)"
    using assms by (simp_all add: ts_ok_def in32_def size_consts)
  show "peek_int (poke (\<lambda>_. 0) 0 (int_bytes (int k) @ ints_bytes ts)) 0 = int k"
    by (rule peek_int_packed) (use i in simp_all)
  show "peek_ints (poke (\<lambda>_. 0) 0 (int_bytes (int k) @ ints_bytes ts)) 4 MAX_HOST_NUM = ts"
    by (rule peek_ints_packed) (use ts in simp_all)
qed

text \<open>C7: The bytes a host has written reach the host that asks for them. The writer \<open>s\<close> holds page \<open>k\<close> with
  content \<open>bs\<close> and twin \<open>twin\<close>; the reader \<open>r\<close> has the writer's twin as its invalid copy and a notice of the
  writing. When the writer handles the FETCH_DIFF request of the reader, it stores the diff in its own notice,
  ends the writing (the page is readable, the twin is gone, its content stays) and sends one message. When the
  reader handles that message it has the content \<open>bs\<close>, no other page changes, the diff is stored in the notice
  it was asked for unless that one had a diff already, and in no other one. Both invariants are kept.\<close>

theorem diff_transfer:
  assumes "mem_ok L W P s" "quiet s" "int (me r) < hostnum s" "me s \<noteq> me r" "k < MAX_PAGE_NUM"
    and "p_state (pageArray s k) = WRITE" "find (\<lambda>w. notice_ts s w = ts) (P k (me s)) = Some w"
    and "w = hd (P k (me s))"
    and "vm s (page_addr k) = Some (PROT_READ_WRITE, bs)" "p_twinPage (pageArray s k) = Some twin"
    and "mem_ok L' W' P' r" "p_state (pageArray r k) = INVALID"
    and "vm r (page_addr k) = Some (PROT_NONE, twin)"
    and "find (\<lambda>w. notice_ts r w = ts) (P' k (me s)) = Some v"
    and "m_from q = int (me r)" "m_data q = poke (\<lambda>_. 0) 0 (int_bytes (int k) @ ints_bytes ts)"
  shows "\<exists>s' port m t d. handleFetchDiffMsg q s = Some s' \<and> mem_ok L W P s' \<and>
    createLocalDiff (Some bs) (Some twin) = Some d \<and> w_diffAddress (wns s' ! w) = Some d \<and>
    p_state (pageArray s' k) = RDONLY \<and> p_twinPage (pageArray s' k) = None \<and>
    vm s' (page_addr k) = Some (PROT_READ, bs) \<and>
    sent (wire s) (wire s') [(me r, port, m)] \<and> m_command m = cmd_code GRANT_DIFF \<and>
    handleGrantDiffMsg (Some m) r = Some t \<and> mem_ok L' W' P' t \<and> fetchDiffWaitFlag t = 0 \<and>
    (\<forall>u. w_diffAddress (wns t ! u) =
      (if u = v \<and> w_diffAddress (wns r ! v) = None then Some d else w_diffAddress (wns r ! u))) \<and>
    vm t = (vm r)(page_addr k \<mapsto> (PROT_NONE, bs))"
proof -
  have host: "host_ok s" "host_ok r" using assms(1,11) by (simp_all add: mem_ok_def)
  note hme = host_ok_me(1,3) [OF host(1)]
  have wP: "w \<in> set (P k (me s))" "notice_ts s w = ts" using assms(7) by (auto simp: find_Some_iff)
  have "w_diffAddress (wns s ! hd (P k (me s))) = None" "length bs = PAGESIZE" "length twin = PAGESIZE"
    using mem_ok_simps(3) [OF assms(1,5)] by (simp_all add: page_ok_def mapped_def Let_def assms(6,9,10))
  then have st: "w_diffAddress (wns s ! w) = None" "length bs = PAGESIZE" "length twin = PAGESIZE"
    using assms(8) by simp_all
  have wl: "w < length (wns s)" "ts_ok ts" using notice_ts_ok [OF assms(1,5) hme(1) wP(1)] wP(2) by auto
  have vl: "v < length (wns r)"
    using notice_ts_ok(1) [OF assms(11,5) hme(1), of v] assms(14) by (auto simp: find_Some_iff)
  let ?u = "with_diff k w s" and ?d = "diff_of bs twin"
  have u: "p_state (pageArray ?u k) = RDONLY" "p_twinPage (pageArray ?u k) = None"
    "vm ?u (page_addr k) = Some (PROT_READ, bs)" "w_diffAddress (wns ?u ! w) = Some ?d"
    using st(1) assms(9,10) wl(1) by (simp_all add: with_diff_def)
  obtain s' where s': "grantDiff (int (me r)) (Some ts) (int k) s = Some (0, s')" "net_frame ?u s'"
    "sent (wire s) (wire s') [sent_msg s (int (me r)) GRANT_DIFF no_ts (ints_bytes ts @ int_bytes (int k) @ ?d)]"
    using grantDiff_sends [OF assms(1,2) _ assms(3) _ assms(5) _ assms(7)] assms(4,6) u(4) hme(2) by auto
  have req: "handleFetchDiffMsg q s = Some s'"
    using s'(1) fetch_diff_request [OF assms(5) wl(2)] by (simp add: handleFetchDiffMsg_def assms(15,16))
  have sm: "same_mem ?u s'" by (rule same_mem_net_frame [OF s'(2)])
  then have writer: "mem_ok L W P s'" "p_state (pageArray s' k) = RDONLY" "p_twinPage (pageArray s' k) = None"
    "vm s' (page_addr k) = Some (PROT_READ, bs)" "w_diffAddress (wns s' ! w) = Some ?d"
    using with_diff_ok(1) [OF assms(1,5) wP(1)] u
    by (simp_all add: mem_ok_same_mem [OF sm]) (use sm u in \<open>simp_all add: same_mem_def\<close>)
  define m where "m = snd (snd (sent_msg s (int (me r)) GRANT_DIFF no_ts (ints_bytes ts @ int_bytes (int k) @ ?d)))"
  have m: "m_from m = int (me s)" "m_data m = poke (\<lambda>_. 0) 0 (ints_bytes ts @ int_bytes (int k) @ ?d)"
    "m_command m = cmd_code GRANT_DIFF"
    using hme(2) by (simp_all add: m_def sent_msg_def packed_def)
  have d: "length ?d = PAGESIZE" "patch twin ?d = bs"
    using st page_diff.apply_make [of bs PAGESIZE twin] by (simp_all add: diff_of_eq patch_eq)
  note recv = handleGrantDiff_ok [OF assms(11,5) hme(1) assms(4,12,13,14) d(1) m(1,2)]
  let ?t = "diff_applied k v twin ?d r"
  have reader: "vm ?t = (vm r)(page_addr k \<mapsto> (PROT_NONE, bs))" "fetchDiffWaitFlag ?t = 0"
    "\<forall>u. w_diffAddress (wns ?t ! u) =
      (if u = v \<and> w_diffAddress (wns r ! v) = None then Some ?d else w_diffAddress (wns r ! u))"
    using vl by (simp_all add: diff_applied_def d(2) nth_list_update)
  have "sent_msg s (int (me r)) GRANT_DIFF no_ts (ints_bytes ts @ int_bytes (int k) @ ?d) =
      (me r, dataPorts s (me r) (nat (myhostid s)), m)"
    by (simp add: sent_msg_def m_def)
  moreover have "createLocalDiff (Some bs) (Some twin) = Some ?d" by (simp add: diff_of_def createLocalDiff_eq)
  ultimately show ?thesis using req s'(3) m(3) writer recv reader
    by (intro exI [of _ s'] exI [of _ "dataPorts s (me r) (nat (myhostid s))"] exI [of _ m] exI [of _ ?t] exI [of _ ?d])
      simp
qed

theorem diff_transfer_witness:
  "\<exists>s r q s' m t w v d. write_fault 0 sample = Some s \<and> p_state (pageArray r 0) = INVALID \<and>
    handleFetchDiffMsg q s = Some s' \<and> handleGrantDiffMsg (Some m) r = Some t \<and>
    w_diffAddress (wns s' ! w) = Some d \<and> w_diffAddress (wns t ! v) \<noteq> None \<and>
    vm t (page_addr 0) = Some (PROT_NONE, replicate PAGESIZE 0)"
proof -
  let ?z = "replicate PAGESIZE (0::byte)"
  have k: "(0::nat) < MAX_PAGE_NUM" by (simp add: MAX_PAGE_NUM_def MAX_MEM_SIZE_def PAGESIZE_def)
  have h: "me written = 0" by (simp add: written_ok)
  have "entry_of written_W written 0 = (zero_ts, [0])"
    using written_ok(11) [of 0] by (simp add: host_log_def MAX_HOST_NUM_def)
  then have "notice_ts written 0 = zero_ts"
    using links_notice_alloc(2) [OF mem_ok_simps(2) [OF written_ok(2)], of 0 0]
      links_interval_alloc [OF mem_ok_simps(2) [OF written_ok(2)], of 0 0]
    by (simp add: notice_ts_def entry_of_def MAX_HOST_NUM_def)
  then have f: "find (\<lambda>w. notice_ts written w = zero_ts) (written_P 0 (me written)) = Some 0"
    "0 = hd (written_P 0 (me written))"
    by (simp_all add: h)
  obtain r L W P v where r: "mem_ok L W P r" "p_state (pageArray r 0) = INVALID" "me r = 1"
    "vm r (page_addr 0) = Some (PROT_NONE, ?z)"
    "find (\<lambda>w. notice_ts r w = zero_ts) (P 0 0) = Some v"
    using invalid_sample by blast
  have far: "me written \<noteq> me r" "find (\<lambda>w. notice_ts r w = zero_ts) (P 0 (me written)) = Some v"
    using h r by simp_all
  define q where "q = packed 1 0 FETCH_DIFF no_ts (int_bytes (int 0) @ ints_bytes zero_ts)"
  have q: "m_from q = int (me r)" "m_data q = poke (\<lambda>_. 0) 0 (int_bytes (int 0) @ ints_bytes zero_ts)"
    by (simp_all add: q_def packed_def r(3))
  have n: "int (me r) < hostnum written" by (simp add: written_ok r(3))
  from diff_transfer [OF written_ok(2,9) n far(1) k written_ok(4) f written_ok(3,5) r(1,2,4) far(2) q]
  obtain s' m t d where "handleFetchDiffMsg q written = Some s'" "w_diffAddress (wns s' ! 0) = Some d"
    "handleGrantDiffMsg (Some m) r = Some t" "vm t = (vm r)(page_addr 0 \<mapsto> (PROT_NONE, ?z))"
    "w_diffAddress (wns t ! v) = (if w_diffAddress (wns r ! v) = None then Some d else w_diffAddress (wns r ! v))"
    by auto
  moreover from this(5) have "w_diffAddress (wns t ! v) \<noteq> None" by (auto split: if_splits)
  ultimately show ?thesis using written_ok(1) r(2) by (metis fun_upd_same)
qed

text \<open>C35: A diff message that is handled twice is applied twice: \<open>handleGrantDiffMsg\<close> adds the diff to
  the page although the notice already holds it. Messages are retransmitted whenever an
  acknowledgement is late, and no handler compares sequence numbers, so the page then differs from
  every version of the writer at each byte that the diff changes (unless twice the change is 0).\<close>

theorem duplicate_diff:
  assumes "mem_ok L W P s" "k < MAX_PAGE_NUM" "h < MAX_HOST_NUM" "h \<noteq> me s"
    and "p_state (pageArray s k) = INVALID" "vm s (page_addr k) = Some (PROT_NONE, bs)"
    and "find (\<lambda>w. notice_ts s w = ts) (P k h) = Some w" "length d = PAGESIZE"
    and "m_from m = int h" "m_data m = poke (\<lambda>_. 0) 0 (ints_bytes ts @ int_bytes (int k) @ d)"
  shows "\<exists>t u. handleGrantDiffMsg (Some m) s = Some t \<and> handleGrantDiffMsg (Some m) t = Some u \<and>
    vm t (page_addr k) = Some (PROT_NONE, patch bs d) \<and>
    vm u (page_addr k) = Some (PROT_NONE, patch (patch bs d) d) \<and>
    (\<forall>i<PAGESIZE. d ! i \<noteq> 0 \<longrightarrow> patch (patch bs d) d ! i \<noteq> patch bs d ! i)"
proof -
  note one = handleGrantDiff_ok [OF assms]
  let ?t = "diff_applied k w bs d s"
  have bs: "length bs = PAGESIZE"
    using mem_ok_simps(3) [OF assms(1,2)] assms(5,6) by (auto simp: page_ok_def mapped_def Let_def)
  have t: "p_state (pageArray ?t k) = INVALID" "vm ?t (page_addr k) = Some (PROT_NONE, patch bs d)" "me ?t = me s"
    using assms(5) by (simp_all add: diff_applied_def me_def)
  have "w < length (wns s)"
    using notice_ts_ok(1) [OF assms(1-3)] assms(7) by (auto simp: find_Some_iff)
  then have "notice_ts ?t x = notice_ts s x" for x
    by (cases "x = w") (simp_all add: notice_ts_def diff_applied_def)
  then have f: "find (\<lambda>w. notice_ts ?t w = ts) (P k h) = Some w" using assms(7) by simp
  note two = handleGrantDiff_ok [OF one(2) assms(2,3) _ t(1,2) f assms(8-10)]
  have "vm (diff_applied k w (patch bs d) d ?t) (page_addr k) = Some (PROT_NONE, patch (patch bs d) d)"
    by (simp add: diff_applied_def)
  moreover have "\<forall>i<PAGESIZE. d ! i \<noteq> 0 \<longrightarrow> patch (patch bs d) d ! i \<noteq> patch bs d ! i"
    using bs assms(8) by (simp add: patch_eq)
  ultimately show ?thesis using one(1) two(1) t assms(4) by auto
qed

theorem duplicate_diff_witness:
  "\<exists>r m t u. handleGrantDiffMsg (Some m) r = Some t \<and> handleGrantDiffMsg (Some m) t = Some u \<and>
    vm t (page_addr 0) \<noteq> vm u (page_addr 0)"
proof -
  obtain r L W P v where r: "mem_ok L W P r" "p_state (pageArray r 0) = INVALID" "me r = 1"
    "vm r (page_addr 0) = Some (PROT_NONE, replicate PAGESIZE 0)"
    "find (\<lambda>w. notice_ts r w = zero_ts) (P 0 0) = Some v"
    using invalid_sample by blast
  define m where "m = packed 0 1 GRANT_DIFF no_ts (ints_bytes zero_ts @ int_bytes (int 0) @ replicate PAGESIZE 1)"
  let ?z = "replicate PAGESIZE (0::byte)" and ?d = "replicate PAGESIZE (1::byte)"
  have m: "m_from m = int 0" "m_data m = poke (\<lambda>_. 0) 0 (ints_bytes zero_ts @ int_bytes (int 0) @ ?d)"
    by (simp_all add: m_def)
  have k: "(0::nat) < MAX_PAGE_NUM" "(0::nat) < MAX_HOST_NUM" "0 \<noteq> me r"
    by (simp_all add: MAX_PAGE_NUM_def MAX_MEM_SIZE_def PAGESIZE_def MAX_HOST_NUM_def r(3))
  obtain t u where tu: "handleGrantDiffMsg (Some m) r = Some t" "handleGrantDiffMsg (Some m) t = Some u"
    "vm t (page_addr 0) = Some (PROT_NONE, patch ?z ?d)" "vm u (page_addr 0) = Some (PROT_NONE, patch (patch ?z ?d) ?d)"
    "\<forall>i<PAGESIZE. ?d ! i \<noteq> 0 \<longrightarrow> patch (patch ?z ?d) ?d ! i \<noteq> patch ?z ?d ! i"
    using duplicate_diff [OF r(1) k r(2,4,5) _ m] by auto
  have "patch (patch ?z ?d) ?d ! 0 \<noteq> patch ?z ?d ! 0"
    using tu(5) [rule_format, of 0] by (simp add: PAGESIZE_def)
  then have "patch ?z ?d \<noteq> patch (patch ?z ?d) ?d" by metis
  with tu(3,4) have "vm t (page_addr 0) \<noteq> vm u (page_addr 0)" by simp
  with tu(1,2) show ?thesis by blast
qed

text \<open>A request for a lock, from the text the requester sends to the answer of the manager. The
  manager reads back the number of the lock, whatever the requester's stack held; if the lock is free
  the requester becomes its owner and gets a grant with the number of the last holder, if it is in use
  the requester is queued behind the others and nothing is sent.\<close>

theorem lock_request:
  assumes "managed k s" "quiet s" "is_host h s" "h \<noteq> myhostid s"
    and "lock_owner (locks s k) \<noteq> Some h" "h \<notin> set (lock_queue (locks s k))"
    and "m = packed h (myhostid s) ACQ_LOCK no_ts (take 4 (sprintf_buffer (int k) stack))"
  shows "\<exists>s'. handleAcquireMsg m s = Some s' \<and> managed k s' \<and>
    (case lock_owner (locks s k) of
       None \<Rightarrow> lock_owner (locks s' k) = Some h \<and> lock_queue (locks s' k) = [] \<and>
         sent (wire s) (wire s')
           [sent_msg s h GRANT_LOCK no_ts (int_bytes (int k) @ int_bytes (l_lasthostid (locks s k)))]
     | Some g \<Rightarrow> lock_owner (locks s' k) = Some g \<and>
         lock_queue (locks s' k) = lock_queue (locks s k) @ [h] \<and> wire s' = wire s)"
proof -
  have k: "k < LOCK_NUM" using assms(1) by (simp add: managed_def)
  let ?d = "poke (\<lambda>_. 0) 0 (take 4 (sprintf_buffer (int k) stack))"
  have "length (sprintf_buffer (int k) stack) = 20" by (simp add: sprintf_buffer_def Let_def)
  then have d: "peek ?d 0 4 = take 4 (sprintf_buffer (int k) stack)" "?d 4 = 0"
    by (simp_all add: heap_simps)
  have "m = m\<lparr>m_data := ?d\<rparr>" by (simp add: assms(7) packed_def)
  then have no: "msg_lockno m = Some (int k)"
    using msg_lockno_text [of "int k" ?d stack m] k d by simp
  have fr: "m_from m = h" by (simp add: assms(7))
  show ?thesis
  proof (cases "lock_owner (locks s k)")
    case None
    with handleAcquire_idle [OF assms(1-4) no fr] show ?thesis by auto
  next
    case (Some g)
    with handleAcquire_busy [OF assms(1,3) no fr Some] assms(5,6) show ?thesis by auto
  qed
qed

theorem lock_request_witness:
  "\<exists>s'. handleAcquireMsg (packed 1 0 ACQ_LOCK no_ts (take 4 (sprintf_buffer (int 12) (\<lambda>_. 77)))) sample = Some s' \<and>
    lock_owner (locks s' 12) = Some 1"
proof -
  have m: "managed 12 sample" "is_host 1 sample" "lock_owner (locks sample 12) = None"
    "lock_queue (locks sample 12) = []"
    using lock_ok_free [of 3]
    by (simp_all add: managed_def sample_ok is_host_def LOCK_NUM_def MAX_HOST_NUM_def)
      (simp_all add: free_lock_def lock_owner_def lock_queue_def)
  from lock_request [OF m(1) sample_ok(11) m(2) _ _ _ refl, of "\<lambda>_. 77"] m(3,4) show ?thesis
    by (auto simp: sample_ok)
qed

text \<open>C33: The release of a lock hands it over: the owner's release message makes the longest waiting
  host the owner. If that is another host it is sent a grant that names the releasing host as the last
  holder; if it is the manager itself, its waiting flag is cleared and it holds the lock.\<close>

theorem lock_handover:
  assumes "managed k s" "quiet s" "lock_owner (locks s k) = Some h" "lock_queue (locks s k) = w # ws"
    and "m = packed h (myhostid s) RLS_LOCK no_ts (take 4 (sprintf_buffer (int k) stack))"
  shows "\<exists>s'. handleReleaseMsg m s = Some s' \<and> managed k s' \<and>
    lock_owner (locks s' k) = Some w \<and> lock_queue (locks s' k) = ws \<and>
    (if w = myhostid s
     then wire s' = wire s \<and> waitFlag s' = 0 \<and> lasthostid s' = h \<and> myLocks s' k = 1
     else waitFlag s' = waitFlag s \<and> sent (wire s) (wire s')
       [sent_msg s w GRANT_LOCK no_ts (int_bytes (int k) @ int_bytes h)])"
proof -
  have k: "k < LOCK_NUM" using assms(1) by (simp add: managed_def)
  let ?d = "poke (\<lambda>_. 0) 0 (take 4 (sprintf_buffer (int k) stack))"
  have "length (sprintf_buffer (int k) stack) = 20" by (simp add: sprintf_buffer_def Let_def)
  then have d: "peek ?d 0 4 = take 4 (sprintf_buffer (int k) stack)" "?d 4 = 0"
    by (simp_all add: heap_simps)
  have "m = m\<lparr>m_data := ?d\<rparr>" by (simp add: assms(5) packed_def)
  then have no: "msg_lockno m = Some (int k)"
    using msg_lockno_text [of "int k" ?d stack m] k d by simp
  have fr: "m_from m = h" by (simp add: assms(5))
  show ?thesis using handleRelease_next [OF assms(1,2) no fr assms(3,4)] by auto
qed

theorem lock_handover_witness:
  "\<exists>(s :: mem_st) s'. lock_owner (locks s 12) = Some 1 \<and>
    handleReleaseMsg (packed 1 0 RLS_LOCK no_ts (take 4 (sprintf_buffer (int 12) (\<lambda>_. 77)))) s = Some s' \<and>
    lock_owner (locks s' 12) = Some 2 \<and> wire s' \<noteq> wire s"
proof -
  let ?l = "\<lparr>l_state = LOCKED, l_owner = 1, l_lasthostid = - 1,
    l_waitingList = 2 # replicate 19 (- 1), l_waitingListCount = 1\<rparr>"
  let ?s = "sample\<lparr>locks := (locks sample)(12 := ?l)\<rparr>"
  have "lock_ok 3 ?l" by (simp add: lock_ok_def lock_owner_def lock_queue_def MAX_HOST_NUM_def)
  then have m: "managed 12 ?s" "quiet ?s" "lock_owner (locks ?s 12) = Some 1" "lock_queue (locks ?s 12) = 2 # []"
    "wire ?s = []" "myhostid ?s = 0"
    by (simp_all add: managed_def sample_ok LOCK_NUM_def MAX_HOST_NUM_def locks_frame lock_owner_def lock_queue_def)
  obtain s' where s': "handleReleaseMsg (packed 1 0 RLS_LOCK no_ts (take 4 (sprintf_buffer (int 12) (\<lambda>_. 77)))) ?s = Some s'"
    "lock_owner (locks s' 12) = Some 2" "sent [] (wire s') [sent_msg ?s 2 GRANT_LOCK no_ts (int_bytes (int 12) @ int_bytes 1)]"
    using lock_handover [OF m(1-4) refl, of "\<lambda>_. 77"] unfolding m(5,6) by auto
  have "wire s' \<noteq> wire ?s"
    using s'(3) m(5) by (auto simp: sent_single)
  with s'(1,2) m(3) show ?thesis by blast
qed

end
