(* ===== verification/Barrier.thy ===== *)
theory Barrier
  imports Delivery
begin

text \<open>
  The barrier (\<open>sendEnterBarrierInfo\<close>, \<open>returnAllBarrierInfo\<close>, \<open>handleGrantEnterBarrierMsg\<close>,
  \<open>handleGrantExitBarrierMsg\<close> of \<open>src/mem.c\<close>; \<open>handleEnterBarrierMsg\<close>, \<open>checkBarrierFlags\<close> of
  \<open>src/syn.c\<close>). Host 0 collects the write notices of every host and returns to each the ones it
  lacks. Both directions pack the notices into as many messages as are needed.
\<close>

section \<open>Packing\<close>

text \<open>The message under construction with the local variables \<open>packetNum\<close> and \<open>firstMsgSent\<close>.\<close>

type_synonym batch = "msgref \<times> int \<times> int"

text \<open>
  One packet is appended; if no further packet fits (the comparison is one of \<open>size_t\<close>) the message
  is sent and a new one is started, addressed to \<open>to'\<close>.
\<close>

definition put_packet :: "int \<Rightarrow> command_t \<Rightarrow> wnPacket_t \<Rightarrow> batch \<Rightarrow> mem_st \<Rightarrow> (batch \<times> mem_st) option" where
  "put_packet to' cmd packet b s =
     (case b of (r, packetNum, firstMsgSent) \<Rightarrow> do {
        (_, s) \<leftarrow> apendMsgData (Some r) (Some (packet_bytes packet)) (int PACKET_SIZE) s;
        let packetNum = packetNum + 1;
        (if int PACKET_SIZE > (int DATA_SIZE - m_size (msg_at s r)) mod 2 ^ 64 then do {
           s \<leftarrow> msg_upd (Some r) (\<lambda>m. m\<lparr>m_data := poke (m_data m) 0 (int_bytes packetNum)\<rparr>) s;
           (_, s) \<leftarrow> sendMsg (Some r) s;
           (r, s) \<leftarrow> new_msg to' cmd s;
           (_, s) \<leftarrow> apendMsgData (Some r) (Some (int_bytes packetNum)) 4 s;
           Some ((r, 0, 1), s) }
         else Some ((r, packetNum, firstMsgSent), s)) })"

text \<open>The inner loop, over the notices of an interval that are left.\<close>

partial_function (option) put_left ::
    "int \<Rightarrow> command_t \<Rightarrow> int \<Rightarrow> timestamp \<Rightarrow> ptr \<Rightarrow> batch \<Rightarrow> mem_st \<Rightarrow> (batch \<times> mem_st) option" where
  "put_left to' cmd h ts p b s =
     (if p = None then Some (b, s)
      else do {
        x \<leftarrow> addWNIIntoPacketForHost s empty_packet h (Some ts) p;
        y \<leftarrow> put_packet to' cmd (snd x) b s;
        put_left to' cmd h ts (fst x) (fst y) (snd y) })"

text \<open>All notices of one interval; a message that fills up in the inner loop is followed by one to
  \<open>to_left\<close>.\<close>

definition put_interval ::
    "int \<Rightarrow> int \<Rightarrow> command_t \<Rightarrow> int \<Rightarrow> interval_t \<Rightarrow> batch \<Rightarrow> mem_st \<Rightarrow> (batch \<times> mem_st) option" where
  "put_interval to' to_left cmd h iv b s =
     do { (left, packet) \<leftarrow> addWNIIntoPacketForHost s empty_packet h (Some (i_timestamp iv)) (i_notices iv);
          (b, s) \<leftarrow> put_packet to' cmd packet b s;
          put_left to_left cmd h (i_timestamp iv) left b s }"

text \<open>The end of both functions: what is left, or an empty first message, is sent.\<close>

definition put_rest :: "batch \<Rightarrow> mem_st \<Rightarrow> mem_st option" where
  "put_rest b s =
     (case b of (r, packetNum, firstMsgSent) \<Rightarrow>
        if packetNum \<noteq> 0 \<or> firstMsgSent = 0 then do {
          s \<leftarrow> msg_upd (Some r) (\<lambda>m. m\<lparr>m_data := poke (m_data m) 0 (int_bytes packetNum)\<rparr>) s;
          (_, s) \<leftarrow> sendMsg (Some r) s;
          Some s }
        else Some s)"

section \<open>Entering\<close>

text \<open>The search for the interval that the last barrier began; running into NULL is undefined.\<close>

partial_function (option) find_barrier :: "mem_st \<Rightarrow> ptr \<Rightarrow> nat option" where
  "find_barrier s p =
     (case p of None \<Rightarrow> None
      | Some k \<Rightarrow> do { iv \<leftarrow> iv_get s p; if i_isBarrier iv \<noteq> 1 then find_barrier s (i_next iv) else Some k })"

partial_function (option) enter_intervals ::
    "int \<Rightarrow> ptr \<Rightarrow> batch \<Rightarrow> mem_st \<Rightarrow> (batch \<times> mem_st) option" where
  "enter_intervals h p b s =
     (case p of None \<Rightarrow> Some (b, s)
      | Some k \<Rightarrow> do {
          iv \<leftarrow> iv_get s p;
          y \<leftarrow> (if i_notices iv \<noteq> None then put_interval 0 0 GRANT_ENTER_BARRIER_INFO h iv b s
                 else Some (b, s));
          enter_intervals h (i_prev iv) (fst y) (snd y) })"

text \<open>The first \<open>n\<close> components of a timestamp replaced, for the loops over the hosts.\<close>

definition set_ts :: "int \<Rightarrow> timestamp \<Rightarrow> timestamp \<Rightarrow> timestamp option" where
  "set_ts n new old =
     (if n \<le> int (length new) \<and> n \<le> int (length old)
      then Some (take (nat n) new @ drop (nat n) old) else None)"

definition sendEnterBarrierInfo :: "mem_st \<Rightarrow> mem_st option" where
  "sendEnterBarrierInfo s =
     (if myhostid s = 0 then Some s
      else do {
        me \<leftarrow> aidx (myhostid s) MAX_HOST_NUM;
        interval \<leftarrow> find_barrier s (pr_intervalList (procArray s me));
        (r, s) \<leftarrow> new_msg 0 GRANT_ENTER_BARRIER_INFO s;
        now \<leftarrow> iv_get s (intervalNow s);
        ts \<leftarrow> set_ts (hostnum s) (i_timestamp now) (m_timestamp (msg_at s r));
        s \<leftarrow> msg_upd (Some r) (\<lambda>m. m\<lparr>m_timestamp := ts\<rparr>) s;
        (_, s) \<leftarrow> apendMsgData (Some r) (Some (int_bytes 0)) 4 s;
        (b, s) \<leftarrow> enter_intervals (myhostid s) (Some interval) (r, 0, 0) s;
        put_rest b s })"

definition handleGrantEnterBarrierMsg :: "mimsg_t option \<Rightarrow> mem_st \<Rightarrow> mem_st option" where
  "handleGrantEnterBarrierMsg msg s =
     (case msg of None \<Rightarrow> Some s
      | Some m \<Rightarrow> do {
          s \<leftarrow> (if m_timestamp m ! 0 \<noteq> - 1 then do {
                   h \<leftarrow> aidx (m_from m) MAX_HOST_NUM;
                   Some (if barrierTimestamps s h ! 0 = - 1
                         then s\<lparr>barrierTimestamps := (barrierTimestamps s)(h := m_timestamp m)\<rparr> else s) }
                 else Some s);
          packets \<leftarrow> packets_of (m_data m);
          incorporate_all packets s })"

section \<open>Leaving\<close>

text \<open>From the oldest interval of host \<open>j\<close> to its newest, what host \<open>i\<close> lacks according to \<open>ts\<close>.\<close>

partial_function (option) exit_intervals ::
    "int \<Rightarrow> timestamp \<Rightarrow> int \<Rightarrow> ptr \<Rightarrow> batch \<Rightarrow> mem_st \<Rightarrow> (batch \<times> mem_st) option" where
  "exit_intervals i ts j p b s =
     (case p of None \<Rightarrow> Some (b, s)
      | Some k \<Rightarrow> do {
          iv \<leftarrow> iv_get s p;
          a \<leftarrow> isAfterInterval (hostnum s) (Some (i_timestamp iv)) (Some ts);
          y \<leftarrow> (if a \<noteq> 0 \<and> i_notices iv \<noteq> None
                 then put_interval i 0 GRANT_EXIT_BARRIER_INFO j iv b s else Some (b, s));
          exit_intervals i ts j (i_prev iv) (fst y) (snd y) })"

function exit_hosts :: "int \<Rightarrow> timestamp \<Rightarrow> nat \<Rightarrow> int \<Rightarrow> batch \<Rightarrow> mem_st \<Rightarrow> (batch \<times> mem_st) option" where
  "exit_hosts i ts j hn b s =
     (if int j < hn then do {
        h \<leftarrow> aidx (int j) MAX_HOST_NUM;
        y \<leftarrow> (case pr_intervalList (procArray s h) of
               None \<Rightarrow> Some (b, s)
             | Some k \<Rightarrow> do { oldest \<leftarrow> chain_last (nextI s) k;
                            exit_intervals i ts (int j) (Some oldest) b s });
        exit_hosts i ts (Suc j) hn (fst y) (snd y) }
      else Some (b, s))"
  by pat_completeness auto
termination
  by (relation "measure (\<lambda>(i, ts, j, hn, b, s). nat (hn - int j))") auto

declare exit_hosts.simps [simp del]

text \<open>The messages to host \<open>i\<close>.\<close>

definition exit_info :: "timestamp \<Rightarrow> nat \<Rightarrow> mem_st \<Rightarrow> mem_st option" where
  "exit_info timestamp i s =
     do { (r, s) \<leftarrow> new_msg (int i) GRANT_EXIT_BARRIER_INFO s;
          ts \<leftarrow> set_ts (hostnum s) timestamp (m_timestamp (msg_at s r));
          s \<leftarrow> msg_upd (Some r) (\<lambda>m. m\<lparr>m_timestamp := ts\<rparr>) s;
          (_, s) \<leftarrow> apendMsgData (Some r) (Some (int_bytes 0)) 4 s;
          (b, s) \<leftarrow> exit_hosts (int i) (barrierTimestamps s i) 0 (hostnum s) (r, 0, 0) s;
          put_rest b s }"

fun exit_infos :: "timestamp \<Rightarrow> nat list \<Rightarrow> mem_st \<Rightarrow> mem_st option" where
  "exit_infos timestamp [] s = Some s"
| "exit_infos timestamp (i # is) s = do { s \<leftarrow> exit_info timestamp i s; exit_infos timestamp is s }"

text \<open>The timestamp of the interval that follows the barrier.\<close>

definition barrier_ts :: "mem_st \<Rightarrow> timestamp option" where
  "barrier_ts s =
     (if hostnum s \<le> int MAX_HOST_NUM
      then Some (map (\<lambda>i. if int i < hostnum s then s32 (barrierTimestamps s i ! i + 1) else 0)
                  [0..<MAX_HOST_NUM])
      else None)"

definition returnAllBarrierInfo :: "mem_st \<Rightarrow> mem_st option" where
  "returnAllBarrierInfo s =
     do { timestamp \<leftarrow> barrier_ts s;
          (k, s) \<leftarrow> (if pr_intervalList (procArray s 0) = None then None
                     else push_interval 0 (empty_interval\<lparr>i_timestamp := timestamp, i_isBarrier := 1\<rparr>) s);
          s \<leftarrow> exit_infos timestamp [1..<nat (hostnum s)] (s\<lparr>intervalNow := Some k\<rparr>);
          let n = nat (hostnum s);
          let s = s\<lparr>barrierTimestamps := (\<lambda>i. if i < n then replicate n (- 1) @ drop n (barrierTimestamps s i)
                                             else barrierTimestamps s i)\<rparr>;
          Some (s\<lparr>locks := (\<lambda>k. if k < LOCK_NUM then (locks s k)\<lparr>l_lasthostid := - 1\<rparr> else locks s k)\<rparr>) }"

definition handleGrantExitBarrierMsg :: "mimsg_t option \<Rightarrow> mem_st \<Rightarrow> mem_st option" where
  "handleGrantExitBarrierMsg msg s =
     (case msg of None \<Rightarrow> Some s
      | Some m \<Rightarrow> do {
          s \<leftarrow> (if m_timestamp m ! 0 \<noteq> - 1 then do {
                   me \<leftarrow> aidx (myhostid s) MAX_HOST_NUM;
                   (k, s) \<leftarrow> (if pr_intervalList (procArray s me) = None then None
                             else push_interval me
                                    (empty_interval\<lparr>i_timestamp := m_timestamp m, i_isBarrier := 1\<rparr>) s);
                   Some (s\<lparr>intervalNow := Some k\<rparr>) }
                 else Some s);
          packets \<leftarrow> packets_of (m_data m);
          incorporate_all packets s })"

section \<open>The manager\<close>

fun flags_loop :: "nat list \<Rightarrow> 'a syn_st_scheme \<Rightarrow> bool option" where
  "flags_loop [] s = Some True"
| "flags_loop (i # is) s =
     do { k \<leftarrow> aidx (int i) MAX_HOST_NUM; if barrierFlags s k \<noteq> 1 then Some False else flags_loop is s }"

fun exit_msgs :: "nat list \<Rightarrow> mem_st \<Rightarrow> mem_st option" where
  "exit_msgs [] s = Some s"
| "exit_msgs (i # is) s =
     do { (r, s) \<leftarrow> new_msg (int i) EXIT_BARRIER s; (_, s) \<leftarrow> sendMsg (Some r) s; exit_msgs is s }"

definition checkBarrierFlags :: "mem_st \<Rightarrow> (int \<times> mem_st) option" where
  "checkBarrierFlags s =
     (if myhostid s \<noteq> 0 then Some (- 2, s)
      else do {
        all \<leftarrow> flags_loop [0..<nat (hostnum s)] s;
        (if \<not> all then Some (- 1, s)
         else do {
           s \<leftarrow> returnAllBarrierInfo s;
           s \<leftarrow> exit_msgs [1..<nat (hostnum s)] s;
           Some (0, s\<lparr>barrierFlags := (\<lambda>i. if int i < hostnum s then 0 else barrierFlags s i)\<rparr>) }) })"

definition handleEnterBarrierMsg :: "mimsg_t \<Rightarrow> mem_st \<Rightarrow> mem_st option" where
  "handleEnterBarrierMsg msg s =
     do { h \<leftarrow> aidx (m_from msg) MAX_HOST_NUM;
          (result, s) \<leftarrow> checkBarrierFlags (s\<lparr>barrierFlags := (barrierFlags s)(h := 1)\<rparr>);
          Some (if result = 0 then s\<lparr>waitFlag := 0\<rparr> else s) }"

end
