(* ===== verification/Parcels.thy ===== *)
theory Parcels
  imports Barrier
begin

text \<open>
  What the packing loops of the barrier send. A parcel is the abstract state of such a loop: the
  messages already sent (receiver, timestamp, packets), then receiver, timestamp and packets of the
  message under construction; \<open>feed\<close> adds a packet to it.
\<close>

section \<open>Notices into packets\<close>

definition notice_packet :: "int \<Rightarrow> timestamp \<Rightarrow> int list \<Rightarrow> wnPacket_t" where
  "notice_packet h ts ps = \<lparr>k_hostid = h, k_timestamp = ts, k_wnCount = int (length ps),
     k_wnArray = ps @ replicate (MAX_WN_NUM - length ps) (- 1)\<rparr>"

function page_chunks :: "int list \<Rightarrow> int list list" where
  "page_chunks ps = (if ps = [] then [] else take MAX_WN_NUM ps # page_chunks (drop MAX_WN_NUM ps))"
  by pat_completeness auto
termination
  by (relation "measure length") auto

declare page_chunks.simps [simp del]

lemma page_chunks_Nil [simp]: "page_chunks [] = []"
  by (simp add: page_chunks.simps)

lemma page_chunks_ne: "ps \<noteq> [] \<Longrightarrow> page_chunks ps = take MAX_WN_NUM ps # page_chunks (drop MAX_WN_NUM ps)"
  by (subst page_chunks.simps) simp

lemma concat_page_chunks: "concat (page_chunks ps) = ps"
  by (induction ps rule: page_chunks.induct) (subst page_chunks.simps, simp)

lemma page_chunks_short: "ps \<noteq> [] \<Longrightarrow> length ps \<le> MAX_WN_NUM \<Longrightarrow> page_chunks ps = [ps]"
  by (simp add: page_chunks_ne)

definition notice_packets :: "int \<Rightarrow> timestamp \<Rightarrow> int list \<Rightarrow> wnPacket_t list" where
  "notice_packets h ts ps = map (notice_packet h ts) (page_chunks ps)"

lemma notice_packets_Nil [simp]: "notice_packets h ts [] = []"
  by (simp add: notice_packets_def)

lemma packet_wf_notice:
  "in32 h \<Longrightarrow> ts_ok ts \<Longrightarrow> list_all in32 ps \<Longrightarrow> length ps \<le> MAX_WN_NUM \<Longrightarrow> packet_wf (notice_packet h ts ps)"
  by (auto simp: packet_wf_def notice_packet_def list_all_iff in32_def MAX_WN_NUM_def)

lemma chunk_in: "c \<in> set (page_chunks ps) \<Longrightarrow> length c \<le> MAX_WN_NUM \<and> c \<noteq> [] \<and> set c \<subseteq> set ps"
proof (induction ps rule: page_chunks.induct)
  case (1 ps)
  show ?case
  proof (cases "ps = []")
    case False
    have "set (take MAX_WN_NUM ps) \<subseteq> set ps" "set (drop MAX_WN_NUM ps) \<subseteq> set ps"
      by (simp_all add: set_take_subset set_drop_subset)
    moreover have "c = take MAX_WN_NUM ps \<or> c \<in> set (page_chunks (drop MAX_WN_NUM ps))"
      using "1.prems" False by (simp add: page_chunks_ne)
    ultimately show ?thesis using "1.IH" [OF False] False by (elim disjE) (simp, blast)
  qed (use "1.prems" in simp)
qed

lemma packet_wf_notices:
  "in32 h \<Longrightarrow> ts_ok ts \<Longrightarrow> list_all in32 ps \<Longrightarrow> list_all packet_wf (notice_packets h ts ps)"
  unfolding notice_packets_def list_all_iff
  by (auto intro!: packet_wf_notice simp: list_all_iff dest!: chunk_in) blast

lemma k_wnCount_notice: "k_wnCount (notice_packet h ts ps) = int (length ps)"
  by (simp add: notice_packet_def)

lemma notice_packet_add:
  assumes "length ps < MAX_WN_NUM"
  shows "(notice_packet h ts ps)\<lparr>k_wnArray := (k_wnArray (notice_packet h ts ps))[length ps := p],
     k_wnCount := k_wnCount (notice_packet h ts ps) + 1\<rparr> = notice_packet h ts (ps @ [p])"
proof -
  obtain n where n: "MAX_WN_NUM - length ps = Suc n" "MAX_WN_NUM - Suc (length ps) = n"
    using assms by (metis Suc_diff_Suc)
  then show ?thesis by (simp add: notice_packet_def)
qed

text \<open>The loop of \<open>addWNIIntoPacketForHost\<close> takes the notices in order until the packet is full.\<close>

lemma fill_packet_eq:
  "chain (nextInInterval s) p ws \<Longrightarrow> length ps \<le> MAX_WN_NUM \<Longrightarrow>
    \<exists>q. fill_packet s p (notice_packet h ts ps) =
        Some (q, notice_packet h ts (ps @ map (\<lambda>w. w_pageIndex (wns s ! w)) (take (MAX_WN_NUM - length ps) ws))) \<and>
      chain (nextInInterval s) q (drop (MAX_WN_NUM - length ps) ws)"
proof (induction ws arbitrary: p ps)
  case Nil
  then show ?case by (simp add: fill_packet.simps)
next
  case (Cons w ws)
  then obtain q where q': "p = Some w" "nextInInterval s w = Some q" "chain (nextInInterval s) q ws"
    by (auto split: option.splits)
  then have q: "p = Some w" "w < length (wns s)" "w_nextInInterval (wns s ! w) = q"
    "chain (nextInInterval s) q ws"
    by (auto simp: nextInInterval_eq split: if_splits)
  show ?case
  proof (cases "length ps < MAX_WN_NUM")
    case True
    then obtain n where n: "MAX_WN_NUM - length ps = Suc n" "MAX_WN_NUM - length (ps @ [w_pageIndex (wns s ! w)]) = n"
      by (metis Suc_diff_Suc length_append_singleton)
    have "fill_packet s p (notice_packet h ts ps) =
        fill_packet s q (notice_packet h ts (ps @ [w_pageIndex (wns s ! w)]))"
      using True q notice_packet_add [OF True, of h ts]
      by (subst fill_packet.simps) (simp add: k_wnCount_notice wn_get_def aidx_Some_iff [symmetric])
    with Cons.IH [OF q(4), of "ps @ [w_pageIndex (wns s ! w)]"] True n show ?thesis by simp
  next
    case False
    with Cons.prems q show ?thesis
      by (subst fill_packet.simps) (simp add: notice_packet_def)
  qed
qed

lemma addWNI_eq:
  assumes "chain (nextInInterval s) p ws" "ws \<noteq> []" "0 \<le> h" "h < hostnum s"
  shows "\<exists>q. addWNIIntoPacketForHost s packet h (Some ts) p =
      Some (q, notice_packet h ts (take MAX_WN_NUM (map (\<lambda>w. w_pageIndex (wns s ! w)) ws))) \<and>
    chain (nextInInterval s) q (drop MAX_WN_NUM ws)"
proof -
  obtain w where "p = Some w" using assms(1,2) by (cases ws) auto
  moreover have "empty_packet\<lparr>k_hostid := h, k_timestamp := ts\<rparr> = notice_packet h ts []"
    by (simp add: empty_packet_def notice_packet_def)
  ultimately show ?thesis
    using assms(3,4) fill_packet_eq [OF assms(1), of "[]" h ts]
    by (simp add: addWNIIntoPacketForHost_def take_map)
qed

section \<open>Parcels\<close>

text \<open>\<open>PER_MSG\<close> packets fit into a message; it is sent as soon as there is no room for one more.\<close>

definition PER_MSG :: nat where "PER_MSG = 9"

type_synonym mail = "int \<times> timestamp \<times> wnPacket_t list"
type_synonym parcel = "mail list \<times> int \<times> timestamp \<times> wnPacket_t list"

fun feed :: "int \<Rightarrow> wnPacket_t \<Rightarrow> parcel \<Rightarrow> parcel" where
  "feed to' pk (ms, to, ts, cur) =
     (if length cur + 1 < PER_MSG then (ms, to, ts, cur @ [pk])
      else (ms @ [(to, ts, cur @ [pk])], to', no_ts, []))"

fun close_parcel :: "parcel \<Rightarrow> mail list" where
  "close_parcel (ms, to, ts, cur) = (if cur \<noteq> [] \<or> ms = [] then ms @ [(to, ts, cur)] else ms)"

definition parcel_packets :: "parcel \<Rightarrow> wnPacket_t list" where
  "parcel_packets p = (case p of (ms, to, ts, cur) \<Rightarrow> concat (map (snd \<circ> snd) ms) @ cur)"

lemma parcel_packets_feed [simp]: "parcel_packets (feed to' pk p) = parcel_packets p @ [pk]"
  by (cases p) (simp add: parcel_packets_def)

lemma close_parcel_packets: "concat (map (snd \<circ> snd) (close_parcel p)) = parcel_packets p"
  by (cases p) (auto simp: parcel_packets_def)

definition parcel_ok :: "int \<Rightarrow> timestamp \<Rightarrow> parcel \<Rightarrow> bool" where
  "parcel_ok to ts0 p \<longleftrightarrow> (case p of (ms, to', ts, cur) \<Rightarrow>
     to' = to \<and> length cur < PER_MSG \<and> ts = (if ms = [] then ts0 else no_ts) \<and>
     list_all (\<lambda>m. fst m = to \<and> length (snd (snd m)) = PER_MSG) ms \<and>
     (ms \<noteq> [] \<longrightarrow> map (fst \<circ> snd) ms = ts0 # replicate (length ms - 1) no_ts))"

lemma parcel_ok_start: "parcel_ok to ts ([], to, ts, [])"
  by (simp add: parcel_ok_def PER_MSG_def)

lemma parcel_ok_feed: "parcel_ok to ts p \<Longrightarrow> parcel_ok to ts (feed to pk p)"
  by (cases p)
    (auto simp: parcel_ok_def PER_MSG_def replicate_append_same neq_Nil_conv split: if_splits)

lemma parcel_ok_fold: "parcel_ok to ts p \<Longrightarrow> parcel_ok to ts (fold (feed to) pks p)"
proof (induction pks arbitrary: p)
  case (Cons pk pks)
  show ?case using Cons.IH [OF parcel_ok_feed [OF Cons.prems]] by (simp del: feed.simps)
qed simp

lemma parcel_packets_fold [simp]: "parcel_packets (fold (feed to) pks p) = parcel_packets p @ pks"
  by (induction pks arbitrary: p) (auto simp del: feed.simps)

text \<open>The messages of a closed parcel: all to one host, in order all the packets, never more than fit,
  the timestamp in the first message only.\<close>

definition mail_of :: "int \<Rightarrow> timestamp \<Rightarrow> wnPacket_t list \<Rightarrow> mail list" where
  "mail_of to ts pks = close_parcel (fold (feed to) pks ([], to, ts, []))"

lemma mail_of:
  "concat (map (snd \<circ> snd) (mail_of to ts pks)) = pks"
  "list_all (\<lambda>m. fst m = to \<and> length (snd (snd m)) \<le> PER_MSG) (mail_of to ts pks)"
  "map (fst \<circ> snd) (mail_of to ts pks) = ts # replicate (length (mail_of to ts pks) - 1) no_ts"
proof -
  let ?p = "fold (feed to) pks ([], to, ts, [])"
  show "concat (map (snd \<circ> snd) (mail_of to ts pks)) = pks"
    unfolding mail_of_def close_parcel_packets parcel_packets_fold by (simp add: parcel_packets_def)
  have ok: "parcel_ok to ts ?p" by (intro parcel_ok_fold parcel_ok_start)
  then show "list_all (\<lambda>m. fst m = to \<and> length (snd (snd m)) \<le> PER_MSG) (mail_of to ts pks)"
    by (cases ?p) (auto simp: mail_of_def parcel_ok_def list_all_iff)
  show "map (fst \<circ> snd) (mail_of to ts pks) = ts # replicate (length (mail_of to ts pks) - 1) no_ts"
    using ok by (cases ?p) (auto simp: mail_of_def parcel_ok_def replicate_append_same neq_Nil_conv)
qed

section \<open>What the loops send\<close>

text \<open>A datagram that carries a mail of the given command, and a run of them on the wire.\<close>

definition carries :: "int \<Rightarrow> command_t \<Rightarrow> datagram \<Rightarrow> mail \<Rightarrow> bool" where
  "carries sender cmd d ml \<longleftrightarrow> (case (d, ml) of ((h, port, m), (to, ts, pks)) \<Rightarrow>
     h = nat to \<and> m_from m = sender \<and> m_to m = to \<and> m_command m = cmd_code cmd \<and> m_timestamp m = ts \<and>
     packets_of (m_data m) = Some pks)"

definition mailed :: "int \<Rightarrow> command_t \<Rightarrow> datagram list \<Rightarrow> datagram list \<Rightarrow> mail list \<Rightarrow> bool" where
  "mailed sender cmd w w' mls \<longleftrightarrow> (\<exists>ds. sent w w' ds \<and> list_all2 (carries sender cmd) ds mls)"

lemma mailed_Nil [simp]: "mailed sender cmd w w' [] \<longleftrightarrow> w' = w"
  by (auto simp: mailed_def)

lemma mailed_append:
  "mailed sender cmd w w' as \<Longrightarrow> mailed sender cmd w' w'' bs \<Longrightarrow> mailed sender cmd w w'' (as @ bs)"
  unfolding mailed_def by (blast intro: sent_trans list_all2_appendI)

lemma carries_sent_msg:
  assumes "list_all packet_wf pks" "length pks \<le> PER_MSG"
  shows "carries (myhostid s) cmd
    (sent_msg s to cmd ts (int_bytes (int (length pks)) @ concat (map packet_bytes pks))) (to, ts, pks)"
  using assms packets_of_bytes [of pks "\<lambda>_. 0"]
  by (simp add: carries_def sent_msg_def PER_MSG_def PACKET_SIZE_def size_consts)

text \<open>\<open>filling cmd s0 p b s\<close>: the loop that began with \<open>s0\<close> has reached the parcel \<open>p\<close>.\<close>

definition packet_msg :: "int \<Rightarrow> int \<Rightarrow> command_t \<Rightarrow> timestamp \<Rightarrow> int \<Rightarrow> wnPacket_t list \<Rightarrow> mimsg_t" where
  "packet_msg sender to cmd ts n pks = packed sender to cmd ts (int_bytes n @ concat (map packet_bytes pks))"

definition filling :: "command_t \<Rightarrow> mem_st \<Rightarrow> parcel \<Rightarrow> batch \<Rightarrow> mem_st \<Rightarrow> bool" where
  "filling cmd s0 p b s \<longleftrightarrow> (case p of (ms, to, ts, cur) \<Rightarrow>
     \<exists>s1 n. s = fill s1 (packet_msg (myhostid s0) to cmd ts n cur) \<and> quiet s1 \<and> net_frame s0 s1 \<and>
       mailed (myhostid s0) cmd (wire s0) (wire s1) ms \<and>
       b = (SndSlot (sndTail s1), int (length cur), if ms = [] then 0 else 1) \<and>
       list_all packet_wf cur \<and> length cur < PER_MSG \<and> in_hosts to)"

lemma filling_same_mem: "filling cmd s0 p b s \<Longrightarrow> same_mem s0 s"
  by (auto simp: filling_def intro!: same_mem_net_frame intro: net_frame_trans fill_frame split: prod.splits)

lemma length_concat_packets:
  "list_all packet_wf pks \<Longrightarrow> length (concat (map packet_bytes pks)) = PACKET_SIZE * length pks"
  by (induction pks) (simp_all add: length_packet_bytes)

lemma packet_msg_poke:
  "(packet_msg sender to cmd ts n pks)\<lparr>m_data := poke (m_data (packet_msg sender to cmd ts n pks)) 0 (int_bytes n')\<rparr> =
     packet_msg sender to cmd ts n' pks"
  by (auto simp: packet_msg_def packed_def poke_def nth_append fun_eq_iff)

text \<open>Sending the message under construction, its first number set to the number of packets.\<close>

lemma send_parcel:
  assumes "filling cmd s0 (ms, to, ts, cur) (r, n, f) s" "list_all packet_wf pks" "length pks \<le> PER_MSG"
    and "t = fill s1 (packet_msg (myhostid s0) to cmd ts k pks)" "r = SndSlot (sndTail s1)"
    and "quiet s1" "net_frame s0 s1" "in_hosts (myhostid s0)" "in_hosts to"
    and "mailed (myhostid s0) cmd (wire s0) (wire s1) ms"
  shows "\<exists>u s2. msg_upd (Some r) (\<lambda>m. m\<lparr>m_data := poke (m_data m) 0 (int_bytes (int (length pks)))\<rparr>) t = Some u \<and>
    sendMsg (Some r) u = Some (0, s2) \<and> quiet s2 \<and> net_frame s0 s2 \<and>
    mailed (myhostid s0) cmd (wire s0) (wire s2) (ms @ [(to, ts, pks)])"
proof -
  have me: "myhostid s1 = myhostid s0" using same_mem_net_frame [OF assms(7)] by (simp add: same_mem_def)
  let ?bs = "int_bytes (int (length pks)) @ concat (map packet_bytes pks)"
  have l: "length ?bs \<le> DATA_SIZE"
    using assms(2,3) by (simp add: length_concat_packets PER_MSG_def PACKET_SIZE_def size_consts)
  obtain s2 where s2: "sendMsg (Some (SndSlot (sndTail s1))) (fill s1 (packed (myhostid s1) to cmd ts ?bs)) = Some (0, s2)"
    "quiet s2" "net_frame s1 s2" "sent (wire s1) (wire s2) [sent_msg s1 to cmd ts ?bs]"
    using send_fill [OF assms(6,9) _ l, of cmd ts] assms(8) me by auto
  have "mailed (myhostid s0) cmd (wire s1) (wire s2) [(to, ts, pks)]"
    unfolding mailed_def using s2(4) carries_sent_msg [OF assms(2,3), of s1 cmd to ts] me by auto
  then have "mailed (myhostid s0) cmd (wire s0) (wire s2) (ms @ [(to, ts, pks)])"
    using mailed_append [OF assms(10)] by simp
  moreover have "msg_upd (Some r) (\<lambda>m. m\<lparr>m_data := poke (m_data m) 0 (int_bytes (int (length pks)))\<rparr>) t =
      Some (fill s1 (packet_msg (myhostid s0) to cmd ts (int (length pks)) pks))"
    by (simp add: assms(4,5) packet_msg_poke del: set_msg.simps)
  moreover have "packet_msg (myhostid s0) to cmd ts (int (length pks)) pks = packed (myhostid s1) to cmd ts ?bs"
    by (simp add: packet_msg_def me)
  ultimately show ?thesis using s2(1-3) assms(5) net_frame_trans [OF assms(7)] by auto
qed

lemma put_packet_ok:
  assumes "filling cmd s0 p b s" "packet_wf pk" "in_hosts (myhostid s0)" "in_hosts to'"
  shows "\<exists>b' t. put_packet to' cmd pk b s = Some (b', t) \<and> filling cmd s0 (feed to' pk p) b' t"
proof -
  obtain ms to ts cur where p: "p = (ms, to, ts, cur)" by (cases p)
  obtain s1 n where s: "s = fill s1 (packet_msg (myhostid s0) to cmd ts n cur)" "quiet s1" "net_frame s0 s1"
    "mailed (myhostid s0) cmd (wire s0) (wire s1) ms"
    "b = (SndSlot (sndTail s1), int (length cur), if ms = [] then 0 else 1)"
    "list_all packet_wf cur" "length cur < PER_MSG" "in_hosts to"
    using assms(1) by (auto simp: filling_def p)
  let ?pks = "cur @ [pk]" and ?r = "SndSlot (sndTail s1)"
  let ?t = "fill s1 (packet_msg (myhostid s0) to cmd ts n ?pks)"
  have wf: "list_all packet_wf ?pks" "length ?pks \<le> PER_MSG" using s(6,7) assms(2) by simp_all
  have l: "length (packet_bytes pk) = PACKET_SIZE" "length (concat (map packet_bytes cur)) = PACKET_SIZE * length cur"
    using assms(2) s(6) by (simp_all add: length_packet_bytes length_concat_packets)
  have "length (int_bytes n @ concat (map packet_bytes cur)) + PACKET_SIZE \<le> DATA_SIZE"
    using s(7) l by (simp add: PER_MSG_def PACKET_SIZE_def size_consts)
  then have fit: "int (length (int_bytes n @ concat (map packet_bytes cur))) + int PACKET_SIZE \<le> int DATA_SIZE"
    by linarith
  have app: "apendMsgData (Some ?r) (Some (packet_bytes pk)) (int PACKET_SIZE) s = Some (0, ?t)"
    unfolding s(1) packet_msg_def
    by (subst append_fill [OF _ _ fit]) (simp_all add: l, simp add: PACKET_SIZE_def)
  have size: "m_size (msg_at ?t ?r) = 4 + int (PACKET_SIZE * length ?pks)"
    using l by (simp add: packet_msg_def algebra_simps)
  have room: "(int DATA_SIZE - m_size (msg_at ?t ?r)) mod 18446744073709551616 < int PACKET_SIZE \<longleftrightarrow>
      \<not> length cur + 1 < PER_MSG"
    unfolding size using s(7) by (auto simp: PER_MSG_def PACKET_SIZE_def size_consts)
  show ?thesis
  proof (cases "length cur + 1 < PER_MSG")
    case True
    have "put_packet to' cmd pk b s = Some ((?r, int (length ?pks), if ms = [] then 0 else 1), ?t)"
      using True by (simp add: put_packet_def s(5) app room Let_def add.commute del: msg_at.simps fill_simps)
    moreover have "filling cmd s0 (feed to' pk p) (?r, int (length ?pks), if ms = [] then 0 else 1) ?t"
      using True s(2-4,8) wf by (auto simp: p filling_def)
    ultimately show ?thesis by blast
  next
    case False
    obtain u s2 where u: "msg_upd (Some ?r) (\<lambda>m. m\<lparr>m_data := poke (m_data m) 0 (int_bytes (int (length ?pks)))\<rparr>) ?t = Some u"
      "sendMsg (Some ?r) u = Some (0, s2)" "quiet s2" "net_frame s0 s2"
      "mailed (myhostid s0) cmd (wire s0) (wire s2) (ms @ [(to, ts, ?pks)])"
      using send_parcel [OF assms(1) [unfolded p s(5)] wf refl refl s(2,3) assms(3) s(8,4), of n] by blast
    have me: "myhostid s2 = myhostid s0" using same_mem_net_frame [OF u(4)] by (simp add: same_mem_def)
    let ?v = "fill s2 (packet_msg (myhostid s0) to' cmd no_ts (int (length ?pks)) [])"
    have new: "new_msg to' cmd s2 = Some (SndSlot (sndTail s2), fill s2 (packed (myhostid s0) to' cmd no_ts []))"
      using new_msg_fill [OF u(3)] me by simp
    have slot: "apendMsgData (Some (SndSlot (sndTail s2))) (Some (int_bytes (int (length ?pks)))) 4
        (fill s2 (packed (myhostid s0) to' cmd no_ts [])) = Some (0, ?v)"
      by (subst append_fill_int) (simp_all add: packet_msg_def size_consts)
    have "put_packet to' cmd pk b s = Some ((SndSlot (sndTail s2), 0, 1), ?v)"
      using False u(1,2) new slot
      by (simp add: put_packet_def s(5) app room Let_def add.commute del: msg_at.simps msg_upd.simps fill_simps)
    moreover have "filling cmd s0 (feed to' pk p) (SndSlot (sndTail s2), 0, 1) ?v"
      using False u(3-5) assms(4) by (auto simp: p filling_def PER_MSG_def)
    ultimately show ?thesis by blast
  qed
qed

lemma put_rest_ok:
  assumes "filling cmd s0 p b s" "in_hosts (myhostid s0)"
  shows "\<exists>t. put_rest b s = Some t \<and> quiet t \<and> net_frame s0 t \<and>
    mailed (myhostid s0) cmd (wire s0) (wire t) (close_parcel p)"
proof -
  obtain ms to ts cur where p: "p = (ms, to, ts, cur)" by (cases p)
  obtain s1 n where s: "s = fill s1 (packet_msg (myhostid s0) to cmd ts n cur)" "quiet s1" "net_frame s0 s1"
    "mailed (myhostid s0) cmd (wire s0) (wire s1) ms"
    "b = (SndSlot (sndTail s1), int (length cur), if ms = [] then 0 else 1)"
    "list_all packet_wf cur" "length cur < PER_MSG" "in_hosts to"
    using assms(1) by (auto simp: filling_def p)
  let ?r = "SndSlot (sndTail s1)"
  show ?thesis
  proof (cases "cur \<noteq> [] \<or> ms = []")
    case True
    obtain u s2 where u: "msg_upd (Some ?r) (\<lambda>m. m\<lparr>m_data := poke (m_data m) 0 (int_bytes (int (length cur)))\<rparr>) s = Some u"
      "sendMsg (Some ?r) u = Some (0, s2)" "quiet s2" "net_frame s0 s2"
      "mailed (myhostid s0) cmd (wire s0) (wire s2) (ms @ [(to, ts, cur)])"
      using send_parcel [OF assms(1) [unfolded p s(5)] s(6) less_imp_le [OF s(7)] s(1) refl s(2,3) assms(2) s(8,4)]
      by blast
    then show ?thesis using True by (auto simp: put_rest_def s(5) p simp del: msg_upd.simps)
  next
    case False
    have "net_frame s0 s" using s(1,3) fill_frame net_frame_trans by blast
    moreover have "quiet s" "wire s = wire s1" using s(2) by (simp_all add: s(1)) (simp add: fill_def)
    ultimately show ?thesis using False s(4) by (auto simp: put_rest_def s(5) p)
  qed
qed

end
