(* ===== verification/Release.thy ===== *)
theory Release
  imports Parcels
begin

text \<open>
  The two directions of the barrier: what a host sends when it enters, what host 0 returns when all
  have entered, and how the receiver's log grows. The walk along \<open>prev\<close>, from an old interval to the
  newest, is the interface of the three loops that pack write notices.
\<close>

lemma list_all_parts: "list_all P xs \<Longrightarrow> list_all P (take n xs)" "list_all P xs \<Longrightarrow> list_all P (drop n xs)"
  by (auto simp: list_all_iff dest: in_set_takeD in_set_dropD)

section \<open>Walking towards the newest interval\<close>

text \<open>Visiting the elements of a list, the state passed on.\<close>

fun visit_all :: "('k \<Rightarrow> 'b \<Rightarrow> 's \<Rightarrow> ('b \<times> 's) option) \<Rightarrow> 'k list \<Rightarrow> 'b \<Rightarrow> 's \<Rightarrow> ('b \<times> 's) option" where
  "visit_all f [] b s = Some (b, s)"
| "visit_all f (k # ks) b s = do { y \<leftarrow> f k b s; visit_all f ks (fst y) (snd y) }"

locale prev_walk =
  fixes walk :: "ptr \<Rightarrow> 'b \<Rightarrow> mem_st \<Rightarrow> ('b \<times> mem_st) option"
    and visit :: "interval_t \<Rightarrow> 'b \<Rightarrow> mem_st \<Rightarrow> ('b \<times> mem_st) option"
  assumes walk_None: "walk None b s = Some (b, s)"
    and walk_Some: "walk (Some k) b s =
      do { iv \<leftarrow> iv_get s (Some k); y \<leftarrow> visit iv b s; walk (i_prev iv) (fst y) (snd y) }"
begin

lemma walk_back:
  assumes visit: "\<And>k x b s. k \<in> K \<Longrightarrow> I x b s \<Longrightarrow>
      \<exists>b' t. visit (ivals s0 ! k) b s = Some (b', t) \<and> I (f k x) b' t"
    and same: "\<And>x b s. I x b s \<Longrightarrow> ivals s = ivals s0"
  shows "back_ok (prevI s0) None (as @ k # bs) \<Longrightarrow> insert k (set as) \<subseteq> K \<Longrightarrow> I x b s \<Longrightarrow>
    \<exists>b' t. walk (Some k) b s = Some (b', t) \<and> I (fold f (k # rev as) x) b' t"
proof (induction as arbitrary: k bs x b s rule: rev_induct)
  case Nil
  then have p: "prevI s0 k = Some None" by simp
  then have k: "iv_get s (Some k) = Some (ivals s0 ! k)" "i_prev (ivals s0 ! k) = None"
    using same [OF Nil.prems(3)] by (auto simp: prevI_eq iv_get_def split: if_splits)
  have "k \<in> K" using Nil.prems(2) by simp
  then obtain b' t where "visit (ivals s0 ! k) b s = Some (b', t)" "I (f k x) b' t"
    using visit Nil.prems(3) by blast
  with k show ?case by (simp add: walk_Some walk_None)
next
  case (snoc a as)
  have link: "back_ok pv q (us @ v # w # vs) \<Longrightarrow> pv w = Some (Some v)" for pv q us v w vs
    by (induction us arbitrary: q) auto
  have "prevI s0 k = Some (Some a)" using link [of "prevI s0" None as a k bs] snoc.prems(1) by simp
  then have k: "iv_get s (Some k) = Some (ivals s0 ! k)" "i_prev (ivals s0 ! k) = Some a"
    using same [OF snoc.prems(3)] by (auto simp: prevI_eq iv_get_def split: if_splits)
  have "k \<in> K" using snoc.prems(2) by simp
  then obtain b' t where v: "visit (ivals s0 ! k) b s = Some (b', t)" "I (f k x) b' t"
    using visit snoc.prems(3) by blast
  have "\<exists>b'' u. walk (Some a) b' t = Some (b'', u) \<and> I (fold f (a # rev as) (f k x)) b'' u"
    using snoc.IH [of a "k # bs", OF _ _ v(2)] snoc.prems(1,2) by simp
  with k v(1) show ?case by (simp add: walk_Some)
qed

text \<open>The same as an equation, for loops that may fail on the way.\<close>

lemma walk_fold:
  assumes step: "\<And>k b s b' t. k \<in> K \<Longrightarrow> I b s \<Longrightarrow> visit (ivals s0 ! k) b s = Some (b', t) \<Longrightarrow> I b' t"
    and same: "\<And>b s. I b s \<Longrightarrow> ivals s = ivals s0"
  shows "back_ok (prevI s0) None (as @ k # bs) \<Longrightarrow> insert k (set as) \<subseteq> K \<Longrightarrow> I b s \<Longrightarrow>
    walk (Some k) b s = visit_all (\<lambda>k. visit (ivals s0 ! k)) (k # rev as) b s"
proof (induction as arbitrary: k bs b s rule: rev_induct)
  case Nil
  then have "prevI s0 k = Some None" by simp
  then have "iv_get s (Some k) = Some (ivals s0 ! k)" "i_prev (ivals s0 ! k) = None"
    using same [OF Nil.prems(3)] by (auto simp: prevI_eq iv_get_def split: if_splits)
  then show ?case by (simp add: walk_Some walk_None)
next
  case (snoc a as)
  have link: "back_ok pv q (us @ v # w # vs) \<Longrightarrow> pv w = Some (Some v)" for pv q us v w vs
    by (induction us arbitrary: q) auto
  have "prevI s0 k = Some (Some a)" using link [of "prevI s0" None as a k bs] snoc.prems(1) by simp
  then have k: "iv_get s (Some k) = Some (ivals s0 ! k)" "i_prev (ivals s0 ! k) = Some a"
    using same [OF snoc.prems(3)] by (auto simp: prevI_eq iv_get_def split: if_splits)
  have "walk (Some a) b' t = visit_all (\<lambda>k. visit (ivals s0 ! k)) (a # rev as) b' t"
    if "visit (ivals s0 ! k) b s = Some (b', t)" for b' t
    using snoc.IH [of a "k # bs" b' t] snoc.prems step [OF _ snoc.prems(3) that] by simp
  then show ?case
    by (cases "visit (ivals s0 ! k) b s") (auto simp: walk_Some k)
qed

end

definition enter_visit :: "int \<Rightarrow> interval_t \<Rightarrow> batch \<Rightarrow> mem_st \<Rightarrow> (batch \<times> mem_st) option" where
  "enter_visit h iv b s =
     (if i_notices iv \<noteq> None then put_interval 0 0 GRANT_ENTER_BARRIER_INFO h iv b s else Some (b, s))"

definition exit_visit :: "int \<Rightarrow> timestamp \<Rightarrow> int \<Rightarrow> interval_t \<Rightarrow> batch \<Rightarrow> mem_st \<Rightarrow> (batch \<times> mem_st) option" where
  "exit_visit i ts j iv b s =
     do { a \<leftarrow> isAfterInterval (hostnum s) (Some (i_timestamp iv)) (Some ts);
          if a \<noteq> 0 \<and> i_notices iv \<noteq> None
          then put_interval i 0 GRANT_EXIT_BARRIER_INFO j iv b s else Some (b, s) }"

definition grant_visit :: "msgref \<Rightarrow> int \<Rightarrow> timestamp \<Rightarrow> interval_t \<Rightarrow> int \<Rightarrow> mem_st \<Rightarrow> (int \<times> mem_st) option" where
  "grant_visit r h ts iv n s =
     do { a \<leftarrow> isAfterInterval (hostnum s) (Some (i_timestamp iv)) (Some ts);
          if a \<noteq> 0 \<and> i_notices iv \<noteq> None
          then append_packets r h (i_timestamp iv) (i_notices iv) n s else Some (n, s) }"

interpretation enter: prev_walk "enter_intervals h" "enter_visit h" for h
proof
  fix b s k
  show "enter_intervals h None b s = Some (b, s)" by (subst enter_intervals.simps) simp
  show "enter_intervals h (Some k) b s =
      do { iv \<leftarrow> iv_get s (Some k); y \<leftarrow> enter_visit h iv b s; enter_intervals h (i_prev iv) (fst y) (snd y) }"
    by (subst enter_intervals.simps) (simp add: enter_visit_def)
qed

interpretation exit: prev_walk "exit_intervals i ts j" "exit_visit i ts j" for i ts j
proof
  fix b s k
  show "exit_intervals i ts j None b s = Some (b, s)" by (subst exit_intervals.simps) simp
  show "exit_intervals i ts j (Some k) b s =
      do { iv \<leftarrow> iv_get s (Some k); y \<leftarrow> exit_visit i ts j iv b s; exit_intervals i ts j (i_prev iv) (fst y) (snd y) }"
    by (subst exit_intervals.simps) (simp add: exit_visit_def)
qed

interpretation grant: prev_walk "append_intervals r h ts" "grant_visit r h ts" for r h ts
proof
  fix b s k
  show "append_intervals r h ts None b s = Some (b, s)" by (subst append_intervals.simps) simp
  show "append_intervals r h ts (Some k) b s =
      do { iv \<leftarrow> iv_get s (Some k); y \<leftarrow> grant_visit r h ts iv b s; append_intervals r h ts (i_prev iv) (fst y) (snd y) }"
    by (subst append_intervals.simps) (simp add: grant_visit_def)
qed

section \<open>The notices of one interval\<close>

text \<open>The packets of one log entry; a message that fills up with a packet other than the first is
  followed by one to \<open>to_left\<close>.\<close>

fun feed_entry :: "int \<Rightarrow> int \<Rightarrow> wnPacket_t list \<Rightarrow> parcel \<Rightarrow> parcel" where
  "feed_entry to' to_left [] p = p"
| "feed_entry to' to_left (pk # pks) p = fold (feed to_left) pks (feed to' pk p)"

lemma feed_entry_same: "feed_entry to' to' pks p = fold (feed to') pks p"
  by (cases pks) simp_all

lemma put_left_ok:
  assumes "chain (nextInInterval s0) q ws" "filling cmd s0 p b s" "in_hosts (myhostid s0)" "in_hosts to'"
    and "0 \<le> h" "h < hostnum s0" "in32 h" "ts_ok ts" "list_all in32 (map (\<lambda>w. w_pageIndex (wns s0 ! w)) ws)"
  shows "\<exists>b' t. put_left to' cmd h ts q b s = Some (b', t) \<and>
    filling cmd s0 (fold (feed to') (notice_packets h ts (map (\<lambda>w. w_pageIndex (wns s0 ! w)) ws)) p) b' t"
  using assms(1,2,9)
proof (induction "length ws" arbitrary: q ws p b s rule: less_induct)
  case less
  show ?case
  proof (cases "ws = []")
    case True
    with less.prems show ?thesis by (subst put_left.simps) simp
  next
    case False
    let ?ps = "map (\<lambda>w. w_pageIndex (wns s0 ! w)) ws"
    have sm: "same_mem s0 s" using filling_same_mem [OF less.prems(2)] .
    then have "nextInInterval s = nextInInterval s0" "wns s = wns s0" "hostnum s = hostnum s0"
      by (auto simp: same_mem_def nextInInterval_eq fun_eq_iff)
    with less.prems(1) assms(5,6) obtain q' where q': "addWNIIntoPacketForHost s empty_packet h (Some ts) q =
        Some (q', notice_packet h ts (take MAX_WN_NUM ?ps))" "chain (nextInInterval s0) q' (drop MAX_WN_NUM ws)"
      using addWNI_eq [of s q ws h empty_packet ts] False by auto
    have in32s: "list_all in32 (take MAX_WN_NUM ?ps)" "list_all in32 (drop MAX_WN_NUM ?ps)"
      using less.prems(3) by (simp_all add: list_all_parts)
    have "packet_wf (notice_packet h ts (take MAX_WN_NUM ?ps))"
      by (rule packet_wf_notice [OF assms(7,8) in32s(1)]) simp
    then obtain b' t where t: "put_packet to' cmd (notice_packet h ts (take MAX_WN_NUM ?ps)) b s = Some (b', t)"
      "filling cmd s0 (feed to' (notice_packet h ts (take MAX_WN_NUM ?ps)) p) b' t"
      using put_packet_ok [OF less.prems(2) _ assms(3,4)] by blast
    have len: "length (drop MAX_WN_NUM ws) < length ws" using False by simp
    obtain b'' u where u: "put_left to' cmd h ts q' b' t = Some (b'', u)"
      "filling cmd s0 (fold (feed to') (notice_packets h ts (map (\<lambda>w. w_pageIndex (wns s0 ! w)) (drop MAX_WN_NUM ws)))
         (feed to' (notice_packet h ts (take MAX_WN_NUM ?ps)) p)) b'' u"
      using less.hyps [OF len q'(2) t(2)] in32s(2) by (auto simp: drop_map)
    obtain w where "q = Some w" using less.prems(1) False by (cases ws) auto
    then have "put_left to' cmd h ts q b s = Some (b'', u)"
      using q'(1) t(1) u(1) by (subst put_left.simps) simp
    moreover have "notice_packets h ts ?ps = notice_packet h ts (take MAX_WN_NUM ?ps) #
        notice_packets h ts (map (\<lambda>w. w_pageIndex (wns s0 ! w)) (drop MAX_WN_NUM ws))"
      using False by (simp add: notice_packets_def page_chunks_ne drop_map)
    ultimately show ?thesis using u(2) by simp
  qed
qed

lemma put_interval_ok:
  assumes "chain (nextInInterval s0) (i_notices iv) ws" "ws \<noteq> []" "filling cmd s0 p b s"
    and "in_hosts (myhostid s0)" "in_hosts to'" "in_hosts to_left"
    and "0 \<le> h" "h < hostnum s0" "in32 h" "ts_ok (i_timestamp iv)"
    and "list_all in32 (map (\<lambda>w. w_pageIndex (wns s0 ! w)) ws)"
  shows "\<exists>b' t. put_interval to' to_left cmd h iv b s = Some (b', t) \<and>
    filling cmd s0 (feed_entry to' to_left
      (notice_packets h (i_timestamp iv) (map (\<lambda>w. w_pageIndex (wns s0 ! w)) ws)) p) b' t"
proof -
  let ?ps = "map (\<lambda>w. w_pageIndex (wns s0 ! w)) ws" and ?ts = "i_timestamp iv"
  have sm: "same_mem s0 s" using filling_same_mem [OF assms(3)] .
  then have "nextInInterval s = nextInInterval s0" "wns s = wns s0" "hostnum s = hostnum s0"
    by (auto simp: same_mem_def nextInInterval_eq fun_eq_iff)
  with assms(1,7,8) obtain q where q: "addWNIIntoPacketForHost s empty_packet h (Some ?ts) (i_notices iv) =
      Some (q, notice_packet h ?ts (take MAX_WN_NUM ?ps))" "chain (nextInInterval s0) q (drop MAX_WN_NUM ws)"
    using addWNI_eq [of s "i_notices iv" ws h empty_packet ?ts] assms(2) by auto
  have in32s: "list_all in32 (take MAX_WN_NUM ?ps)" "list_all in32 (drop MAX_WN_NUM ?ps)"
    using assms(11) by (simp_all add: list_all_parts)
  have "packet_wf (notice_packet h ?ts (take MAX_WN_NUM ?ps))"
    by (rule packet_wf_notice [OF assms(9,10) in32s(1)]) simp
  then obtain b' t where t: "put_packet to' cmd (notice_packet h ?ts (take MAX_WN_NUM ?ps)) b s = Some (b', t)"
    "filling cmd s0 (feed to' (notice_packet h ?ts (take MAX_WN_NUM ?ps)) p) b' t"
    using put_packet_ok [OF assms(3) _ assms(4,5)] by blast
  obtain b'' u where u: "put_left to_left cmd h ?ts q b' t = Some (b'', u)"
    "filling cmd s0 (fold (feed to_left) (notice_packets h ?ts (map (\<lambda>w. w_pageIndex (wns s0 ! w)) (drop MAX_WN_NUM ws)))
       (feed to' (notice_packet h ?ts (take MAX_WN_NUM ?ps)) p)) b'' u"
    using put_left_ok [OF q(2) t(2) assms(4,6-10)] in32s(2) by (auto simp: drop_map)
  have "put_interval to' to_left cmd h iv b s = Some (b'', u)"
    using q(1) t(1) u(1) by (simp add: put_interval_def)
  moreover have "notice_packets h ?ts ?ps = notice_packet h ?ts (take MAX_WN_NUM ?ps) #
      notice_packets h ?ts (map (\<lambda>w. w_pageIndex (wns s0 ! w)) (drop MAX_WN_NUM ws))"
    using assms(2) by (simp add: notice_packets_def page_chunks_ne drop_map)
  ultimately show ?thesis using u(2) by simp
qed

section \<open>Entering the barrier\<close>

definition log_ok :: "(nat \<Rightarrow> log_entry list) \<Rightarrow> bool" where
  "log_ok lg \<longleftrightarrow> (\<forall>g<MAX_HOST_NUM. \<forall>e\<in>set (lg g). list_all page_index (snd e))"

definition entry_packets :: "nat \<Rightarrow> log_entry \<Rightarrow> wnPacket_t list" where
  "entry_packets h e = notice_packets (int h) (fst e) (snd e)"

lemma page_index_in32: "page_index p \<Longrightarrow> in32 p"
  by (simp add: page_index_def in32_def size_consts)

text \<open>What both loops need to know of an interval of host \<open>h\<close>.\<close>

lemma entry_facts:
  assumes ok: "mem_ok L W P s" and lg: "log_ok (host_log L W s)" and h: "h < MAX_HOST_NUM" and k: "k \<in> set (L h)"
  shows "k < length (ivals s)" "chain (nextInInterval s) (i_notices (ivals s ! k)) (W k)"
    "i_notices (ivals s ! k) \<noteq> None \<longleftrightarrow> W k \<noteq> []" "in32 (int h)" "ts_ok (i_timestamp (ivals s ! k))"
    "list_all in32 (map (\<lambda>w. w_pageIndex (wns s ! w)) (W k))"
    "entry_packets h (entry_of W s k) =
       notice_packets (int h) (i_timestamp (ivals s ! k)) (map (\<lambda>w. w_pageIndex (wns s ! w)) (W k))"
proof -
  note links = mem_ok_simps(2) [OF ok]
  show il: "k < length (ivals s)" using links_interval_alloc [OF links h k] .
  show c: "chain (nextInInterval s) (i_notices (ivals s ! k)) (W k)" using links_chain_notices [OF links il] .
  then show "i_notices (ivals s ! k) \<noteq> None \<longleftrightarrow> W k \<noteq> []" by (cases "W k") auto
  show "in32 (int h)" using h by (simp add: in32_def MAX_HOST_NUM_def)
  show "ts_ok (i_timestamp (ivals s ! k))" using ok il by (simp add: mem_ok_def)
  have "entry_of W s k \<in> set (host_log L W s h)" using k by (simp add: host_log_def)
  then have "list_all page_index (snd (entry_of W s k))" using lg h by (simp add: log_ok_def)
  then show "list_all in32 (map (\<lambda>w. w_pageIndex (wns s ! w)) (W k))"
    by (auto simp: entry_of_def list_all_iff page_index_in32)
  show "entry_packets h (entry_of W s k) =
       notice_packets (int h) (i_timestamp (ivals s ! k)) (map (\<lambda>w. w_pageIndex (wns s ! w)) (W k))"
    by (simp add: entry_packets_def entry_of_def)
qed

lemma enter_visit_ok:
  assumes "mem_ok L W P s0" "log_ok (host_log L W s0)" "h < MAX_HOST_NUM" "int h < hostnum s0" "k \<in> set (L h)"
    and "filling GRANT_ENTER_BARRIER_INFO s0 p b s"
  shows "\<exists>b' t. enter_visit (int h) (ivals s0 ! k) b s = Some (b', t) \<and>
    filling GRANT_ENTER_BARRIER_INFO s0 (fold (feed 0) (entry_packets h (entry_of W s0 k)) p) b' t"
proof (cases "W k = []")
  case True
  then show ?thesis
    using entry_facts [OF assms(1-3,5)] assms(6) by (auto simp: enter_visit_def)
next
  case False
  note e = entry_facts [OF assms(1-3,5)]
  have "in_hosts (myhostid s0)" "in_hosts 0"
    using assms(1) in_hosts_me by (auto simp: mem_ok_def in_hosts_def)
  with put_interval_ok [OF e(2) False assms(6) _ _ _ _ assms(4) e(4-6), of 0 0] e(3,7) False show ?thesis
    by (simp add: enter_visit_def feed_entry_same)
qed

lemma fold_feed_concat:
  "fold (\<lambda>k. fold (feed to) (f k)) ks p = fold (feed to) (concat (map f ks)) p"
  by (induction ks arbitrary: p) simp_all

lemma find_barrier_eq:
  "chain (nextI s) p (as @ k # bs) \<Longrightarrow> i_isBarrier (ivals s ! k) = 1 \<Longrightarrow>
    \<forall>j\<in>set as. i_isBarrier (ivals s ! j) \<noteq> 1 \<Longrightarrow> find_barrier s p = Some k"
proof (induction as arbitrary: p)
  case Nil
  then show ?case
    by (subst find_barrier.simps) (auto simp: nextI_eq iv_get_def split: if_splits)
next
  case (Cons a as)
  then obtain q where q: "p = Some a" "nextI s a = Some q" "chain (nextI s) q (as @ k # bs)"
    by (auto split: option.splits)
  then have "find_barrier s p = find_barrier s q"
    using Cons.prems(3) by (subst find_barrier.simps) (auto simp: nextI_eq iv_get_def split: if_splits)
  with Cons q show ?case by simp
qed

text \<open>The timestamp the first message carries: that of the current interval, up to \<open>hostnum\<close>.\<close>

definition mail_ts :: "int \<Rightarrow> timestamp \<Rightarrow> timestamp" where
  "mail_ts n t = take (nat n) t @ replicate (MAX_HOST_NUM - nat n) (- 1)"

lemma set_ts_no_ts:
  "length t = MAX_HOST_NUM \<Longrightarrow> n \<le> int MAX_HOST_NUM \<Longrightarrow> set_ts n t no_ts = Some (mail_ts n t)"
  by (simp add: set_ts_def no_ts_def mail_ts_def)

text \<open>The first message, its timestamp and the slot for the number of packets filled in.\<close>

lemma filling_start:
  assumes "quiet s" "in_hosts to" "host_ok s" "length t = MAX_HOST_NUM"
  defines "r \<equiv> SndSlot (sndTail s)"
  shows "\<exists>s1 s2 s3. new_msg to cmd s = Some (r, s1) \<and> same_mem s s1 \<and>
    set_ts (hostnum s1) t (m_timestamp (msg_at s1 r)) = Some (mail_ts (hostnum s) t) \<and>
    msg_upd (Some r) (\<lambda>m. m\<lparr>m_timestamp := mail_ts (hostnum s) t\<rparr>) s1 = Some s2 \<and>
    apendMsgData (Some r) (Some (int_bytes 0)) 4 s2 = Some (0, s3) \<and>
    filling cmd s ([], to, mail_ts (hostnum s) t, []) (r, 0, 0) s3"
proof -
  let ?ts = "mail_ts (hostnum s) t"
  let ?m = "\<lambda>ts bs. packed (myhostid s) to cmd ts bs"
  have "hostnum s \<le> int MAX_HOST_NUM" using assms(3) by (simp add: host_ok_def)
  then have ts: "set_ts (hostnum s) t no_ts = Some ?ts" using assms(4) by (simp add: set_ts_no_ts)
  have new: "new_msg to cmd s = Some (r, fill s (?m no_ts []))" using new_msg_fill [OF assms(1)] by (simp add: r_def)
  have upd: "msg_upd (Some r) (\<lambda>m. m\<lparr>m_timestamp := ?ts\<rparr>) (fill s (?m no_ts [])) = Some (fill s (?m ?ts []))"
    by (simp add: r_def packed_def del: set_msg.simps)
  have slot: "apendMsgData (Some r) (Some (int_bytes 0)) 4 (fill s (?m ?ts [])) = Some (0, fill s (?m ?ts (int_bytes 0)))"
    unfolding r_def by (subst append_fill_int) (simp_all add: size_consts)
  have "filling cmd s ([], to, ?ts, []) (r, 0, 0) (fill s (?m ?ts (int_bytes 0)))"
    unfolding filling_def r_def
    using assms(1,2) by (auto simp: packet_msg_def PER_MSG_def intro!: exI [of _ s] exI [of _ 0])
  moreover have "same_mem s (fill s (?m no_ts []))" by (rule same_mem_net_frame [OF fill_frame])
  ultimately show ?thesis using new upd slot ts
    by (intro exI [of _ "fill s (?m no_ts [])"] exI [of _ "fill s (?m ?ts [])"] exI [of _ "fill s (?m ?ts (int_bytes 0))"])
      (simp add: r_def del: set_msg.simps msg_upd.simps)
qed

lemma sendEnterBarrierInfo_ok:
  assumes ok: "mem_ok L W P s" and lg: "log_ok (host_log L W s)" and q: "quiet s" and me: "myhostid s \<noteq> 0"
    and L: "L (me s) = as @ k # bs" and bar: "i_isBarrier (ivals s ! k) = 1"
      "\<forall>j\<in>set as. i_isBarrier (ivals s ! j) \<noteq> 1"
    and now: "intervalNow s = Some i"
  shows "\<exists>t. sendEnterBarrierInfo s = Some t \<and> quiet t \<and> net_frame s t \<and>
    mailed (myhostid s) GRANT_ENTER_BARRIER_INFO (wire s) (wire t)
      (mail_of 0 (mail_ts (hostnum s) (i_timestamp (ivals s ! i)))
        (concat (map (entry_packets (me s)) (rev (map (entry_of W s) (as @ [k]))))))"
proof -
  note links = mem_ok_simps(2) [OF ok]
  note host = mem_ok_simps(1) [OF ok]
  note h = host_ok_me [OF host]
  have hn: "int (me s) < hostnum s" using host h(3) by (simp add: host_ok_def)
  have hosts: "in_hosts (myhostid s)" "in_hosts 0" using in_hosts_me [OF host] by (simp_all add: in_hosts_def)
  have il: "i < length (ivals s)" "ts_ok (i_timestamp (ivals s ! i))"
    using ok now links_interval_alloc [OF links h(1)] by (auto simp: mem_ok_def)
  then have lt: "length (i_timestamp (ivals s ! i)) = MAX_HOST_NUM" by (simp add: ts_ok_def)
  have fb: "find_barrier s (pr_intervalList (procArray s (me s))) = Some k"
    using find_barrier_eq links_chain_intervals [OF links h(1)] L bar by metis
  let ?ts = "mail_ts (hostnum s) (i_timestamp (ivals s ! i))" and ?r = "SndSlot (sndTail s)"
  obtain s1 s2 s3 where st: "new_msg 0 GRANT_ENTER_BARRIER_INFO s = Some (?r, s1)" "same_mem s s1"
    "set_ts (hostnum s1) (i_timestamp (ivals s ! i)) (m_timestamp (msg_at s1 ?r)) = Some ?ts"
    "msg_upd (Some ?r) (\<lambda>m. m\<lparr>m_timestamp := ?ts\<rparr>) s1 = Some s2"
    "apendMsgData (Some ?r) (Some (int_bytes 0)) 4 s2 = Some (0, s3)"
    "filling GRANT_ENTER_BARRIER_INFO s ([], 0, ?ts, []) (?r, 0, 0) s3"
    using filling_start [OF q hosts(2) host lt] by blast
  have now1: "iv_get s1 (intervalNow s1) = Some (ivals s ! i)"
    using st(2) now il(1) by (simp add: same_mem_def iv_get_def)
  have me3: "myhostid s3 = myhostid s" using filling_same_mem [OF st(6)] by (simp add: same_mem_def)
  have prevs: "back_ok (prevI s) None (as @ k # bs)"
    using links h(1) L by (auto simp: links_ok_def interval_lists_def)
  define pk where "pk = (\<lambda>j. entry_packets (me s) (entry_of W s j))"
  have "\<exists>b t. enter_intervals (int (me s)) (Some k) (?r, 0, 0) s3 = Some (b, t) \<and>
      filling GRANT_ENTER_BARRIER_INFO s (fold (\<lambda>j. fold (feed 0) (pk j)) (k # rev as) ([], 0, ?ts, [])) b t"
  proof (rule enter.walk_back [where K = "set (L (me s))" and I = "filling GRANT_ENTER_BARRIER_INFO s",
        OF _ _ prevs _ st(6)])
    show "\<exists>b' t. enter_visit (int (me s)) (ivals s ! j) b u = Some (b', t) \<and>
        filling GRANT_ENTER_BARRIER_INFO s (fold (feed 0) (pk j) x) b' t"
      if "j \<in> set (L (me s))" "filling GRANT_ENTER_BARRIER_INFO s x b u" for j x b u
      unfolding pk_def by (rule enter_visit_ok [OF ok lg h(1) hn that])
    show "ivals u = ivals s" if "filling GRANT_ENTER_BARRIER_INFO s x b u" for x b u
      using filling_same_mem [OF that] by (simp add: same_mem_def)
    show "insert k (set as) \<subseteq> set (L (me s))" by (auto simp: L)
  qed
  then obtain b t where t: "enter_intervals (myhostid s) (Some k) (?r, 0, 0) s3 = Some (b, t)"
    "filling GRANT_ENTER_BARRIER_INFO s (fold (feed 0) (concat (map pk (k # rev as))) ([], 0, ?ts, [])) b t"
    unfolding fold_feed_concat h(3) by blast
  obtain u where u: "put_rest b t = Some u" "quiet u" "net_frame s u"
    "mailed (myhostid s) GRANT_ENTER_BARRIER_INFO (wire s) (wire u) (mail_of 0 ?ts (concat (map pk (k # rev as))))"
    using put_rest_ok [OF t(2) hosts(1)] unfolding mail_of_def by blast
  have "sendEnterBarrierInfo s = Some u"
    using me h(2) fb st(1,3-5) now1 me3 t(1) u(1) by (simp add: sendEnterBarrierInfo_def del: msg_upd.simps)
  moreover have "concat (map (entry_packets (me s)) (rev (map (entry_of W s) (as @ [k])))) = concat (map pk (k # rev as))"
    by (simp add: pk_def rev_map comp_def)
  ultimately show ?thesis using u(2-4) by metis
qed

section \<open>Leaving the barrier\<close>

text \<open>The entries, oldest first, that a host with the timestamp \<open>ts\<close> is sent, with the host they
  belong to: those with notices and a strictly later timestamp.\<close>

definition lacks :: "nat \<Rightarrow> timestamp \<Rightarrow> log_entry \<Rightarrow> bool" where
  "lacks n ts e \<longleftrightarrow> snd e \<noteq> [] \<and> ts_after n (fst e) ts"

definition lacking :: "nat \<Rightarrow> timestamp \<Rightarrow> (nat \<Rightarrow> log_entry list) \<Rightarrow> (nat \<times> log_entry) list" where
  "lacking n ts lg =
     concat (map (\<lambda>j. map (Pair j) (filter (lacks n ts) (rev (lg j)))) [0..<n])"

definition feed_all :: "nat \<Rightarrow> (nat \<times> log_entry) list \<Rightarrow> parcel \<Rightarrow> parcel" where
  "feed_all i es p = fold (\<lambda>(j, e). feed_entry (int i) 0 (entry_packets j e)) es p"

definition exit_mail :: "nat \<Rightarrow> timestamp \<Rightarrow> timestamp \<Rightarrow> (nat \<Rightarrow> log_entry list) \<Rightarrow> nat \<Rightarrow> mail list" where
  "exit_mail n timestamp bts lg i =
     close_parcel (feed_all i (lacking n bts lg) ([], int i, mail_ts (int n) timestamp, []))"

lemma feed_all_append: "feed_all i (as @ bs) p = feed_all i bs (feed_all i as p)"
  by (simp add: feed_all_def)

lemma exit_visit_ok:
  assumes ok: "mem_ok L W P s0" and lg: "log_ok (host_log L W s0)" and j: "j < MAX_HOST_NUM" "int j < hostnum s0"
    and k: "k \<in> set (L j)" and i: "in_hosts (int i)" and bts: "length bts = MAX_HOST_NUM"
    and b: "filling GRANT_EXIT_BARRIER_INFO s0 p b s"
  shows "\<exists>b' t. exit_visit (int i) bts (int j) (ivals s0 ! k) b s = Some (b', t) \<and>
    filling GRANT_EXIT_BARRIER_INFO s0
      (feed_all i (map (Pair j) (filter (lacks (nat (hostnum s0)) bts) [entry_of W s0 k])) p) b' t"
proof -
  note e = entry_facts [OF ok lg j(1) k]
  have host: "host_ok s0" using ok by (simp add: mem_ok_def)
  have hosts: "in_hosts (myhostid s0)" "in_hosts 0" using in_hosts_me [OF host] by (simp_all add: in_hosts_def)
  have "hostnum s = hostnum s0" using filling_same_mem [OF b] by (simp add: same_mem_def)
  then have a: "isAfterInterval (hostnum s) (Some (i_timestamp (ivals s0 ! k))) (Some bts) =
      Some (if ts_after (nat (hostnum s0)) (i_timestamp (ivals s0 ! k)) bts then 1 else 0)"
    using e(5) bts host by (simp add: isAfterInterval_eq ts_ok_def host_ok_def)
  show ?thesis
  proof (cases "ts_after (nat (hostnum s0)) (i_timestamp (ivals s0 ! k)) bts \<and> W k \<noteq> []")
    case True
    then show ?thesis
      using put_interval_ok [OF e(2) _ b hosts(1) i hosts(2) _ j(2) e(4-6)] a e(3,7)
      by (simp add: exit_visit_def feed_all_def entry_of_def lacks_def)
  next
    case False
    then have "exit_visit (int i) bts (int j) (ivals s0 ! k) b s = Some (b, s)"
      using a e(3) by (auto simp: exit_visit_def)
    moreover have "feed_all i (map (Pair j) (filter (lacks (nat (hostnum s0)) bts) [entry_of W s0 k])) p = p"
      using False by (auto simp: feed_all_def entry_of_def lacks_def)
    ultimately show ?thesis using b by simp
  qed
qed

lemma exit_hosts_ok:
  assumes ok: "mem_ok L W P s0" and lg: "log_ok (host_log L W s0)"
    and i: "in_hosts (int i)" and bts: "length bts = MAX_HOST_NUM"
    and j: "j \<le> nat (hostnum s0)" and b: "filling GRANT_EXIT_BARRIER_INFO s0 p b s"
  defines "af \<equiv> lacks (nat (hostnum s0)) bts"
  shows "\<exists>b' t. exit_hosts (int i) bts j (hostnum s0) b s = Some (b', t) \<and>
    filling GRANT_EXIT_BARRIER_INFO s0 (feed_all i (concat (map (\<lambda>j. map (Pair j)
      (filter af (rev (host_log L W s0 j)))) [j..<nat (hostnum s0)])) p) b' t"
  using j b
proof (induction "nat (hostnum s0) - j" arbitrary: j p b s)
  case 0
  then have "\<not> int j < hostnum s0" "[j..<nat (hostnum s0)] = []" by simp_all
  then have "exit_hosts (int i) bts j (hostnum s0) b s = Some (b, s)" by (subst exit_hosts.simps) simp
  with 0 show ?case by (intro exI [of _ b] exI [of _ s]) (simp add: feed_all_def)
next
  case (Suc n)
  note links = mem_ok_simps(2) [OF ok]
  have host: "host_ok s0" using ok by (simp add: mem_ok_def)
  have lt: "j < nat (hostnum s0)" "int j < hostnum s0" "j < MAX_HOST_NUM" using Suc.hyps(2) host by (auto simp: host_ok_def)
  have sm: "same_mem s0 s" using filling_same_mem [OF Suc.prems(2)] .
  then have reads: "procArray s = procArray s0" "nextI s = nextI s0" by (auto simp: same_mem_def nextI_eq fun_eq_iff)
  have ch: "chain (nextI s0) (pr_intervalList (procArray s0 j)) (L j)" using links_chain_intervals [OF links lt(3)] .
  have upt: "[j..<nat (hostnum s0)] = j # [Suc j..<nat (hostnum s0)]" using lt(1) by (simp add: upt_conv_Cons)
  let ?v = "map (Pair j) (filter af (rev (host_log L W s0 j)))"
  have "\<exists>b' t. (case pr_intervalList (procArray s j) of None \<Rightarrow> Some (b, s)
      | Some k \<Rightarrow> do { oldest \<leftarrow> chain_last (nextI s) k; exit_intervals (int i) bts (int j) (Some oldest) b s }) = Some (b', t) \<and>
      filling GRANT_EXIT_BARRIER_INFO s0 (feed_all i ?v p) b' t"
  proof (cases "L j = []")
    case True
    with ch Suc.prems(2) reads show ?thesis by (simp add: host_log_def feed_all_def)
  next
    case False
    then obtain ks k where ks: "L j = ks @ [k]" by (cases "L j" rule: rev_cases) auto
    obtain k0 where k0: "pr_intervalList (procArray s0 j) = Some k0"
      using ch False by (cases "L j") auto
    then have "chain_last (nextI s0) k0 = Some k"
      using chain_last_eq [of "nextI s0" k0 "L j"] ch by (simp add: ks)
    note k0 = k0 this
    have prevs: "back_ok (prevI s0) None (ks @ k # [])"
      using links lt(3) ks by (auto simp: links_ok_def interval_lists_def)
    define f where "f = (\<lambda>k. feed_all i (map (Pair j) (filter af [entry_of W s0 k])))"
    have "\<exists>b' t. exit_intervals (int i) bts (int j) (Some k) b s = Some (b', t) \<and>
        filling GRANT_EXIT_BARRIER_INFO s0 (fold f (k # rev ks) p) b' t"
    proof (rule exit.walk_back [where K = "set (L j)" and I = "filling GRANT_EXIT_BARRIER_INFO s0",
          OF _ _ prevs _ Suc.prems(2)])
      show "\<exists>b' t. exit_visit (int i) bts (int j) (ivals s0 ! m) b u = Some (b', t) \<and>
          filling GRANT_EXIT_BARRIER_INFO s0 (f m x) b' t"
        if "m \<in> set (L j)" "filling GRANT_EXIT_BARRIER_INFO s0 x b u" for m x b u
        unfolding f_def af_def by (rule exit_visit_ok [OF ok lg lt(3,2) that(1) i bts that(2)])
      show "ivals u = ivals s0" if "filling GRANT_EXIT_BARRIER_INFO s0 x b u" for x b u
        using filling_same_mem [OF that] by (simp add: same_mem_def)
      show "insert k (set ks) \<subseteq> set (L j)" by (auto simp: ks)
    qed
    moreover have ff: "fold f xs p = feed_all i (map (Pair j) (filter af (map (entry_of W s0) xs))) p" for xs
      by (induction xs arbitrary: p) (auto simp: f_def feed_all_def)
    moreover have "fold f (k # rev ks) p = feed_all i ?v p"
      unfolding ff by (simp add: host_log_def ks rev_map)
    ultimately show ?thesis using k0 reads by (simp only: option.simps bind.simps)
  qed
  then obtain b' t where t: "(case pr_intervalList (procArray s j) of None \<Rightarrow> Some (b, s)
      | Some k \<Rightarrow> do { oldest \<leftarrow> chain_last (nextI s) k; exit_intervals (int i) bts (int j) (Some oldest) b s }) = Some (b', t)"
    "filling GRANT_EXIT_BARRIER_INFO s0 (feed_all i ?v p) b' t"
    by blast
  have "exit_hosts (int i) bts j (hostnum s0) b s = exit_hosts (int i) bts (Suc j) (hostnum s0) b' t"
    using t(1) lt(2,3) by (subst exit_hosts.simps) simp
  moreover have "\<exists>b'' u. exit_hosts (int i) bts (Suc j) (hostnum s0) b' t = Some (b'', u) \<and>
      filling GRANT_EXIT_BARRIER_INFO s0 (feed_all i (concat (map (\<lambda>j. map (Pair j)
        (filter af (rev (host_log L W s0 j)))) [Suc j..<nat (hostnum s0)])) (feed_all i ?v p)) b'' u"
    using Suc.hyps(1) [OF _ _ t(2)] Suc.hyps(2) lt(1) by simp
  ultimately show ?case unfolding upt by (simp add: feed_all_append)
qed

lemma exit_info_ok:
  assumes ok: "mem_ok L W P s" and lg: "log_ok (host_log L W s)" and q: "quiet s"
    and i: "in_hosts (int i)" and bts: "length (barrierTimestamps s i) = MAX_HOST_NUM"
    and ts: "length timestamp = MAX_HOST_NUM"
  shows "\<exists>t. exit_info timestamp i s = Some t \<and> quiet t \<and> net_frame s t \<and>
    mailed (myhostid s) GRANT_EXIT_BARRIER_INFO (wire s) (wire t)
      (exit_mail (nat (hostnum s)) timestamp (barrierTimestamps s i) (host_log L W s) i)"
proof -
  note host = mem_ok_simps(1) [OF ok]
  let ?ts = "mail_ts (hostnum s) timestamp" and ?r = "SndSlot (sndTail s)"
  obtain s1 s2 s3 where st: "new_msg (int i) GRANT_EXIT_BARRIER_INFO s = Some (?r, s1)" "same_mem s s1"
    "set_ts (hostnum s1) timestamp (m_timestamp (msg_at s1 ?r)) = Some ?ts"
    "msg_upd (Some ?r) (\<lambda>m. m\<lparr>m_timestamp := ?ts\<rparr>) s1 = Some s2"
    "apendMsgData (Some ?r) (Some (int_bytes 0)) 4 s2 = Some (0, s3)"
    "filling GRANT_EXIT_BARRIER_INFO s ([], int i, ?ts, []) (?r, 0, 0) s3"
    using filling_start [OF q i host ts] by blast
  have reads: "hostnum s3 = hostnum s" "barrierTimestamps s3 = barrierTimestamps s"
    using filling_same_mem [OF st(6)] by (simp_all add: same_mem_def)
  obtain b t where t: "exit_hosts (int i) (barrierTimestamps s i) 0 (hostnum s) (?r, 0, 0) s3 = Some (b, t)"
    "filling GRANT_EXIT_BARRIER_INFO s
       (feed_all i (lacking (nat (hostnum s)) (barrierTimestamps s i) (host_log L W s)) ([], int i, ?ts, [])) b t"
    using exit_hosts_ok [OF ok lg i bts _ st(6), of 0] unfolding lacking_def by simp blast
  obtain u where "put_rest b t = Some u" "quiet u" "net_frame s u"
    "mailed (myhostid s) GRANT_EXIT_BARRIER_INFO (wire s) (wire u)
      (exit_mail (nat (hostnum s)) timestamp (barrierTimestamps s i) (host_log L W s) i)"
    using put_rest_ok [OF t(2) in_hosts_me [OF host]] host unfolding exit_mail_def by (auto simp: host_ok_def)
  with st(1,3-5) t(1) reads show ?thesis by (simp add: exit_info_def del: msg_upd.simps)
qed

end
