(* ===== verification/Rendezvous.thy ===== *)
theory Rendezvous
  imports Release Frames
begin

text \<open>
  The barrier as a whole: host 0 waits until all flags are set, starts a new interval, returns the
  missing write notices and lets the hosts go; the receivers merge what arrives into their logs.
\<close>

section \<open>What host 0 returns\<close>

lemma push_interval_frame:
  "push_interval h iv s = Some (k, t) \<Longrightarrow> k = length (ivals s) \<and> t = s\<lparr>procArray := procArray t, ivals := ivals t\<rparr>"
  by (auto simp: push_interval_def iv_upd_def set_intervalList_def Let_def split: if_splits option.splits bind_splits)

lemma net_frame_mem:
  assumes "net_frame s t"
  shows "same_mem s t" "barrierFlags t = barrierFlags s" "waitFlag t = waitFlag s" "locks t = locks s"
    "myLocks t = myLocks s" "lasthostid t = lasthostid s"
  using assms same_mem_net_frame by (cases s; cases t; simp add: net_frame_def)+

definition rows_ok :: "mem_st \<Rightarrow> bool" where
  "rows_ok s \<longleftrightarrow> (\<forall>i<MAX_HOST_NUM. length (barrierTimestamps s i) = MAX_HOST_NUM)"

lemma exit_infos_ok:
  assumes "mem_ok L W P s" "log_ok (host_log L W s)" "quiet s" "rows_ok s" "length timestamp = MAX_HOST_NUM"
    and "\<forall>i\<in>set is. i < MAX_HOST_NUM"
  shows "\<exists>t. exit_infos timestamp is s = Some t \<and> quiet t \<and> net_frame s t \<and>
    mailed (myhostid s) GRANT_EXIT_BARRIER_INFO (wire s) (wire t)
      (concat (map (\<lambda>i. exit_mail (nat (hostnum s)) timestamp (barrierTimestamps s i) (host_log L W s) i) is))"
  using assms
proof (induction "is" arbitrary: s)
  case Nil
  then show ?case by simp
next
  case (Cons i "is")
  let ?mail = "\<lambda>i. exit_mail (nat (hostnum s)) timestamp (barrierTimestamps s i) (host_log L W s) i"
  have "in_hosts (int i)" "length (barrierTimestamps s i) = MAX_HOST_NUM"
    using Cons.prems(4,6) by (simp_all add: in_hosts_def rows_ok_def)
  then obtain t where t: "exit_info timestamp i s = Some t" "quiet t" "net_frame s t"
    "mailed (myhostid s) GRANT_EXIT_BARRIER_INFO (wire s) (wire t) (?mail i)"
    using exit_info_ok [OF Cons.prems(1-3)] Cons.prems(5) by blast
  note sm = net_frame_mem(1) [OF t(3)]
  have log: "host_log L W t = host_log L W s" by (rule host_log_same_mem [OF sm])
  have same: "hostnum t = hostnum s" "myhostid t = myhostid s" "barrierTimestamps t = barrierTimestamps s"
    using sm by (simp_all add: same_mem_def)
  have "mem_ok L W P t" "log_ok (host_log L W t)" "rows_ok t"
    using Cons.prems(1,2,4) mem_ok_same_mem [OF sm] by (simp_all add: log same rows_ok_def)
  then obtain u where u: "exit_infos timestamp is t = Some u" "quiet u" "net_frame t u"
    "mailed (myhostid s) GRANT_EXIT_BARRIER_INFO (wire t) (wire u) (concat (map ?mail is))"
    using Cons.IH [of t] t(2) Cons.prems(5,6) unfolding log same by auto
  have "exit_infos timestamp (i # is) s = Some u" using t(1) u(1) by simp
  moreover have "mailed (myhostid s) GRANT_EXIT_BARRIER_INFO (wire s) (wire u) (concat (map ?mail (i # is)))"
    using mailed_append [OF t(4) u(4)] by simp
  ultimately show ?case using u(2) net_frame_trans [OF t(3) u(3)] by blast
qed

text \<open>The timestamp of the new interval, and the state when \<open>returnAllBarrierInfo\<close> returns.\<close>

definition release_ts :: "mem_st \<Rightarrow> timestamp" where
  "release_ts s = map (\<lambda>i. if int i < hostnum s then s32 (barrierTimestamps s i ! i + 1) else 0) [0..<MAX_HOST_NUM]"

lemma release_ts_ok: "ts_ok (release_ts s)"
  by (auto simp: ts_ok_def release_ts_def list_all_iff in32_def s32_def)

definition release_mail :: "(nat \<Rightarrow> log_entry list) \<Rightarrow> mem_st \<Rightarrow> mail list" where
  "release_mail lg s = concat (map (\<lambda>i. exit_mail (nat (hostnum s)) (release_ts s) (barrierTimestamps s i) lg i)
     [1..<nat (hostnum s)])"

definition released :: "mem_st \<Rightarrow> mem_st \<Rightarrow> bool" where
  "released s u \<longleftrightarrow> pageArray u = pageArray s \<and> wns u = wns s \<and> vm u = vm s \<and> hostnum u = hostnum s \<and>
     myhostid u = myhostid s \<and> intervalNow u = Some (length (ivals s)) \<and>
     i_isBarrier (ivals u ! length (ivals s)) = 1 \<and> waitFlag u = waitFlag s \<and>
     (\<forall>i<nat (hostnum s). \<forall>j<nat (hostnum s). barrierTimestamps u i ! j = - 1) \<and> rows_ok u \<and>
     (\<forall>k<LOCK_NUM. locks u k = (locks s k)\<lparr>l_lasthostid := - 1\<rparr>)"

lemma lacking_new_interval:
  assumes "\<forall>g<MAX_HOST_NUM. lg' g = (if g = h then (t, []) # lg g else lg g)" "n \<le> MAX_HOST_NUM"
  shows "lacking n ts lg' = lacking n ts lg"
proof -
  have "filter (lacks n ts) (rev (lg' j)) = filter (lacks n ts) (rev (lg j))" if "j < n" for j
    using assms that by (simp add: lacks_def)
  then show ?thesis unfolding lacking_def by (intro arg_cong [of _ _ concat] map_cong) auto
qed

lemma log_ok_push:
  assumes "\<forall>g<MAX_HOST_NUM. lg' g = (if g = h then (t, []) # lg g else lg g)" "log_ok lg"
  shows "log_ok lg'"
  unfolding log_ok_def
proof (intro allI impI ballI)
  fix g e
  assume g: "g < MAX_HOST_NUM" and e: "e \<in> set (lg' g)"
  have "list_all page_index (snd e)" if "e \<in> set (lg g)"
    using assms(2) g that by (simp add: log_ok_def)
  with assms(1) g e show "list_all page_index (snd e)" by (auto split: if_splits)
qed

lemma returnAllBarrierInfo_ok:
  assumes ok: "mem_ok L W P s" and lg: "log_ok (host_log L W s)" and q: "quiet s" and rows: "rows_ok s"
    and me: "myhostid s = 0"
  defines "n \<equiv> length (ivals s)"
  shows "\<exists>u. returnAllBarrierInfo s = Some u \<and> mem_ok (L(0 := n # L 0)) (W(n := [])) P u \<and> quiet u \<and>
    mailed 0 GRANT_EXIT_BARRIER_INFO (wire s) (wire u) (release_mail (host_log L W s) s) \<and>
    (\<forall>g<MAX_HOST_NUM. host_log (L(0 := n # L 0)) (W(n := [])) u g =
       (if g = 0 then (release_ts s, []) # host_log L W s g else host_log L W s g)) \<and>
    released s u \<and> barrierFlags u = barrierFlags s"
proof -
  note links = mem_ok_simps(2) [OF ok]
  note host = mem_ok_simps(1) [OF ok]
  have me0: "me s = 0" "hostnum s \<le> int MAX_HOST_NUM" using me host by (simp_all add: me_def host_ok_def)
  have bts: "barrier_ts s = Some (release_ts s)" using me0(2) by (simp add: barrier_ts_def release_ts_def)
  let ?iv = "empty_interval\<lparr>i_timestamp := release_ts s, i_isBarrier := 1\<rparr>"
  have iv: "i_notices ?iv = None" "i_prev ?iv = None" "ts_ok (i_timestamp ?iv)"
    using release_ts_ok by (simp_all add: empty_interval_def)
  obtain t where t: "push_interval 0 ?iv s = Some (n, t)"
    "mem_ok (L(0 := n # L 0)) (W(n := [])) P (t\<lparr>intervalNow := Some n\<rparr>)"
    "\<forall>g<MAX_HOST_NUM. host_log (L(0 := n # L 0)) (W(n := [])) t g =
       (if g = 0 then (release_ts s, []) # host_log L W s g else host_log L W s g)"
    "length (ivals t) = Suc n"
    using local_interval_ok [OF ok iv] me0(1) by (auto simp: n_def)
  have fr: "t = s\<lparr>procArray := procArray t, ivals := ivals t\<rparr>" using push_interval_frame [OF t(1)] by simp
  have bar: "i_isBarrier (ivals t ! n) = 1"
    using t(1,4) push_interval_eq [OF links, of 0 ?iv] by (auto simp: n_def set_intervalList_def nth_append split: list.splits)
  let ?L = "L(0 := n # L 0)" and ?W = "W(n := [])" and ?t = "t\<lparr>intervalNow := Some n\<rparr>"
  have same: "pageArray ?t = pageArray s" "wns ?t = wns s" "vm ?t = vm s" "hostnum ?t = hostnum s" "myhostid ?t = myhostid s"
    "waitFlag ?t = waitFlag s" "barrierTimestamps ?t = barrierTimestamps s" "locks ?t = locks s" "wire ?t = wire s"
    "barrierFlags ?t = barrierFlags s" "quiet ?t = quiet s" "ivals ?t = ivals t"
    by (subst fr, simp add: quiet_def snd_ok_def)+
  have hl: "host_log ?L ?W ?t = host_log ?L ?W t" by (simp add: host_log_def entry_of_def fun_eq_iff)
  have "log_ok (host_log ?L ?W ?t)" unfolding hl by (rule log_ok_push [OF t(3) lg])
  moreover have "rows_ok ?t" using rows by (simp add: rows_ok_def same)
  moreover have "length (release_ts s) = MAX_HOST_NUM" by (simp add: release_ts_def)
  moreover have "\<forall>i\<in>set [1..<nat (hostnum s)]. i < MAX_HOST_NUM" using me0(2) by auto
  ultimately obtain v where v: "exit_infos (release_ts s) [1..<nat (hostnum s)] ?t = Some v" "quiet v" "net_frame ?t v"
    "mailed 0 GRANT_EXIT_BARRIER_INFO (wire s) (wire v) (concat (map (\<lambda>i. exit_mail (nat (hostnum s)) (release_ts s)
       (barrierTimestamps s i) (host_log ?L ?W ?t) i) [1..<nat (hostnum s)]))"
    using exit_infos_ok [OF t(2), of "release_ts s" "[1..<nat (hostnum s)]"] q unfolding same me by blast
  have "exit_mail (nat (hostnum s)) x b (host_log ?L ?W ?t) i = exit_mail (nat (hostnum s)) x b (host_log L W s) i" for x b i
    unfolding exit_mail_def hl using lacking_new_interval [OF t(3)] me0(2) by simp
  then have mail: "mailed 0 GRANT_EXIT_BARRIER_INFO (wire s) (wire v) (release_mail (host_log L W s) s)"
    using v(4) by (simp add: release_mail_def)
  let ?n = "nat (hostnum s)"
  define u where "u = v\<lparr>locks := (\<lambda>k. if k < LOCK_NUM then (locks s k)\<lparr>l_lasthostid := - 1\<rparr> else locks s k),
    barrierTimestamps := (\<lambda>i. if i < ?n then replicate ?n (- 1) @ drop ?n (barrierTimestamps s i) else barrierTimestamps s i)\<rparr>"
  note fm = net_frame_mem [OF v(3)]
  have vs: "hostnum v = hostnum s" "locks v = locks s" "barrierTimestamps v = barrierTimestamps s"
    using fm same by (auto simp: same_mem_def)
  have run: "returnAllBarrierInfo s = Some u"
  proof -
    have "L 0 \<noteq> []" using ok me0(1) by (auto simp: mem_ok_def)
    then obtain p0 where p0: "pr_intervalList (procArray s 0) = Some p0"
      using links_chain_intervals [OF links, of 0] by (cases "L 0") auto
    have hn: "hostnum t = hostnum s" using same(4) by simp
    show ?thesis
      unfolding returnAllBarrierInfo_def bts u_def
      by (simp add: t(1) p0 hn v(1) [unfolded One_nat_def] vs Let_def cong: if_cong)
  qed
  have smu: "pageArray u = pageArray v" "procArray u = procArray v" "ivals u = ivals v" "wns u = wns v" "vm u = vm v"
    "hostnum u = hostnum v" "myhostid u = myhostid v" "intervalNow u = intervalNow v"
    by (simp_all add: u_def)
  have heap: "same_heap v u" by (simp add: same_heap_def smu)
  have "mem_ok ?L ?W P u"
    using t(2) mem_ok_same_mem [OF fm(1)] mem_ok_same_heap [OF heap] by simp
  moreover have "host_log ?L ?W u = host_log ?L ?W t"
    using host_log_same_mem [OF fm(1)] host_log_same_heap [OF heap] hl by simp
  moreover have "released s u"
    using fm same bar rows me0(2) by (auto simp: released_def smu same_mem_def n_def u_def rows_ok_def nth_append)
  moreover have "quiet u" "wire u = wire v" "barrierFlags u = barrierFlags s"
    using v(2) fm(2) same(10) by (auto simp: u_def quiet_def snd_ok_def)
  ultimately show ?thesis using run mail t(3) by auto
qed

section \<open>The flags\<close>

lemma exit_msgs_ok:
  assumes "quiet s" "in_hosts (myhostid s)" "\<forall>i\<in>set is. i < MAX_HOST_NUM"
  shows "\<exists>t. exit_msgs is s = Some t \<and> quiet t \<and> net_frame s t \<and>
    mailed (myhostid s) EXIT_BARRIER (wire s) (wire t) (map (\<lambda>i. (int i, no_ts, [])) is)"
  using assms
proof (induction "is" arbitrary: s)
  case Nil
  then show ?case by simp
next
  case (Cons i "is")
  have i: "in_hosts (int i)" using Cons.prems(3) by (simp add: in_hosts_def)
  obtain r s1 t where t: "new_msg (int i) EXIT_BARRIER s = Some (r, s1)" "sendMsg (Some r) s1 = Some (0, t)"
    "quiet t" "net_frame s t" "sent (wire s) (wire t) [sent_msg s (int i) EXIT_BARRIER no_ts []]"
    using new_send [OF Cons.prems(1) i Cons.prems(2), of EXIT_BARRIER] by (auto split: bind_splits)
  have "packets_of (\<lambda>_. 0) = Some []"
    by (simp add: packets_of_def peek_int_def peek_def bytes_int_def upt_rec s32_def size_consts)
  then have "mailed (myhostid s) EXIT_BARRIER (wire s) (wire t) [(int i, no_ts, [])]"
    unfolding mailed_def using t(5) by (auto simp: carries_def sent_msg_def)
  moreover obtain u where u: "exit_msgs is t = Some u" "quiet u" "net_frame t u"
    "mailed (myhostid s) EXIT_BARRIER (wire t) (wire u) (map (\<lambda>i. (int i, no_ts, [])) is)"
    using Cons.IH [OF t(3)] Cons.prems(2,3) net_frame_mem(1) [OF t(4)] by (auto simp: same_mem_def)
  ultimately have "mailed (myhostid s) EXIT_BARRIER (wire s) (wire u) (map (\<lambda>i. (int i, no_ts, [])) (i # is))"
    using mailed_append by fastforce
  then show ?case using t(1,2) u(1,2) net_frame_trans [OF t(4) u(3)] by auto
qed

lemma flags_loop_eq:
  "\<forall>i\<in>set is. i < MAX_HOST_NUM \<Longrightarrow> flags_loop is s = Some (list_all (\<lambda>i. barrierFlags s i = 1) is)"
  by (induction "is") auto

definition all_entered :: "'a syn_st_scheme \<Rightarrow> bool" where
  "all_entered s \<longleftrightarrow> (\<forall>i<nat (hostnum s). barrierFlags s i = 1)"

lemma checkBarrierFlags_wait:
  assumes "host_ok s" "myhostid s = 0" "\<not> all_entered s"
  shows "checkBarrierFlags s = Some (- 1, s)"
proof -
  have "flags_loop [0..<nat (hostnum s)] s = Some False"
    using assms by (subst flags_loop_eq) (auto simp: host_ok_def all_entered_def list_all_iff)
  then show ?thesis using assms(2) by (simp add: checkBarrierFlags_def)
qed

lemma checkBarrierFlags_ok:
  assumes ok: "mem_ok L W P s" and lg: "log_ok (host_log L W s)" and q: "quiet s" and rows: "rows_ok s"
    and me: "myhostid s = 0" and all: "all_entered s"
  defines "n \<equiv> length (ivals s)"
  shows "\<exists>v w. checkBarrierFlags s = Some (0, v) \<and> mem_ok (L(0 := n # L 0)) (W(n := [])) P v \<and> quiet v \<and>
    mailed 0 GRANT_EXIT_BARRIER_INFO (wire s) w (release_mail (host_log L W s) s) \<and>
    mailed 0 EXIT_BARRIER w (wire v) (map (\<lambda>i. (int i, no_ts, [])) [1..<nat (hostnum s)]) \<and>
    (\<forall>g<MAX_HOST_NUM. host_log (L(0 := n # L 0)) (W(n := [])) v g =
       (if g = 0 then (release_ts s, []) # host_log L W s g else host_log L W s g)) \<and>
    released s v \<and> (\<forall>i<nat (hostnum s). barrierFlags v i = 0)"
proof -
  have hosts: "host_ok s" "in_hosts (myhostid s)" "\<forall>i\<in>set [1..<nat (hostnum s)]. i < MAX_HOST_NUM"
    "\<forall>i\<in>set [0..<nat (hostnum s)]. i < MAX_HOST_NUM"
    using ok in_hosts_me by (auto simp: mem_ok_def host_ok_def)
  have flags: "flags_loop [0..<nat (hostnum s)] s = Some True"
    unfolding flags_loop_eq [OF hosts(4)] using all by (simp add: all_entered_def list_all_iff)
  obtain u where u: "returnAllBarrierInfo s = Some u" "mem_ok (L(0 := n # L 0)) (W(n := [])) P u" "quiet u"
    "mailed 0 GRANT_EXIT_BARRIER_INFO (wire s) (wire u) (release_mail (host_log L W s) s)"
    "\<forall>g<MAX_HOST_NUM. host_log (L(0 := n # L 0)) (W(n := [])) u g =
       (if g = 0 then (release_ts s, []) # host_log L W s g else host_log L W s g)" "released s u"
    using returnAllBarrierInfo_ok [OF ok lg q rows me] unfolding n_def by blast
  have su: "hostnum u = hostnum s" "myhostid u = 0" "in_hosts (myhostid u)"
    using u(6) me hosts(2) by (simp_all add: released_def)
  obtain v where v: "exit_msgs [1..<nat (hostnum s)] u = Some v" "quiet v" "net_frame u v"
    "mailed 0 EXIT_BARRIER (wire u) (wire v) (map (\<lambda>i. (int i, no_ts, [])) [1..<nat (hostnum s)])"
    using exit_msgs_ok [OF u(3) su(3) hosts(3)] su(2) by auto
  note fm = net_frame_mem [OF v(3)]
  have hv: "hostnum v = hostnum s" using fm(1) su(1) by (simp add: same_mem_def)
  define x where "x = v\<lparr>barrierFlags := (\<lambda>i. if int i < hostnum v then 0 else barrierFlags v i)\<rparr>"
  have run: "checkBarrierFlags s = Some (0, x)"
    using me flags u(1) v(1) su(1) by (simp add: checkBarrierFlags_def x_def)
  have heap: "same_heap u x" using fm(1) by (simp add: same_mem_def same_heap_def x_def)
  have "released s x"
    using u(6) fm by (simp add: released_def same_mem_def x_def rows_ok_def)
  moreover have "quiet x" "wire x = wire v" "\<forall>i<nat (hostnum s). barrierFlags x i = 0"
    using v(2) hv by (auto simp: x_def quiet_def snd_ok_def)
  ultimately show ?thesis
    using run u(4) v(4) mem_ok_same_heap [OF heap] u(2) u(5) host_log_same_heap [OF heap] by metis
qed

section \<open>What the receivers do\<close>

definition merge_packets :: "wnPacket_t list \<Rightarrow> (nat \<Rightarrow> log_entry list) \<Rightarrow> nat \<Rightarrow> log_entry list" where
  "merge_packets pks lg g =
     fold (\<lambda>pk. if k_hostid pk = int g then merge_log (k_timestamp pk) (packet_pages pk) else id) pks (lg g)"

lemma merge_packets_simps [simp]:
  "merge_packets [] lg g = lg g"
  "merge_packets (pk # pks) lg g =
     merge_packets pks (\<lambda>g. if k_hostid pk = int g then merge_log (k_timestamp pk) (packet_pages pk) (lg g) else lg g) g"
  by (simp_all add: merge_packets_def)

lemma incorporate_all_ok:
  assumes "mem_ok L W P s" "\<forall>pk\<in>set pks. packet_ok s pk"
  shows "\<exists>t L' W' P'. incorporate_all pks s = Some t \<and> mem_ok L' W' P' t \<and>
    (\<forall>g<MAX_HOST_NUM. host_log L' W' t g = merge_packets pks (host_log L W s) g) \<and>
    page_bytes t = page_bytes s \<and> hostnum t = hostnum s \<and> myhostid t = myhostid s \<and> intervalNow t = intervalNow s"
  using assms
proof (induction pks arbitrary: L W P s)
  case Nil
  then show ?case by auto
next
  case (Cons pk pks)
  have pk: "packet_ok s pk" using Cons.prems(2) by simp
  obtain t L1 W1 P1 where t: "incorporateWnPacket (Some pk) s = Some (0, t)" "mem_ok L1 W1 P1 t"
    "packet_effect pk (host_log L W s) s (host_log L1 W1 t) t"
    using incorporateWnPacket_ok [OF Cons.prems(1) pk] by blast
  have same: "hostnum t = hostnum s" "myhostid t = myhostid s" "page_bytes t = page_bytes s" "intervalNow t = intervalNow s"
    using t(3) by (simp_all add: packet_effect_def)
  then have "\<forall>pk\<in>set pks. packet_ok t pk" using Cons.prems(2) by (simp add: packet_ok_def)
  then obtain u L2 W2 P2 where u: "incorporate_all pks t = Some u" "mem_ok L2 W2 P2 u"
    "\<forall>g<MAX_HOST_NUM. host_log L2 W2 u g = merge_packets pks (host_log L1 W1 t) g"
    "page_bytes u = page_bytes t" "hostnum u = hostnum t" "myhostid u = myhostid t" "intervalNow u = intervalNow t"
    using Cons.IH [OF t(2)] by blast
  have "host_log L2 W2 u g = merge_packets (pk # pks) (host_log L W s) g" if g: "g < MAX_HOST_NUM" for g
    using u(3) t(3) g by (auto simp: merge_packets_def packet_effect_def)
  with t(1) u same show ?case by auto
qed

text \<open>The packets of one entry merge like the entry itself.\<close>

lemma add_pages_append: "add_pages old (as @ bs) = add_pages (add_pages old as) bs"
  by (simp add: add_pages_def)

lemma log_update_append: "log_update t bs (log_update t as es) = log_update t (as @ bs) es"
  by (induction es) (auto simp: add_pages_append)

lemma merge_log_append: "merge_log t bs (merge_log t as es) = merge_log t (as @ bs) es"
proof -
  have "fst ` set (log_update t as es) = fst ` set es"
    using fst_log_update [of t as es] by (metis set_map)
  then show ?thesis by (simp add: merge_log_def log_update_append add_pages_append)
qed

lemma fold_merge_chunks:
  "fold (merge_log t) cs (merge_log t c es) = merge_log t (c @ concat cs) es"
  by (induction cs arbitrary: c) (simp_all add: merge_log_append)

lemma packet_pages_notice [simp]: "packet_pages (notice_packet h ts ps) = ps"
  by (simp add: packet_pages_def notice_packet_def)

lemma notice_packet_fields [simp]:
  "k_hostid (notice_packet h ts ps) = h" "k_timestamp (notice_packet h ts ps) = ts"
  by (simp_all add: notice_packet_def)

definition merge_entry :: "log_entry \<Rightarrow> log_entry list \<Rightarrow> log_entry list" where
  "merge_entry e es = (if snd e = [] then es else merge_log (fst e) (snd e) es)"

lemma merge_entry_packets:
  "merge_packets (entry_packets h e) lg g = (if g = h then merge_entry e (lg g) else lg g)"
proof (cases "snd e = []")
  case True
  then show ?thesis by (simp add: entry_packets_def merge_entry_def)
next
  case False
  let ?c = "take MAX_WN_NUM (snd e)" and ?cs = "page_chunks (drop MAX_WN_NUM (snd e))"
  have other: "fold (\<lambda>pk. if k_hostid pk = int g then merge_log (k_timestamp pk) (packet_pages pk) else id)
      (map (notice_packet (int h) t) cs) es = es" if "g \<noteq> h" for t cs es
    using that by (induction cs arbitrary: es) auto
  have own: "fold (\<lambda>pk. if k_hostid pk = int h then merge_log (k_timestamp pk) (packet_pages pk) else id)
      (map (notice_packet (int h) t) cs) es = fold (merge_log t) cs es" for t cs es
    by (induction cs arbitrary: es) auto
  have "fold (merge_log (fst e)) (?c # ?cs) (lg g) = merge_log (fst e) (snd e) (lg g)"
    using fold_merge_chunks [of "fst e" ?cs ?c] by (simp add: concat_page_chunks)
  then show ?thesis
    using False other own
    by (auto simp: merge_packets_def entry_packets_def notice_packets_def merge_entry_def page_chunks_ne)
qed

lemma merge_packets_append: "merge_packets (as @ bs) lg g = merge_packets bs (merge_packets as lg) g"
  by (simp add: merge_packets_def)

lemma merge_packets_own:
  "merge_packets (concat (map (entry_packets h) es)) lg g = (if g = h then fold merge_entry es (lg g) else lg g)"
proof (induction es arbitrary: lg)
  case (Cons e es)
  then show ?case by (auto simp: merge_packets_append merge_entry_packets)
qed simp

lemma entry_packets_ok:
  assumes "list_all page_index (snd e)" "ts_ok (fst e)" "h < MAX_HOST_NUM" "int h \<noteq> myhostid s"
    and "pk \<in> set (entry_packets h e)"
  shows "packet_ok s pk"
proof -
  obtain c where c: "pk = notice_packet (int h) (fst e) c" "c \<in> set (page_chunks (snd e))"
    using assms(5) by (auto simp: entry_packets_def notice_packets_def)
  then have "list_all page_index c" using chunk_in [OF c(2)] assms(1) by (auto simp: list_all_iff)
  then show ?thesis using assms(2-4) by (simp add: c(1) packet_ok_def) (simp add: notice_packet_def)
qed

text \<open>A run of messages handled one after the other.\<close>

fun handle_all :: "('m \<Rightarrow> 's \<Rightarrow> 's option) \<Rightarrow> 'm list \<Rightarrow> 's \<Rightarrow> 's option" where
  "handle_all f [] s = Some s"
| "handle_all f (m # ms) s = do { s \<leftarrow> f m s; handle_all f ms s }"

definition enter_receive :: "mimsg_t \<Rightarrow> mem_st \<Rightarrow> mem_st option" where
  "enter_receive m = handleGrantEnterBarrierMsg (Some m)"

definition exit_receive :: "mimsg_t \<Rightarrow> mem_st \<Rightarrow> mem_st option" where
  "exit_receive m = handleGrantExitBarrierMsg (Some m)"

lemma mem_ok_rows: "mem_ok L W P (s\<lparr>barrierTimestamps := b\<rparr>) = mem_ok L W P s"
  by (rule mem_ok_same_heap) (simp add: same_heap_def)

lemma host_log_rows: "host_log L W (s\<lparr>barrierTimestamps := b\<rparr>) = host_log L W s"
  by (rule host_log_same_heap) (simp add: same_heap_def)

lemma heap_frame_all: "incorporate_all pks s = Some t \<Longrightarrow> heap_frame s t"
  by (induction pks arbitrary: s) (auto elim!: bindE dest!: heap_frame_packet intro: heap_frame_trans)

text \<open>Messages without a timestamp only add their packets.\<close>

lemma receive_more:
  assumes "list_all2 (carries sender cmd) ds mls" "\<forall>m\<in>set mls. fst (snd m) = no_ts"
    and "mem_ok L W P s" "\<forall>pk\<in>set (concat (map (snd \<circ> snd) mls)). packet_ok s pk"
    and f: "f = enter_receive \<or> f = exit_receive"
  shows "\<exists>t L' W' P'. handle_all f (map (snd \<circ> snd) ds) s = Some t \<and> mem_ok L' W' P' t \<and>
    (\<forall>g<MAX_HOST_NUM. host_log L' W' t g = merge_packets (concat (map (snd \<circ> snd) mls)) (host_log L W s) g) \<and>
    page_bytes t = page_bytes s \<and> hostnum t = hostnum s \<and> myhostid t = myhostid s \<and> intervalNow t = intervalNow s \<and>
    barrierTimestamps t = barrierTimestamps s"
  using assms(1-4)
proof (induction arbitrary: L W P s rule: list_all2_induct)
  case Nil
  then show ?case by auto
next
  case (Cons d ds ml mls)
  obtain h port m to ts pks where dm: "d = (h, port, m)" "ml = (to, ts, pks)" by (cases d; cases ml) auto
  have m: "m_timestamp m ! 0 = - 1" "packets_of (m_data m) = Some pks"
    using Cons.hyps(1) Cons.prems(1) by (auto simp: carries_def dm no_ts_def)
  have pks: "\<forall>pk\<in>set pks. packet_ok s pk" using Cons.prems(3) by (simp add: dm)
  obtain t L1 W1 P1 where t: "incorporate_all pks s = Some t" "mem_ok L1 W1 P1 t"
    "\<forall>g<MAX_HOST_NUM. host_log L1 W1 t g = merge_packets pks (host_log L W s) g"
    "page_bytes t = page_bytes s" "hostnum t = hostnum s" "myhostid t = myhostid s" "intervalNow t = intervalNow s"
    using incorporate_all_ok [OF Cons.prems(2) pks] by blast
  have run: "f m s = Some t"
    using f m t(1) by (auto simp: enter_receive_def exit_receive_def handleGrantEnterBarrierMsg_def
        handleGrantExitBarrierMsg_def)
  have rest: "\<forall>m\<in>set mls. fst (snd m) = no_ts" "\<forall>pk\<in>set (concat (map (snd \<circ> snd) mls)). packet_ok t pk"
    using Cons.prems(1,3) t(6) by (auto simp: packet_ok_def)
  obtain u L2 W2 P2 where u: "handle_all f (map (snd \<circ> snd) ds) t = Some u" "mem_ok L2 W2 P2 u"
    "\<forall>g<MAX_HOST_NUM. host_log L2 W2 u g = merge_packets (concat (map (snd \<circ> snd) mls)) (host_log L1 W1 t) g"
    "page_bytes u = page_bytes t" "hostnum u = hostnum t" "myhostid u = myhostid t" "intervalNow u = intervalNow t"
    "barrierTimestamps u = barrierTimestamps t"
    using Cons.IH [OF rest(1) t(2) rest(2)] by blast
  have "handle_all f (map (snd \<circ> snd) (d # ds)) s = Some u" using run u(1) by (simp add: dm)
  moreover have "host_log L2 W2 u g = merge_packets (concat (map (snd \<circ> snd) (ml # mls))) (host_log L W s) g"
    if "g < MAX_HOST_NUM" for g
    using u(3) t(3) that by (simp add: dm merge_packets_append) (simp add: merge_packets_def)
  moreover have "page_bytes u = page_bytes s" "hostnum u = hostnum s" "myhostid u = myhostid s"
    "intervalNow u = intervalNow s" "barrierTimestamps u = barrierTimestamps s"
    using u(4-8) t(4-7) heap_frame_fields(4) [OF heap_frame_all [OF t(1)]] by simp_all
  ultimately show ?case using u(2) by blast
qed

end
