(* ===== verification/BarrierProps.thy ===== *)
theory BarrierProps
  imports Rendezvous
begin

text \<open>
  The way into the barrier: what an entering host reports to host 0, and the handler at host 0 for the
  last host that enters. What the hosts are then sent is the subject of Meeting.
\<close>

lemma mail_of_cons:
  "\<exists>pks' mls. mail_of to ts pks = (to, ts, pks') # mls \<and> (\<forall>m\<in>set mls. fst (snd m) = no_ts)"
proof -
  note m = mail_of [of to ts pks]
  then obtain a mls where c: "mail_of to ts pks = a # mls" by (cases "mail_of to ts pks") auto
  with m(3) have "fst (snd a) = ts" "map (fst \<circ> snd) mls = replicate (length mls) no_ts" by auto
  moreover from this(2) have "\<forall>m\<in>set mls. fst (snd m) = no_ts"
    by (metis comp_apply image_eqI in_set_replicate list.set_map)
  moreover have "fst a = to" using m(2) c by simp
  ultimately show ?thesis using c by (cases a) auto
qed

text \<open>A run of messages of which the first has a timestamp: the first is handled by \<open>start\<close> and its
  packets are merged like those of the others.\<close>

lemma receive_run:
  assumes f: "f = enter_receive \<or> f = exit_receive"
    and ms: "list_all2 (carries sender cmd) ds ((to, ts, pks) # mls)" "\<forall>m\<in>set mls. fst (snd m) = no_ts"
    and first: "\<And>m. m_from m = sender \<Longrightarrow> m_timestamp m = ts \<Longrightarrow> packets_of (m_data m) = Some pks \<Longrightarrow>
      f m r = incorporate_all pks r'"
    and ok: "mem_ok L W P r'" "\<forall>pk\<in>set (pks @ concat (map (snd \<circ> snd) mls)). packet_ok r' pk"
  shows "\<exists>t L' W' P'. handle_all f (map (snd \<circ> snd) ds) r = Some t \<and> mem_ok L' W' P' t \<and>
    (\<forall>g<MAX_HOST_NUM. host_log L' W' t g =
       merge_packets (pks @ concat (map (snd \<circ> snd) mls)) (host_log L W r') g) \<and>
    page_bytes t = page_bytes r' \<and> hostnum t = hostnum r' \<and> myhostid t = myhostid r' \<and>
    intervalNow t = intervalNow r' \<and> barrierTimestamps t = barrierTimestamps r'"
proof -
  obtain h port m es where d: "ds = (h, port, m) # es" "carries sender cmd (h, port, m) (to, ts, pks)"
    "list_all2 (carries sender cmd) es mls"
    using ms(1) by (auto simp: list_all2_Cons2)
  have pks: "\<forall>pk\<in>set pks. packet_ok r' pk" using ok(2) by simp
  obtain t L1 W1 P1 where t: "incorporate_all pks r' = Some t" "mem_ok L1 W1 P1 t"
    "\<forall>g<MAX_HOST_NUM. host_log L1 W1 t g = merge_packets pks (host_log L W r') g"
    "page_bytes t = page_bytes r'" "hostnum t = hostnum r'" "myhostid t = myhostid r'" "intervalNow t = intervalNow r'"
    using incorporate_all_ok [OF ok(1) pks] by blast
  have run: "f m r = Some t" using first [of m] d(2) t(1) by (simp add: carries_def)
  have "\<forall>pk\<in>set (concat (map (snd \<circ> snd) mls)). packet_ok t pk"
    using ok(2) t(6) by (auto simp: packet_ok_def)
  then obtain u L2 W2 P2 where u: "handle_all f (map (snd \<circ> snd) es) t = Some u" "mem_ok L2 W2 P2 u"
    "\<forall>g<MAX_HOST_NUM. host_log L2 W2 u g = merge_packets (concat (map (snd \<circ> snd) mls)) (host_log L1 W1 t) g"
    "page_bytes u = page_bytes t" "hostnum u = hostnum t" "myhostid u = myhostid t" "intervalNow u = intervalNow t"
    "barrierTimestamps u = barrierTimestamps t"
    using receive_more [OF d(3) ms(2) t(2) _ f] by blast
  have "handle_all f (map (snd \<circ> snd) ds) r = Some u" using run u(1) by (simp add: d(1))
  moreover have "host_log L2 W2 u g = merge_packets (pks @ concat (map (snd \<circ> snd) mls)) (host_log L W r') g"
    if "g < MAX_HOST_NUM" for g
    using u(3) t(3) that by (simp add: merge_packets_append) (simp add: merge_packets_def)
  moreover have "page_bytes u = page_bytes r'" "hostnum u = hostnum r'" "myhostid u = myhostid r'"
    "intervalNow u = intervalNow r'" "barrierTimestamps u = barrierTimestamps r'"
    using u(4-8) t(4-7) heap_frame_fields(4) [OF heap_frame_all [OF t(1)]] by simp_all
  ultimately show ?thesis using u(2) by blast
qed

lemma mail_ts_0: "0 < n \<Longrightarrow> length t = MAX_HOST_NUM \<Longrightarrow> mail_ts n t ! 0 = t ! 0"
  by (simp add: mail_ts_def nth_append)

lemma log_entries_ok:
  assumes "mem_ok L W P s" "log_ok (host_log L W s)" "h < MAX_HOST_NUM" "i \<in> set (L h)"
  shows "list_all page_index (snd (entry_of W s i))" "ts_ok (fst (entry_of W s i))"
proof -
  have "entry_of W s i \<in> set (host_log L W s h)" using assms(4) by (simp add: host_log_def)
  then show "list_all page_index (snd (entry_of W s i))" using assms(2,3) by (simp add: log_ok_def)
  show "ts_ok (fst (entry_of W s i))" using entry_facts(5) [OF assms] by (simp add: entry_of_def)
qed

lemma carried_shape:
  "list_all2 (carries sender cmd) ds mls \<Longrightarrow> list_all (\<lambda>m. fst m = to \<and> length (snd (snd m)) \<le> n) mls \<Longrightarrow>
    \<forall>(h, port, m)\<in>set ds. h = nat to \<and> command_of (m_command m) = Some cmd \<and>
      (\<exists>pks. packets_of (m_data m) = Some pks \<and> length pks \<le> n)"
  by (induction rule: list_all2_induct) (auto simp: carries_def)

lemma handleEnterBarrierMsg_ok:
  assumes ok: "mem_ok L W P s" and lg: "log_ok (host_log L W s)" and q: "quiet s" and rows: "rows_ok s"
    and me: "myhostid s = 0" and m: "m_from m = int h" "int h < hostnum s"
  defines "s1 \<equiv> s\<lparr>barrierFlags := (barrierFlags s)(h := 1)\<rparr>" and "n \<equiv> length (ivals s)"
  shows "if all_entered s1 then
      \<exists>v w. handleEnterBarrierMsg m s = Some v \<and> waitFlag v = 0 \<and>
        mem_ok (L(0 := n # L 0)) (W(n := [])) P v \<and> quiet v \<and>
        mailed 0 GRANT_EXIT_BARRIER_INFO (wire s) w (release_mail (host_log L W s) s) \<and>
        mailed 0 EXIT_BARRIER w (wire v) (map (\<lambda>i. (int i, no_ts, [])) [1..<nat (hostnum s)]) \<and>
        (\<forall>g<MAX_HOST_NUM. host_log (L(0 := n # L 0)) (W(n := [])) v g =
           (if g = 0 then (release_ts s, []) # host_log L W s g else host_log L W s g)) \<and>
        pageArray v = pageArray s \<and> vm v = vm s \<and> intervalNow v = Some n \<and> i_isBarrier (ivals v ! n) = 1 \<and>
        (\<forall>i<nat (hostnum s). barrierFlags v i = 0 \<and> (\<forall>j<nat (hostnum s). barrierTimestamps v i ! j = - 1)) \<and>
        (\<forall>k<LOCK_NUM. l_lasthostid (locks v k) = - 1)
    else handleEnterBarrierMsg m s = Some s1"
proof -
  have host: "host_ok s" using ok by (simp add: mem_ok_def)
  then have a: "aidx (m_from m) MAX_HOST_NUM = Some h" using m by (simp add: host_ok_def)
  have heap: "same_heap s s1" by (simp add: same_heap_def s1_def)
  have fields: "hostnum s1 = hostnum s" "myhostid s1 = myhostid s" "wire s1 = wire s" "ivals s1 = ivals s"
    "barrierTimestamps s1 = barrierTimestamps s" "quiet s1 = quiet s" "pageArray s1 = pageArray s" "vm s1 = vm s"
    by (simp_all add: s1_def quiet_def snd_ok_def)
  have log: "host_log L W s1 = host_log L W s" by (rule host_log_same_heap [OF heap])
  have ts: "release_ts s1 = release_ts s" "release_mail lg s1 = release_mail lg s" for lg
    by (simp_all add: release_ts_def release_mail_def fields cong: if_cong)
  show ?thesis
  proof (cases "all_entered s1")
    case False
    have "host_ok s1" "myhostid s1 = 0" using host me by (simp_all add: host_ok_def fields)
    then have "handleEnterBarrierMsg m s = Some s1"
      using a checkBarrierFlags_wait [OF _ _ False] by (simp add: handleEnterBarrierMsg_def s1_def)
    with False show ?thesis by simp
  next
    case True
    have "mem_ok L W P s1" "log_ok (host_log L W s1)" "quiet s1" "rows_ok s1" "myhostid s1 = 0"
      using ok lg q rows me mem_ok_same_heap [OF heap] by (simp_all add: log fields rows_ok_def)
    from checkBarrierFlags_ok [OF this True] obtain v w where v: "checkBarrierFlags s1 = Some (0, v)"
      "mem_ok (L(0 := n # L 0)) (W(n := [])) P v" "quiet v"
      "mailed 0 GRANT_EXIT_BARRIER_INFO (wire s) w (release_mail (host_log L W s) s)"
      "mailed 0 EXIT_BARRIER w (wire v) (map (\<lambda>i. (int i, no_ts, [])) [1..<nat (hostnum s)])"
      "\<forall>g<MAX_HOST_NUM. host_log (L(0 := n # L 0)) (W(n := [])) v g =
         (if g = 0 then (release_ts s, []) # host_log L W s g else host_log L W s g)"
      "released s1 v" "\<forall>i<nat (hostnum s). barrierFlags v i = 0"
      unfolding log fields ts n_def by blast
    let ?v = "v\<lparr>waitFlag := 0\<rparr>"
    have run: "handleEnterBarrierMsg m s = Some ?v" using a v(1) by (simp add: handleEnterBarrierMsg_def s1_def)
    have heap': "same_heap v ?v" by (simp add: same_heap_def)
    have "mem_ok (L(0 := n # L 0)) (W(n := [])) P ?v" "quiet ?v" "wire ?v = wire v"
      "\<forall>g<MAX_HOST_NUM. host_log (L(0 := n # L 0)) (W(n := [])) ?v g =
         (if g = 0 then (release_ts s, []) # host_log L W s g else host_log L W s g)"
      using v(2,3,6) mem_ok_same_heap [OF heap'] host_log_same_heap [OF heap'] by simp_all
    moreover have "pageArray ?v = pageArray s" "vm ?v = vm s" "intervalNow ?v = Some n" "i_isBarrier (ivals ?v ! n) = 1"
      "\<forall>i<nat (hostnum s). barrierFlags ?v i = 0 \<and> (\<forall>j<nat (hostnum s). barrierTimestamps ?v i ! j = - 1)"
      "\<forall>k<LOCK_NUM. l_lasthostid (locks ?v k) = - 1"
      using v(7,8) fields by (simp_all add: released_def n_def)
    ultimately have "handleEnterBarrierMsg m s = Some ?v \<and> waitFlag ?v = 0 \<and>
        mem_ok (L(0 := n # L 0)) (W(n := [])) P ?v \<and> quiet ?v \<and>
        mailed 0 GRANT_EXIT_BARRIER_INFO (wire s) w (release_mail (host_log L W s) s) \<and>
        mailed 0 EXIT_BARRIER w (wire ?v) (map (\<lambda>i. (int i, no_ts, [])) [1..<nat (hostnum s)]) \<and>
        (\<forall>g<MAX_HOST_NUM. host_log (L(0 := n # L 0)) (W(n := [])) ?v g =
           (if g = 0 then (release_ts s, []) # host_log L W s g else host_log L W s g)) \<and>
        pageArray ?v = pageArray s \<and> vm ?v = vm s \<and> intervalNow ?v = Some n \<and> i_isBarrier (ivals ?v ! n) = 1 \<and>
        (\<forall>i<nat (hostnum s). barrierFlags ?v i = 0 \<and> (\<forall>j<nat (hostnum s). barrierTimestamps ?v i ! j = - 1)) \<and>
        (\<forall>k<LOCK_NUM. l_lasthostid (locks ?v k) = - 1)"
      using run v(4,5) by (intro conjI) simp_all
    with True show ?thesis by auto
  qed
qed

section \<open>Properties\<close>

text \<open>C8: A host that enters the barrier reports its writes to host 0. \<open>sendEnterBarrierInfo\<close> sends to
  host 0 only, never more packets in a message than fit; when host 0 has handled the messages in order
  it knows the timestamp at which the host entered, and its log of that host has taken up every
  interval with write notices since the last barrier, oldest first. The logs of the other hosts, the
  bytes of the pages and both invariants are kept.\<close>

theorem barrier_entry:
  assumes ok: "mem_ok L W P s" and lg: "log_ok (host_log L W s)" and q: "quiet s" and me: "myhostid s \<noteq> 0"
    and L: "L (me s) = as @ k # bs" and bar: "i_isBarrier (ivals s ! k) = 1"
      "\<forall>j\<in>set as. i_isBarrier (ivals s ! j) \<noteq> 1"
    and now: "intervalNow s = Some i" "i_timestamp (ivals s ! i) ! 0 \<noteq> - 1"
    and ok0: "mem_ok L0 W0 P0 r" and me0: "myhostid r = 0" and row: "barrierTimestamps r (me s) ! 0 = - 1"
  shows "\<exists>t ds u L' W' P'. sendEnterBarrierInfo s = Some t \<and> quiet t \<and> net_frame s t \<and>
    sent (wire s) (wire t) ds \<and>
    (\<forall>(to, port, m)\<in>set ds. to = 0 \<and> command_of (m_command m) = Some GRANT_ENTER_BARRIER_INFO \<and>
       (\<exists>pks. packets_of (m_data m) = Some pks \<and> length pks \<le> PER_MSG)) \<and>
    handle_all enter_receive (map (snd \<circ> snd) ds) r = Some u \<and> mem_ok L' W' P' u \<and>
    barrierTimestamps u = (barrierTimestamps r)(me s := mail_ts (hostnum s) (i_timestamp (ivals s ! i))) \<and>
    (\<forall>g<MAX_HOST_NUM. host_log L' W' u g =
       (if g = me s then fold merge_entry (rev (map (entry_of W s) (as @ [k]))) (host_log L0 W0 r g)
        else host_log L0 W0 r g)) \<and> page_bytes u = page_bytes r"
proof -
  note host = mem_ok_simps(1) [OF ok]
  note h = host_ok_me [OF host]
  let ?es = "rev (map (entry_of W s) (as @ [k]))" and ?ts = "mail_ts (hostnum s) (i_timestamp (ivals s ! i))"
  let ?pks = "concat (map (entry_packets (me s)) ?es)"
  obtain t where t: "sendEnterBarrierInfo s = Some t" "quiet t" "net_frame s t"
    "mailed (myhostid s) GRANT_ENTER_BARRIER_INFO (wire s) (wire t) (mail_of 0 ?ts ?pks)"
    using sendEnterBarrierInfo_ok [OF ok lg q me L bar now(1)] by blast
  then obtain ds where ds: "sent (wire s) (wire t) ds"
    "list_all2 (carries (myhostid s) GRANT_ENTER_BARRIER_INFO) ds (mail_of 0 ?ts ?pks)"
    unfolding mailed_def by blast
  have shape: "\<forall>(to, port, m)\<in>set ds. to = 0 \<and> command_of (m_command m) = Some GRANT_ENTER_BARRIER_INFO \<and>
      (\<exists>pks. packets_of (m_data m) = Some pks \<and> length pks \<le> PER_MSG)"
    using carried_shape [OF ds(2) mail_of(2)] by simp
  obtain pks mls where c: "mail_of 0 ?ts ?pks = (0, ?ts, pks) # mls" "\<forall>m\<in>set mls. fst (snd m) = no_ts"
    using mail_of_cons by blast
  have all: "pks @ concat (map (snd \<circ> snd) mls) = ?pks" using mail_of(1) [of 0 ?ts ?pks] unfolding c(1) by simp
  have il: "ts_ok (i_timestamp (ivals s ! i))"
    using ok now(1) links_interval_alloc [OF mem_ok_simps(2) [OF ok] h(1)] by (auto simp: mem_ok_def)
  then have ts0: "?ts ! 0 \<noteq> - 1" using now(2) host mail_ts_0 [of "hostnum s"] by (auto simp: ts_ok_def host_ok_def)
  let ?r = "r\<lparr>barrierTimestamps := (barrierTimestamps r)(me s := ?ts)\<rparr>"
  have first: "enter_receive m r = incorporate_all pks ?r"
    if "m_from m = myhostid s" "m_timestamp m = ?ts" "packets_of (m_data m) = Some pks" for m
    using that ts0 h(2) row by (simp add: enter_receive_def handleGrantEnterBarrierMsg_def)
  have pok: "\<forall>pk\<in>set ?pks. packet_ok ?r pk"
  proof
    fix pk assume "pk \<in> set ?pks"
    then obtain j where j: "j \<in> set (L (me s))" "pk \<in> set (entry_packets (me s) (entry_of W s j))" by (auto simp: L)
    show "packet_ok ?r pk"
      using entry_packets_ok [OF log_entries_ok [OF ok lg h(1) j(1)] h(1) _ j(2)] me me0 h(3) by simp
  qed
  have okr: "mem_ok L0 W0 P0 ?r" using ok0 by (simp add: mem_ok_rows)
  obtain u L' W' P' where u: "handle_all enter_receive (map (snd \<circ> snd) ds) r = Some u" "mem_ok L' W' P' u"
    "\<forall>g<MAX_HOST_NUM. host_log L' W' u g = merge_packets ?pks (host_log L0 W0 ?r) g"
    "page_bytes u = page_bytes ?r" "barrierTimestamps u = barrierTimestamps ?r"
    using receive_run [OF disjI1 [OF refl] ds(2) [unfolded c(1)] c(2) first okr, unfolded all, OF _ _ _ pok] by blast
  have "page_bytes ?r = page_bytes r" by (simp add: page_bytes_def fun_eq_iff)
  then have eqs: "page_bytes u = page_bytes r" "barrierTimestamps u = (barrierTimestamps r)(me s := ?ts)"
    using u(4,5) by simp_all
  have "merge_packets ?pks (host_log L0 W0 ?r) g =
      (if g = me s then fold merge_entry ?es (host_log L0 W0 r g) else host_log L0 W0 r g)" for g
    unfolding merge_packets_own host_log_rows by simp
  with u(3) have logs: "\<forall>g<MAX_HOST_NUM. host_log L' W' u g =
      (if g = me s then fold merge_entry ?es (host_log L0 W0 r g) else host_log L0 W0 r g)"
    by simp
  show ?thesis
    by (rule exI [of _ t], rule exI [of _ ds], rule exI [of _ u], rule exI [of _ L'], rule exI [of _ W'],
        rule exI [of _ P']) (intro conjI t ds(1) shape u(1,2) eqs logs)
qed

theorem barrier_entry_witness:
  "\<exists>t ds u. sendEnterBarrierInfo (boot 1 3) = Some t \<and> sent [] (wire t) ds \<and>
    handle_all enter_receive (map (snd \<circ> snd) ds) (boot 0 3) = Some u \<and>
    barrierTimestamps u 1 = [0, 0, 0] @ replicate 17 (- 1)"
proof -
  have hn: "(3::int) \<le> int MAX_HOST_NUM" by (simp add: MAX_HOST_NUM_def)
  note s = boot_ok [of 1 3] boot_ok [of 0 3]
  have lg: "log_ok (host_log (\<lambda>g. if g = nat 1 then [0] else []) (\<lambda>_. []) (boot 1 3))"
    by (auto simp: log_ok_def host_log_def entry_of_def)
  have z: "i_timestamp (ivals (boot 1 3) ! 0) = zero_ts" using s(5) hn by (simp add: empty_interval_def)
  have L: "(if me (boot 1 3) = nat 1 then [0] else []) = [] @ 0 # []" using s(8) hn by simp
  have bar: "i_isBarrier (ivals (boot 1 3) ! 0) = 1" using s(5) hn by simp
  have row: "barrierTimestamps (boot 0 3) (me (boot 1 3)) ! 0 = - 1"
    using boot_fields(1) [of 0 3 1] s(8) hn by (simp add: MAX_HOST_NUM_def)
  have me: "myhostid (boot 1 3) \<noteq> 0" "i_timestamp (ivals (boot 1 3) ! 0) ! 0 \<noteq> - 1"
    using s(4) hn by (simp_all add: z zero_ts_def)
  obtain t ds u where "sendEnterBarrierInfo (boot 1 3) = Some t" "sent (wire (boot 1 3)) (wire t) ds"
    "handle_all enter_receive (map (snd \<circ> snd) ds) (boot 0 3) = Some u"
    "barrierTimestamps u = (barrierTimestamps (boot 0 3))(me (boot 1 3) :=
       mail_ts (hostnum (boot 1 3)) (i_timestamp (ivals (boot 1 3) ! 0)))"
    using barrier_entry [OF s(1) lg s(10) me(1) L bar _ s(7) me(2) s(13) s(16) row] hn by auto
  then show ?thesis
    using s(3,8,11) hn unfolding z by (auto simp: mail_ts_def zero_ts_def MAX_HOST_NUM_def numeral_3_eq_3)
qed

text \<open>Host 0 has written to page 0 in its first interval, and all hosts have entered the barrier with
  the zero timestamp, the third one with the message that is handled.\<close>

definition entering :: mem_st where
  "entering = written\<lparr>barrierFlags := (\<lambda>i. if i = 2 then 0 else 1), barrierTimestamps := (\<lambda>_. zero_ts)\<rparr>"

lemma entering_ok:
  "mem_ok first_L written_W written_P entering" "log_ok (host_log first_L written_W entering)" "quiet entering"
  "rows_ok entering" "myhostid entering = 0" "hostnum entering = 3" "wire entering = []"
  "all_entered (entering\<lparr>barrierFlags := (barrierFlags entering)(2 := 1)\<rparr>)"
  "g < MAX_HOST_NUM \<Longrightarrow> host_log first_L written_W entering g = (if g = 0 then [(zero_ts, [0])] else [])"
  "barrierTimestamps entering i = zero_ts"
proof -
  have heap: "same_heap written entering" by (simp add: same_heap_def entering_def)
  show "mem_ok first_L written_W written_P entering" using mem_ok_same_heap [OF heap] written_ok(2) by simp
  show log: "g < MAX_HOST_NUM \<Longrightarrow> host_log first_L written_W entering g = (if g = 0 then [(zero_ts, [0])] else [])" for g
    using host_log_same_heap [OF heap] written_ok(11) by simp
  show "log_ok (host_log first_L written_W entering)"
    unfolding log_ok_def
  proof (intro allI impI ballI)
    fix g e assume "g < MAX_HOST_NUM" "e \<in> set (host_log first_L written_W entering g)"
    then show "list_all page_index (snd e)"
      unfolding log [OF \<open>g < MAX_HOST_NUM\<close>] by (auto simp: page_index_def split: if_splits)
  qed
  show "quiet entering" "rows_ok entering" "myhostid entering = 0" "hostnum entering = 3" "wire entering = []"
    "all_entered (entering\<lparr>barrierFlags := (barrierFlags entering)(2 := 1)\<rparr>)" "barrierTimestamps entering i = zero_ts"
    using written_ok by (simp_all add: entering_def rows_ok_def zero_ts_def all_entered_def)
qed

end
