(* ===== verification/Dispatch.thy ===== *)
theory Dispatch
  imports BarrierProps
begin

text \<open>
  Receiving (\<open>sigio_handler\<close> and \<open>dispatchMsg\<close> of \<open>src/net.c\<close>): a delivery of SIGIO reads one datagram
  from every socket that has one, acknowledges it, and then hands the received messages one by one
  to their handlers. The operating system is an argument: \<open>arrivals i = None\<close> if the socket for
  host \<open>i\<close> is not readable, \<open>Some None\<close> if \<open>recvfrom\<close> returns no data for it and \<open>Some (Some m)\<close> if it
  stores \<open>m\<close>.
\<close>

type_synonym arrivals = "nat \<Rightarrow> mimsg_t option option"

section \<open>Operations\<close>

text \<open>\<open>testCommand\<close> and the \<open>default\<close> branch only print.\<close>

definition dispatchMsg :: "mimsg_t option \<Rightarrow> mem_st \<Rightarrow> mem_st option" where
  "dispatchMsg msg s =
     (case msg of None \<Rightarrow> Some s
      | Some m \<Rightarrow>
          if m_command m = - 1 then Some s
          else case command_of (m_command m) of
            None \<Rightarrow> Some s
          | Some TEST_COMMAND \<Rightarrow> Some s
          | Some ACQ_LOCK \<Rightarrow> handleAcquireMsg m s
          | Some RLS_LOCK \<Rightarrow> handleReleaseMsg m s
          | Some GRANT_LOCK \<Rightarrow> Some (handleGrantMsg (Some m) s)
          | Some ENTER_BARRIER \<Rightarrow> handleEnterBarrierMsg m s
          | Some EXIT_BARRIER \<Rightarrow> Some (handleExitBarrierMsg (Some m) s)
          | Some GRANT_WN_I \<Rightarrow> handleGrantWNIMsg (Some m) s
          | Some GRANT_DIFF \<Rightarrow> handleGrantDiffMsg (Some m) s
          | Some GRANT_PAGE \<Rightarrow> handleGrantPageMsg (Some m) s
          | Some FETCH_PAGE \<Rightarrow> handleFetchPageMsg m s
          | Some FETCH_WN_I \<Rightarrow> handleFetchWNIMsg m s
          | Some FETCH_DIFF \<Rightarrow> handleFetchDiffMsg m s
          | Some GRANT_ENTER_BARRIER_INFO \<Rightarrow> handleGrantEnterBarrierMsg (Some m) s
          | Some GRANT_EXIT_BARRIER_INFO \<Rightarrow> handleGrantExitBarrierMsg (Some m) s)"

lemma dispatch_cmd:
  "m_command m = cmd_code ACQ_LOCK \<Longrightarrow> dispatchMsg (Some m) s = handleAcquireMsg m s"
  "m_command m = cmd_code RLS_LOCK \<Longrightarrow> dispatchMsg (Some m) s = handleReleaseMsg m s"
  "m_command m = cmd_code GRANT_LOCK \<Longrightarrow> dispatchMsg (Some m) s = Some (handleGrantMsg (Some m) s)"
  "m_command m = cmd_code ENTER_BARRIER \<Longrightarrow> dispatchMsg (Some m) s = handleEnterBarrierMsg m s"
  "m_command m = cmd_code EXIT_BARRIER \<Longrightarrow> dispatchMsg (Some m) s = Some (handleExitBarrierMsg (Some m) s)"
  "m_command m = cmd_code GRANT_WN_I \<Longrightarrow> dispatchMsg (Some m) s = handleGrantWNIMsg (Some m) s"
  "m_command m = cmd_code GRANT_DIFF \<Longrightarrow> dispatchMsg (Some m) s = handleGrantDiffMsg (Some m) s"
  "m_command m = cmd_code GRANT_PAGE \<Longrightarrow> dispatchMsg (Some m) s = handleGrantPageMsg (Some m) s"
  "m_command m = cmd_code FETCH_PAGE \<Longrightarrow> dispatchMsg (Some m) s = handleFetchPageMsg m s"
  "m_command m = cmd_code FETCH_WN_I \<Longrightarrow> dispatchMsg (Some m) s = handleFetchWNIMsg m s"
  "m_command m = cmd_code FETCH_DIFF \<Longrightarrow> dispatchMsg (Some m) s = handleFetchDiffMsg m s"
  "m_command m = cmd_code GRANT_ENTER_BARRIER_INFO \<Longrightarrow> dispatchMsg (Some m) s = handleGrantEnterBarrierMsg (Some m) s"
  "m_command m = cmd_code GRANT_EXIT_BARRIER_INFO \<Longrightarrow> dispatchMsg (Some m) s = handleGrantExitBarrierMsg (Some m) s"
  by (simp_all add: dispatchMsg_def del: cmd_code.simps)

text \<open>One readable socket. A full queue gives a NULL pointer, through which \<open>seqno\<close> is read.\<close>

definition recv_one :: "nat \<Rightarrow> mimsg_t option \<Rightarrow> mem_st \<Rightarrow> mem_st option" where
  "recv_one i d s =
     (case nextFreeMsgInQueue 1 s of
        (None, _) \<Rightarrow> None
      | (Some r, s) \<Rightarrow>
          (case d of None \<Rightarrow> Some s
           | Some m \<Rightarrow> do {
               let s = snd (msgEnqueue 1 (set_msg r m s));
               let s = s\<lparr>datamanager := (datamanager s)\<lparr>recv_seqs := (recv_seqs (datamanager s))
                           (i := s32 (recv_seqs (datamanager s) i + 1))\<rparr>\<rparr>;
               from \<leftarrow> aidx (m_from m) MAX_HOST_NUM;
               me \<leftarrow> aidx (myhostid s) MAX_HOST_NUM;
               Some (s\<lparr>acks_out := acks_out s @ [(i, ackPorts s from me, m_seqno m)]\<rparr>) }))"

fun recv_loop :: "nat list \<Rightarrow> arrivals \<Rightarrow> mem_st \<Rightarrow> mem_st option" where
  "recv_loop [] arrivals s = Some s"
| "recv_loop (i # is) arrivals s =
     do { s \<leftarrow> (if int i \<noteq> myhostid s
                then (case arrivals i of None \<Rightarrow> Some s | Some d \<Rightarrow> recv_one i d s) else Some s);
          recv_loop is arrivals s }"

partial_function (option) drain :: "mem_st \<Rightarrow> mem_st option" where
  "drain s =
     (if recvQueueSize s > 0 then do {
        s \<leftarrow> dispatchMsg (map_option (msg_at s) (queueTop 1 s)) s;
        drain (snd (msgDequeue 1 s)) }
      else Some s)"

definition sigio_handler :: "arrivals \<Rightarrow> mem_st \<Rightarrow> mem_st option" where
  "sigio_handler arrivals s =
     do { s \<leftarrow> recv_loop [0..<MAX_HOST_NUM] arrivals (disableSigio s);
          s \<leftarrow> drain s;
          Some (enableSigio s) }"

section \<open>What a handler leaves alone\<close>

text \<open>No handler touches the receiving queue, the host table or the ports.\<close>

definition recv_frame :: "'a net_st_scheme \<Rightarrow> 'a net_st_scheme \<Rightarrow> bool" where
  "recv_frame s t \<longleftrightarrow> recvQueue t = recvQueue s \<and> recvHead t = recvHead s \<and> recvTail t = recvTail s \<and>
     recvQueueSize t = recvQueueSize s \<and> hostnum t = hostnum s \<and> myhostid t = myhostid s \<and>
     ackPorts t = ackPorts s \<and> acks_out t = acks_out s \<and> isSigioDisabled t = isSigioDisabled s"

lemma recv_frame_refl [simp]: "recv_frame s s"
  by (simp add: recv_frame_def)

lemma recv_frame_trans: "recv_frame s t \<Longrightarrow> recv_frame t u \<Longrightarrow> recv_frame s u"
  by (simp add: recv_frame_def)

text \<open>Most leave the locks alone, too.\<close>

definition calm :: "'a syn_st_scheme \<Rightarrow> 'a syn_st_scheme \<Rightarrow> bool" where
  "calm s t \<longleftrightarrow> recv_frame s t \<and> locks t = locks s \<and> myLocks t = myLocks s"

lemma calm_refl [simp]: "calm s s"
  by (simp add: calm_def)

lemma calm_trans: "calm s t \<Longrightarrow> calm t u \<Longrightarrow> calm s u"
  by (auto simp: calm_def intro: recv_frame_trans)

lemma calm_recv: "calm s t \<Longrightarrow> recv_frame s t"
  by (simp add: calm_def)

lemma recv_frame_slot [simp]: "calm s (set_msg (SndSlot k) m s)"
  by (simp add: calm_def recv_frame_def)

named_theorems recv_frames \<open>operations that leave the receiving queue alone\<close>

lemma recv_frame_heap [recv_frames]: "heap_frame s t \<Longrightarrow> calm s t"
  by (cases s; cases t) (simp add: heap_frame_def calm_def recv_frame_def)

lemma recv_frame_new_msg [recv_frames]:
  "new_msg to cmd s = Some (r, t) \<Longrightarrow> calm s t \<and> (\<exists>k. r = SndSlot k)"
  by (auto simp: new_msg_def nextFreeMsgInQueue_def calm_def recv_frame_def split: if_split_asm)

lemma recv_frame_append [recv_frames]: "apendMsgData (Some (SndSlot k)) bs len s = Some (x, t) \<Longrightarrow> calm s t"
  by (auto simp: apendMsgData_def calm_def recv_frame_def Let_def split: option.splits if_split_asm)

lemma recv_frame_msg_upd [recv_frames]: "msg_upd (Some (SndSlot k)) f s = Some t \<Longrightarrow> calm s t"
  by (auto simp: calm_def recv_frame_def)

lemma recv_frame_send_queue: "send_queue r s = Some t \<Longrightarrow> calm s t"
proof (induction r s rule: send_queue.induct)
  case (1 r s)
  have retry: "calm s (snd (msgDequeue 0 (retry_loop 0 m to port orig s)))" for m to port orig
    using retry_loop_frame [of 0 m to port orig s] by (auto simp: msgDequeue_def calm_def recv_frame_def)
  show ?case
  proof (cases "sndQueueSize s > 0")
    case True
    with "1.prems" obtain h m to "from" orig where h: "queueTop 0 s = Some h" "m = msg_at s h"
      "aidx (m_to m) MAX_HOST_NUM = Some to" "aidx (m_from m) MAX_HOST_NUM = Some from"
      "aidx (m_to (msg_at s r)) MAX_HOST_NUM = Some orig" "0 \<le> m_size m \<and> m_size m \<le> int DATA_SIZE"
      "send_queue r (snd (msgDequeue 0 (retry_loop 0 m to (dataPorts s to from) orig s))) = Some t"
      by (subst (asm) send_queue.simps) (auto simp: Let_def elim!: bindE split: option.splits if_split_asm)
    from "1.IH" [OF True h(1-6) h(7)] retry show ?thesis by (rule calm_trans [rotated])
  next
    case False
    with "1.prems" show ?thesis by (subst (asm) send_queue.simps) simp
  qed
qed

lemma recv_frame_send [recv_frames]: "sendMsg (Some (SndSlot k)) s = Some (x, t) \<Longrightarrow> calm s t"
  by (auto simp: sendMsg_def Let_def msgEnqueue_def calm_def recv_frame_def elim!: bindE dest!: recv_frame_send_queue
      split: if_split_asm)

subsection \<open>Locks\<close>

lemma recv_frame_syn:
  "recv_frame s (s\<lparr>locks := l\<rparr>)" "recv_frame s (s\<lparr>waitFlag := w\<rparr>)" "recv_frame s (s\<lparr>barrierFlags := b\<rparr>)"
  "recv_frame s (s\<lparr>lasthostid := h, waitFlag := w, myLocks := y\<rparr>)"
  "recv_frame s (handleGrantMsg m s)" "recv_frame s (handleExitBarrierMsg m s)"
  by (auto simp: recv_frame_def calm_def handleGrantMsg_def handleExitBarrierMsg_def Let_def split: option.splits)

lemma recv_frame_grasp [recv_frames]:
  "graspLock k h s = Some (x, t) \<Longrightarrow> recv_frame s t" "freeLock k h s = Some (x, t) \<Longrightarrow> recv_frame s t"
  by (auto simp: graspLock_def freeLock_def Let_def recv_frame_def calm_def elim!: bindE split: if_split_asm)

lemma recv_frame_grantLock [recv_frames]: "grantLock k h s = Some t \<Longrightarrow> recv_frame s t"
  by (auto simp: grantLock_def elim!: bindE split: if_split_asm dest!: recv_frames)
    (simp_all add: recv_frame_def calm_def)

lemma recv_frame_lock_msgs [recv_frames]:
  "handleAcquireMsg m s = Some t \<Longrightarrow> recv_frame s t" "handleReleaseMsg m s = Some t \<Longrightarrow> recv_frame s t"
  by (auto simp: handleAcquireMsg_def handleReleaseMsg_def elim!: bindE split: if_split_asm
      dest!: recv_frames) (simp_all add: recv_frame_def calm_def)

subsection \<open>Pages and diffs\<close>

lemma recv_frame_grantPage [recv_frames]: "grantPage h p s = Some (x, t) \<Longrightarrow> calm s t"
  by (auto simp: grantPage_def Let_def elim!: bindE split: if_split_asm dest!: recv_frames)
    (simp_all add: calm_def recv_frame_def)

lemma recv_frame_vm [recv_frames]:
  "vm_write a bs s = Some t \<Longrightarrow> calm s t" "wn_upd p f s = Some t \<Longrightarrow> calm s t"
  "iv_upd q g s = Some t \<Longrightarrow> calm s t"
  by (auto simp: vm_write_def wn_upd_def iv_upd_def calm_def recv_frame_def split: option.split_asm prot_t.split_asm prod.split_asm if_split_asm)

lemma recv_frame_vm_steps [simp]:
  "calm s (vm_mprotect a pr s)" "calm s (vm_mmap a pr s)" "calm s (page_upd k f s)"
  "calm s (snd (freeTwinPage p s))"
  by (auto simp: vm_mprotect_def vm_mmap_def page_upd_def freeTwinPage_def Let_def calm_def recv_frame_def split: option.splits)

lemma recv_frame_flags [simp]:
  "calm s (t\<lparr>fetchPageWaitFlag := x\<rparr>) = calm s t" "calm s (t\<lparr>fetchDiffWaitFlag := x\<rparr>) = calm s t"
  "calm s (t\<lparr>fetchWNIWaitFlag := x\<rparr>) = calm s t" "calm s (t\<lparr>intervalNow := i\<rparr>) = calm s t"
  "calm s (t\<lparr>barrierTimestamps := b\<rparr>) = calm s t"   "calm s (t\<lparr>waitFlag := x\<rparr>) = calm s t" "calm s (t\<lparr>barrierFlags := bf\<rparr>) = calm s t"
  by (simp_all add: calm_def recv_frame_def)

lemma recv_frame_handleGrantPage [recv_frames]: "handleGrantPageMsg m s = Some t \<Longrightarrow> calm s t"
  by (auto simp: handleGrantPageMsg_def Let_def elim!: bindE split: option.splits if_split_asm dest!: recv_frames)
    (metis calm_trans recv_frame_vm_steps(2,3))

lemma recv_frame_handleGrantDiff [recv_frames]: "handleGrantDiffMsg m s = Some t \<Longrightarrow> calm s t"
  by (auto simp: handleGrantDiffMsg_def Let_def elim!: bindE split: option.split_asm if_split_asm dest!: recv_frames)
    (meson calm_trans recv_frame_vm_steps(1))+

lemma recv_frame_grantDiff [recv_frames]: "grantDiff h ts p s = Some (x, t) \<Longrightarrow> calm s t"
  by (auto simp: grantDiff_def Let_def elim!: bindE split: option.splits if_split_asm dest!: recv_frames)
    (meson calm_trans recv_frame_vm_steps)+

subsection \<open>Write notices and barriers\<close>

text \<open>A message under construction is in the sending queue.\<close>

definition is_snd :: "msgref \<Rightarrow> bool" where
  "is_snd r \<longleftrightarrow> (\<exists>k. r = SndSlot k)"

lemma recv_frame_snd [recv_frames]:
  "new_msg to cmd s = Some (r, t) \<Longrightarrow> calm s t \<and> is_snd r"
  "is_snd r \<Longrightarrow> apendMsgData (Some r) bs len s = Some (x, t) \<Longrightarrow> calm s t"
  "is_snd r \<Longrightarrow> msg_upd (Some r) f s = Some t \<Longrightarrow> calm s t"
  "is_snd r \<Longrightarrow> sendMsg (Some r) s = Some (x, t) \<Longrightarrow> calm s t"
  by (auto simp: is_snd_def recv_frame_append recv_frame_send dest: recv_frame_new_msg recv_frame_msg_upd
      simp del: msg_upd.simps)

lemma recv_frame_put_packet:
  assumes "put_packet to cmd pk b s = Some (b', t)" "is_snd (fst b)"
  shows "calm s t \<and> is_snd (fst b')"
proof (cases b)
  case (fields r n f)
  with assms(1) obtain x u where u: "apendMsgData (Some r) (Some (packet_bytes pk)) (int PACKET_SIZE) s = Some (x, u)"
    and rest: "(if int PACKET_SIZE > (int DATA_SIZE - m_size (msg_at u r)) mod 2 ^ 64 then do {
           v \<leftarrow> msg_upd (Some r) (\<lambda>m. m\<lparr>m_data := poke (m_data m) 0 (int_bytes (n + 1))\<rparr>) u;
           (_, v) \<leftarrow> sendMsg (Some r) v;
           (r, v) \<leftarrow> new_msg to cmd v;
           (_, v) \<leftarrow> apendMsgData (Some r) (Some (int_bytes (n + 1))) 4 v;
           Some ((r, 0, 1), v) }
         else Some ((r, n + 1, f), u)) = Some (b', t)"
    by (auto simp: put_packet_def Let_def simp del: msg_upd.simps elim!: bindE)
  have r: "is_snd r" using assms(2) fields by simp
  have su: "calm s u" by (rule recv_frame_snd(2) [OF r u])
  show ?thesis
  proof (cases "int PACKET_SIZE > (int DATA_SIZE - m_size (msg_at u r)) mod 2 ^ 64")
    case True
    with rest obtain v x' w q y x'' where v: "msg_upd (Some r) (\<lambda>m. m\<lparr>m_data := poke (m_data m) 0 (int_bytes (n + 1))\<rparr>) u = Some v"
      "sendMsg (Some r) v = Some (x', w)" "new_msg to cmd w = Some (q, y)"
      "apendMsgData (Some q) (Some (int_bytes (n + 1))) 4 y = Some (x'', t)" "b' = (q, 0, 1)"
      by (auto simp del: msg_upd.simps elim!: bindE)
    show ?thesis
      using recv_frame_snd(3) [OF r v(1)] recv_frame_snd(4) [OF r v(2)] recv_frame_snd(1) [OF v(3)]
        recv_frame_snd(2) [OF _ v(4)] su v(5) by (auto simp: calm_def recv_frame_def)
  next
    case False
    with rest su r show ?thesis by auto
  qed
qed

lemma recv_frame_put_left:
  assumes "put_left to cmd h ts p b s = Some y"
  shows "is_snd (fst b) \<longrightarrow> calm s (snd y) \<and> is_snd (fst (fst y))"
  using assms
proof (induction to cmd h ts p b s y rule: put_left.raw_induct [rotated, consumes 1, case_names step])
  case (step rec to cmd h ts p b s y)
  show ?case
  proof (cases p)
    case None
    with step(2) show ?thesis by auto
  next
    case (Some w)
    with step(2) obtain x z where z: "put_packet to cmd (snd x) b s = Some z" "rec to cmd h ts (fst x) (fst z) (snd z) = Some y"
      by (auto elim!: bindE)
    show ?thesis
      using step(1) [OF z(2)] recv_frame_put_packet [of to cmd "snd x" b s "fst z" "snd z"] z(1)
      by (auto intro: calm_trans)
  qed
qed

lemma recv_frame_put_interval:
  "put_interval to to' cmd h iv b s = Some y \<Longrightarrow> is_snd (fst b) \<Longrightarrow> calm s (snd y) \<and> is_snd (fst (fst y))"
  by (auto simp: put_interval_def elim!: bindE dest!: recv_frame_put_left recv_frame_put_packet
      intro: calm_trans)

lemma recv_frame_put_rest [recv_frames]: "put_rest b s = Some t \<Longrightarrow> is_snd (fst b) \<Longrightarrow> calm s t"
  by (cases b) (auto simp: put_rest_def simp del: msg_upd.simps elim!: bindE split: if_split_asm
      dest: recv_frame_snd calm_trans)

lemma recv_frame_exit_intervals:
  assumes "exit_intervals i ts j p b s = Some y"
  shows "is_snd (fst b) \<longrightarrow> calm s (snd y) \<and> is_snd (fst (fst y))"
  using assms
proof (induction i ts j p b s y rule: exit_intervals.raw_induct [rotated, consumes 1, case_names step])
  case (step rec i ts j p b s y)
  show ?case
  proof (cases p)
    case None
    with step(2) show ?thesis by auto
  next
    case (Some k)
    obtain iv a z where z: "(if (a :: int) \<noteq> 0 \<and> i_notices iv \<noteq> None
        then put_interval i 0 GRANT_EXIT_BARRIER_INFO j iv b s else Some (b, s)) = Some z"
      "rec i ts j (i_prev iv) (fst z) (snd z) = Some y"
      using step(2) unfolding Some option.case by (elim bindE) (rule that)
    have "is_snd (fst b) \<longrightarrow> calm s (snd z) \<and> is_snd (fst (fst z))"
      using z(1) by (auto split: if_split_asm dest: recv_frame_put_interval)
    with step(1) [OF z(2)] show ?thesis by (auto intro: calm_trans)
  qed
qed

lemma recv_frame_exit_hosts:
  "exit_hosts i ts j hn b s = Some y \<Longrightarrow> is_snd (fst b) \<Longrightarrow> calm s (snd y) \<and> is_snd (fst (fst y))"
proof (induction i ts j hn b s rule: exit_hosts.induct)
  case (1 i ts j hn b s)
  show ?case
  proof (cases "int j < hn")
    case True
    with "1.prems"(1) obtain h z where z: "aidx (int j) MAX_HOST_NUM = Some h"
      "(case pr_intervalList (procArray s h) of None \<Rightarrow> Some (b, s)
        | Some k \<Rightarrow> Option.bind (chain_last (nextI s) k) (\<lambda>oldest. exit_intervals i ts (int j) (Some oldest) b s)) = Some z"
      "exit_hosts i ts (Suc j) hn (fst z) (snd z) = Some y"
      by (subst (asm) exit_hosts.simps) (auto elim!: bindE)
    have "calm s (snd z) \<and> is_snd (fst (fst z))"
      using z(2) "1.prems"(2) by (auto split: option.split_asm elim!: bindE dest: recv_frame_exit_intervals)
    with "1.IH" [OF True z(1,2,3)] show ?thesis by (auto intro: calm_trans)
  next
    case False
    with "1.prems" show ?thesis by (subst (asm) exit_hosts.simps) auto
  qed
qed

lemma recv_frame_append_packets:
  assumes "append_packets r h ts p n s = Some y"
  shows "is_snd r \<longrightarrow> calm s (snd y)"
  using assms
proof (induction r h ts p n s y rule: append_packets.raw_induct [rotated, consumes 1, case_names step])
  case (step rec r h ts p n s y)
  obtain x z where z: "apendMsgData (Some r) (Some (packet_bytes (snd x))) (int PACKET_SIZE) s = Some z"
    "(if fst x = None then Some (n + 1, snd z) else rec r h ts (fst x) (n + 1) (snd z)) = Some y"
    using step(2) by (elim bindE) (rule that)
  have "is_snd r \<Longrightarrow> calm s (snd z)"
    using z(1) by (cases z) (auto dest: recv_frame_snd(2))
  with z(2) step(1) [of r h ts "fst x" "n + 1" "snd z" y] show ?case
    by (auto split: if_split_asm intro: calm_trans)
qed

lemma recv_frame_append_intervals:
  assumes "append_intervals r h ts p n s = Some y"
  shows "is_snd r \<longrightarrow> calm s (snd y)"
  using assms
proof (induction r h ts p n s y rule: append_intervals.raw_induct [rotated, consumes 1, case_names step])
  case (step rec r h ts p n s y)
  show ?case
  proof (cases p)
    case None
    with step(2) show ?thesis by auto
  next
    case (Some k)
    show ?thesis
      using step(2) unfolding Some option.case
    proof (elim bindE)
      fix iv a z
      assume z: "(if a \<noteq> 0 \<and> i_notices iv \<noteq> None
          then append_packets r h (i_timestamp iv) (i_notices iv) n s else Some (n, s)) = Some z"
        "rec r h ts (i_prev iv) (fst z) (snd z) = Some y"
      have "is_snd r \<longrightarrow> calm s (snd z)"
        using z(1) by (auto split: if_split_asm dest: recv_frame_append_packets)
      with step(1) [OF z(2)] show ?thesis by (auto intro: calm_trans)
    qed
  qed
qed

lemma recv_frame_append_hosts:
  "append_hosts r i ts hn n s = Some y \<Longrightarrow> is_snd r \<Longrightarrow> calm s (snd y)"
proof (induction r i ts hn n s rule: append_hosts.induct)
  case (1 r i ts hn n s)
  show ?case
  proof (cases "int i < hn")
    case True
    with "1.prems"(1) obtain h z where z: "aidx (int i) MAX_HOST_NUM = Some h"
      "(case pr_intervalList (procArray s h) of None \<Rightarrow> Some (n, s)
        | Some k \<Rightarrow> Option.bind (chain_last (nextI s) k) (\<lambda>oldest. append_intervals r (int i) ts (Some oldest) n s)) = Some z"
      "append_hosts r (Suc i) ts hn (fst z) (snd z) = Some y"
      by (subst (asm) append_hosts.simps) (auto elim!: bindE)
    have "calm s (snd z)"
      using z(2) "1.prems"(2) by (auto split: option.split_asm elim!: bindE dest: recv_frame_append_intervals)
    with "1.IH" [OF True z(1,2,3)] "1.prems"(2) show ?thesis by (auto intro: calm_trans)
  next
    case False
    with "1.prems" show ?thesis by (subst (asm) append_hosts.simps) auto
  qed
qed

lemma recv_frame_grantWNI [recv_frames]: "grantWNI h ts s = Some (x, t) \<Longrightarrow> calm s t"
proof -
  assume run: "grantWNI h ts s = Some (x, t)"
  show ?thesis
  proof (cases "\<exists>ts'. ts = Some ts' \<and> 0 \<le> h \<and> h < hostnum s \<and> h \<noteq> myhostid s")
    case False
    with run show ?thesis by (cases ts) (auto simp: grantWNI_def split: if_split_asm)
  next
    case True
    with run obtain r a ts' b c now d e f g x' where r: "new_msg h GRANT_WN_I s = Some (r, a)"
      "msg_upd (Some r) (\<lambda>m. m\<lparr>m_timestamp := i_timestamp (now :: interval_t)\<rparr>) a = Some b"
      "apendMsgData (Some r) (Some (int_bytes 0)) 4 b = Some (c, d)"
      "append_hosts r 0 ts' (hostnum d) 0 d = Some (e, f)"
      "msg_upd (Some r) (\<lambda>m. m\<lparr>m_data := poke (m_data m) 0 (int_bytes e)\<rparr>) f = Some g"
      "sendMsg (Some r) g = Some (x', t)"
      by (auto simp: grantWNI_def simp del: msg_upd.simps elim!: bindE)
    show ?thesis
      using recv_frame_snd(1) [OF r(1)] recv_frame_snd(2) [OF _ r(3)] recv_frame_snd(3) [OF _ r(2)]
        recv_frame_append_hosts [OF r(4)] recv_frame_snd(3) [OF _ r(5)] recv_frame_snd(4) [OF _ r(6)]
      by (auto simp: calm_def recv_frame_def)
  qed
qed

lemma recv_frame_incorporate [recv_frames]: "incorporate_all ps s = Some t \<Longrightarrow> calm s t"
proof (induction ps arbitrary: s)
  case (Cons p ps)
  then obtain x u where "incorporateWnPacket (Some p) s = Some (x, u)" "incorporate_all ps u = Some t"
    by (auto elim!: bindE)
  with Cons.IH [of u] show ?case by (auto dest!: heap_frame_packet recv_frame_heap intro: calm_trans)
qed simp

lemma recv_frame_info_msgs [recv_frames]:
  "handleGrantWNIMsg m s = Some t \<Longrightarrow> calm s t"
  "handleGrantEnterBarrierMsg m s = Some t \<Longrightarrow> calm s t"
  "handleGrantExitBarrierMsg m s = Some t \<Longrightarrow> calm s t"
  by (auto simp: handleGrantWNIMsg_def handleGrantEnterBarrierMsg_def handleGrantExitBarrierMsg_def Let_def
      elim!: bindE split: option.split_asm if_split_asm dest!: recv_frame_incorporate heap_frame_push recv_frame_heap)
    (simp_all add: calm_def recv_frame_def)

lemma recv_frame_exit_info: "exit_info ts i s = Some t \<Longrightarrow> calm s t"
proof -
  assume "exit_info ts i s = Some t"
  then obtain r a ts' b c d e f where r: "new_msg (int i) GRANT_EXIT_BARRIER_INFO s = Some (r, a)"
    "msg_upd (Some r) (\<lambda>m. m\<lparr>m_timestamp := ts'\<rparr>) a = Some b"
    "apendMsgData (Some r) (Some (int_bytes 0)) 4 b = Some (c, d)"
    "exit_hosts (int i) (barrierTimestamps d i) 0 (hostnum d) (r, 0, 0) d = Some (e, f)" "put_rest e f = Some t"
    by (auto simp: exit_info_def simp del: msg_upd.simps elim!: bindE)
  show ?thesis
    using recv_frame_snd(1) [OF r(1)] recv_frame_snd(3) [OF _ r(2)] recv_frame_snd(2) [OF _ r(3)]
      recv_frame_exit_hosts [OF r(4)] recv_frame_put_rest [OF r(5)]
    by (auto simp: calm_def recv_frame_def)
qed

lemma recv_frame_exit_infos: "exit_infos ts is s = Some t \<Longrightarrow> calm s t"
proof (induction "is" arbitrary: s)
  case (Cons i "is")
  then obtain u where "exit_info ts i s = Some u" "exit_infos ts is u = Some t" by (auto elim!: bindE)
  with Cons.IH [of u] show ?case by (auto dest!: recv_frame_exit_info intro: calm_trans)
qed simp

lemma recv_frame_exit_msgs: "exit_msgs is s = Some t \<Longrightarrow> calm s t"
proof (induction "is" arbitrary: s)
  case (Cons i "is")
  then obtain r u x v where "new_msg (int i) EXIT_BARRIER s = Some (r, u)" "sendMsg (Some r) u = Some (x, v)"
    "exit_msgs is v = Some t" by (auto elim!: bindE)
  with Cons.IH [of v] show ?case by (auto dest!: recv_frame_snd(1) recv_frame_snd(4) intro: calm_trans)
qed simp

text \<open>The last message of a barrier makes the manager forget who held the locks last.\<close>

definition locks_kept :: "'a syn_st_scheme \<Rightarrow> 'a syn_st_scheme \<Rightarrow> bool" where
  "locks_kept s t \<longleftrightarrow> recv_frame s t \<and> myLocks t = myLocks s \<and>
     (\<forall>k. locks t k = locks s k \<or> locks t k = (locks s k)\<lparr>l_lasthostid := - 1\<rparr>)"

lemma locks_kept_calm: "calm s t \<Longrightarrow> locks_kept s t"
  by (simp add: locks_kept_def calm_def)

lemma locks_kept_around: "calm s t \<Longrightarrow> locks_kept t u \<Longrightarrow> calm u v \<Longrightarrow> locks_kept s v"
  by (simp add: calm_def recv_frame_def locks_kept_def)

lemma locks_kept_returnAll:
  assumes "returnAllBarrierInfo s = Some t"
  shows "locks_kept s t"
  using assms
  by (auto simp: returnAllBarrierInfo_def Let_def elim!: bindE split: if_split_asm
      dest!: recv_frame_exit_infos heap_frame_push recv_frame_heap)
    (simp_all add: recv_frame_def calm_def locks_kept_def)

lemma locks_kept_enter:
  assumes "handleEnterBarrierMsg m s = Some t"
  shows "locks_kept s t"
  using assms
  by (auto simp: handleEnterBarrierMsg_def checkBarrierFlags_def elim!: bindE split: if_split_asm
      dest!: locks_kept_returnAll recv_frame_exit_msgs)
    (simp_all add: recv_frame_def calm_def locks_kept_def)

lemma recv_frame_enter [recv_frames]: "handleEnterBarrierMsg m s = Some t \<Longrightarrow> recv_frame s t"
  by (drule locks_kept_enter) (simp add: locks_kept_def)

lemma recv_frame_fetch_msgs [recv_frames]:
  "handleFetchPageMsg m s = Some t \<Longrightarrow> calm s t" "handleFetchDiffMsg m s = Some t \<Longrightarrow> calm s t"
  "handleFetchWNIMsg m s = Some t \<Longrightarrow> calm s t"
  by (auto simp: handleFetchPageMsg_def handleFetchDiffMsg_def handleFetchWNIMsg_def dest!: recv_frames)

lemma recv_frame_dispatch [recv_frames]: "dispatchMsg m s = Some t \<Longrightarrow> recv_frame s t"
  by (auto simp: dispatchMsg_def split: option.split_asm if_split_asm command_t.split_asm
      intro: recv_frames recv_frame_syn calm_recv)

lemma calm_exit: "calm s (handleExitBarrierMsg m s)"
  by (simp add: handleExitBarrierMsg_def calm_def recv_frame_def split: option.split)

lemma locks_kept_dispatch:
  assumes "dispatchMsg (Some m) s = Some t" "m_command m \<notin> cmd_code ` {ACQ_LOCK, RLS_LOCK, GRANT_LOCK}"
  shows "locks_kept s t"
proof (cases "command_of (m_command m)")
  case None
  with assms(1) show ?thesis by (simp add: dispatchMsg_def locks_kept_calm split: if_split_asm)
next
  case (Some c)
  then have "m_command m = cmd_code c" by (auto simp: command_of_def find_Some_iff)
  with assms Some show ?thesis
    by (cases c) (auto simp: dispatchMsg_def split: if_split_asm simp del: cmd_code.simps
      intro: recv_frames locks_kept_calm locks_kept_enter calm_exit)
qed

section \<open>Serving the queue\<close>

text \<open>The messages of the queue are handled one by one, each leaves the queue after its handler.\<close>

fun serve :: "mimsg_t list \<Rightarrow> mem_st \<Rightarrow> mem_st option" where
  "serve [] s = Some s"
| "serve (m # ms) s = do { s \<leftarrow> dispatchMsg (Some m) s; serve ms (snd (msgDequeue 1 s)) }"

lemma recv_ok_deq: "recv_ok s \<Longrightarrow> 0 < recvQueueSize s \<Longrightarrow> recv_ok (snd (msgDequeue 1 s)) \<and>
    recvQueueSize (snd (msgDequeue 1 s)) = recvQueueSize s - 1"
  using ring_ok_deq [of "recvHead s" "recvTail s" "recvQueueSize s"] by (auto simp: recv_ok_def msgDequeue_def)

lemma recv_items_deq:
  assumes "recv_ok s" "0 < recvQueueSize s"
  shows "recv_items s = recvQueue s (recvHead s) # recv_items (snd (msgDequeue 1 s))"
  using assms ring_items_deq [of "recvHead s" "recvTail s" "recvQueueSize s" "recvQueue s"]
  by (simp add: recv_ok_def recv_items_def msgDequeue_def)

lemma recv_frame_queue:
  "recv_frame s t \<Longrightarrow> recv_ok t = recv_ok s \<and> recv_items t = recv_items s \<and> recvQueueSize t = recvQueueSize s"
  by (simp add: recv_frame_def recv_ok_def recv_items_def)

lemma recv_frame_deq:
  "recv_frame s t \<Longrightarrow> recv_items (snd (msgDequeue 1 t)) = recv_items (snd (msgDequeue 1 s))"
  by (simp add: recv_frame_def recv_items_def msgDequeue_def)

text \<open>The loop ends: no handler puts a message into the receiving queue.\<close>

lemma drain_serves:
  "recv_ok s \<Longrightarrow> drain s = serve (recv_items s) s"
proof (induction "recvQueueSize s" arbitrary: s)
  case 0
  then show ?case by (simp add: drain.simps recv_items_def)
next
  case (Suc n)
  then have pos: "0 < recvQueueSize s" by simp
  let ?m = "recvQueue s (recvHead s)"
  have top: "drain s = Option.bind (dispatchMsg (Some ?m) s) (\<lambda>s. drain (snd (msgDequeue 1 s)))"
    using pos by (subst drain.simps) (simp add: queueTop_def)
  have items: "recv_items s = ?m # recv_items (snd (msgDequeue 1 s))"
    by (rule recv_items_deq [OF Suc.prems pos])
  show ?case
  proof (cases "dispatchMsg (Some ?m) s")
    case None
    then show ?thesis using top items by simp
  next
    case (Some t)
    note fr = recv_frame_dispatch [OF Some]
    let ?u = "snd (msgDequeue 1 t)"
    have u: "recv_ok ?u" "recvQueueSize ?u = n" "recv_items ?u = recv_items (snd (msgDequeue 1 s))"
      using recv_frame_queue [OF fr] recv_frame_deq [OF fr] recv_ok_deq [of t] Suc.prems Suc.hyps(2) by auto
    then have "drain ?u = serve (recv_items (snd (msgDequeue 1 s))) ?u"
      using Suc.hyps(1) [of ?u] by simp
    then show ?thesis using top items Some by simp
  qed
qed

lemma serve_frame:
  assumes "serve ms s = Some t" "recv_ok s" "recvQueueSize s = length ms"
  shows "recv_ok t \<and> recvQueueSize t = 0 \<and> hostnum t = hostnum s \<and> myhostid t = myhostid s \<and>
    acks_out t = acks_out s \<and> isSigioDisabled t = isSigioDisabled s"
  using assms
proof (induction ms arbitrary: s)
  case (Cons m ms)
  then obtain u where u: "dispatchMsg (Some m) s = Some u" "serve ms (snd (msgDequeue 1 u)) = Some t"
    by (auto elim!: bindE)
  note fr = recv_frame_dispatch [OF u(1)]
  have "recv_ok (snd (msgDequeue 1 u))" "recvQueueSize (snd (msgDequeue 1 u)) = length ms"
    using recv_frame_queue [OF fr] recv_ok_deq [of u] Cons.prems by auto
  from Cons.IH [OF u(2) this] fr show ?case by (auto simp: recv_frame_def msgDequeue_def split: if_splits)
qed auto

section \<open>Receiving\<close>

text \<open>The datagrams of a delivery, in the order of the sockets, and the acknowledgements for them.\<close>

definition arrived :: "arrivals \<Rightarrow> int \<Rightarrow> nat list \<Rightarrow> (nat \<times> mimsg_t) list" where
  "arrived arrivals own is =
     concat (map (\<lambda>i. case arrivals i of Some (Some m) \<Rightarrow> if int i \<noteq> own then [(i, m)] else [] | _ \<Rightarrow> []) is)"

definition acks_for :: "'a net_st_scheme \<Rightarrow> (nat \<times> mimsg_t) list \<Rightarrow> (nat \<times> int \<times> int) list" where
  "acks_for s ims = map (\<lambda>(i, m). (i, ackPorts s (nat (m_from m)) (nat (myhostid s)), m_seqno m)) ims"

lemma arrived_Cons:
  "arrived arrivals own (i # is) =
     (case arrivals i of Some (Some m) \<Rightarrow> if int i \<noteq> own then [(i, m)] else [] | _ \<Rightarrow> []) @ arrived arrivals own is"
  by (simp add: arrived_def)

text \<open>What reading the sockets changes: the receiving queue, the counters and the acknowledgements.\<close>

definition read_frame :: "mem_st \<Rightarrow> mem_st \<Rightarrow> bool" where
  "read_frame s t \<longleftrightarrow> t = s\<lparr>recvQueue := recvQueue t, recvTail := recvTail t, recvQueueSize := recvQueueSize t,
     datamanager := datamanager t, acks_out := acks_out t\<rparr>"

lemma read_frame_refl [simp]: "read_frame s s"
  by (simp add: read_frame_def)

lemma read_frame_trans: "read_frame s t \<Longrightarrow> read_frame t u \<Longrightarrow> read_frame s u"
  by (cases s; cases t; cases u) (simp add: read_frame_def)

lemma read_frame_fields: "read_frame s t \<Longrightarrow> myhostid t = myhostid s \<and> ackPorts t = ackPorts s"
  by (cases s; cases t) (simp add: read_frame_def)

lemma recv_one_ok:
  assumes "recv_ok s" "recvQueueSize s < MAX_QUEUE_SIZE" "in_hosts (myhostid s)"
    and "\<And>m. d = Some m \<Longrightarrow> in_hosts (m_from m)"
  shows "\<exists>t. recv_one i d s = Some t \<and> read_frame s t \<and> recv_ok t \<and>
    recv_items t = recv_items s @ (case d of None \<Rightarrow> [] | Some m \<Rightarrow> [m]) \<and>
    recvQueueSize t \<le> Suc (recvQueueSize s) \<and>
    acks_out t = acks_out s @ (case d of None \<Rightarrow> [] | Some m \<Rightarrow> acks_for s [(i, m)])"
proof -
  have ring: "ring_ok (recvHead s) (recvTail s) (recvQueueSize s)" using assms(1) by (simp add: recv_ok_def)
  note put = ring_items_put [OF ring assms(2)] and enq = ring_ok_enq [OF ring assms(2)]
  have free: "nextFreeMsgInQueue 1 s = (Some (RcvSlot (recvTail s)), set_msg (RcvSlot (recvTail s)) empty_msg s)"
    using assms(2) by (simp add: nextFreeMsgInQueue_def)
  show ?thesis
  proof (cases d)
    case None
    then show ?thesis
      using put(2) ring by (simp add: recv_one_def free recv_items_def recv_ok_def read_frame_def)
  next
    case (Some m)
    have h: "aidx (m_from m) MAX_HOST_NUM = Some (nat (m_from m))"
      "aidx (myhostid s) MAX_HOST_NUM = Some (nat (myhostid s))"
      using assms(3) assms(4) [OF Some] by (simp_all add: aidx_in_range in_hosts_def)
    from Some show ?thesis
      using put(1) enq assms(2)
      by (simp add: recv_one_def free recv_items_def recv_ok_def read_frame_def msgEnqueue_def h Let_def acks_for_def)
  qed
qed

lemma recv_loop_ok:
  assumes "recv_ok s" "recvQueueSize s + length is \<le> MAX_QUEUE_SIZE" "in_hosts (myhostid s)"
    and "\<And>i m. i \<in> set is \<Longrightarrow> arrivals i = Some (Some m) \<Longrightarrow> in_hosts (m_from m)"
  shows "\<exists>t. recv_loop is arrivals s = Some t \<and> read_frame s t \<and> recv_ok t \<and>
    recv_items t = recv_items s @ map snd (arrived arrivals (myhostid s) is) \<and>
    acks_out t = acks_out s @ acks_for s (arrived arrivals (myhostid s) is)"
  using assms
proof (induction "is" arbitrary: s)
  case Nil
  then show ?case by (simp add: arrived_def acks_for_def)
next
  case (Cons i "is")
  have "\<exists>t. (if int i \<noteq> myhostid s
             then (case arrivals i of None \<Rightarrow> Some s | Some d \<Rightarrow> recv_one i d s) else Some s) = Some t \<and>
    read_frame s t \<and> recv_ok t \<and> recvQueueSize t \<le> Suc (recvQueueSize s) \<and>
    recv_items t = recv_items s @ map snd (arrived arrivals (myhostid s) [i]) \<and>
    acks_out t = acks_out s @ acks_for s (arrived arrivals (myhostid s) [i])" (is "\<exists>t. ?step = _ \<and> ?P t")
  proof (cases "int i \<noteq> myhostid s \<and> arrivals i \<noteq> None")
    case True
    then obtain d where d: "arrivals i = Some d" by auto
    have "\<exists>t. recv_one i d s = Some t \<and> read_frame s t \<and> recv_ok t \<and>
      recv_items t = recv_items s @ (case d of None \<Rightarrow> [] | Some m \<Rightarrow> [m]) \<and>
      recvQueueSize t \<le> Suc (recvQueueSize s) \<and>
      acks_out t = acks_out s @ (case d of None \<Rightarrow> [] | Some m \<Rightarrow> acks_for s [(i, m)])"
      by (rule recv_one_ok) (use Cons.prems d in auto)
    then show ?thesis using d True
      by (auto simp: arrived_def acks_for_def split: option.splits)
  next
    case False
    then show ?thesis
      using Cons.prems(1) by (auto simp: arrived_def acks_for_def split: option.splits)
  qed
  then obtain t where t: "?step = Some t" "?P t" by blast
  note fm = read_frame_fields [of s t]
  from t(2) Cons.prems obtain u where u: "recv_loop is arrivals t = Some u" "read_frame t u" "recv_ok u"
    "recv_items u = recv_items t @ map snd (arrived arrivals (myhostid t) is)"
    "acks_out u = acks_out t @ acks_for t (arrived arrivals (myhostid t) is)"
    using Cons.IH [of t] fm by auto
  have "acks_for t = acks_for s" using t(2) fm by (simp add: acks_for_def fun_eq_iff)
  with u t fm read_frame_trans [of s t u] show ?case
    by (auto simp: arrived_Cons [of _ _ i "is"] arrived_Cons [of _ _ i "[]"] arrived_def [of _ _ "[]"] acks_for_def)
qed

lemma sigio_run:
  assumes "recv_ok s" "recvQueueSize s = 0" "in_hosts (myhostid s)"
    and "\<And>i m. i < MAX_HOST_NUM \<Longrightarrow> arrivals i = Some (Some m) \<Longrightarrow> in_hosts (m_from m)"
  shows "let ims = arrived arrivals (myhostid s) [0..<MAX_HOST_NUM] in
    \<exists>u. read_frame (disableSigio s) u \<and> recv_ok u \<and> recv_items u = map snd ims \<and>
      acks_out u = acks_out s @ acks_for s ims \<and>
      sigio_handler arrivals s = map_option enableSigio (serve (map snd ims) u)"
proof -
  let ?s = "disableSigio s" and ?ims = "arrived arrivals (myhostid s) [0..<MAX_HOST_NUM]"
  have s: "recv_ok ?s" "recvQueueSize ?s = 0" "myhostid ?s = myhostid s" "recv_items ?s = []"
    "acks_for ?s = acks_for s" "acks_out ?s = acks_out s"
    using assms(1,2) by (simp_all add: disableSigio_def recv_ok_def recv_items_def acks_for_def fun_eq_iff)
  obtain u where u: "recv_loop [0..<MAX_HOST_NUM] arrivals ?s = Some u" "read_frame ?s u" "recv_ok u"
    "recv_items u = map snd ?ims" "acks_out u = acks_out s @ acks_for s ?ims"
    using recv_loop_ok [of ?s "[0..<MAX_HOST_NUM]" arrivals] s assms(3,4) by (auto simp: MAX_QUEUE_SIZE_def)
  have "sigio_handler arrivals s = map_option enableSigio (serve (map snd ?ims) u)"
    using u by (cases "serve (map snd ?ims) u") (simp_all add: sigio_handler_def drain_serves)
  with u show ?thesis by (auto simp: Let_def)
qed

section \<open>Properties\<close>

text \<open>C34: A delivery of SIGIO at a host with an empty receiving queue. One datagram is read from
  every readable socket but the own one, in the order of the hosts, and each is acknowledged with its
  sequence number at the port its sender listens on for this host. Then the handlers run on these
  messages in that order, each message leaving the queue after its handler, and nothing else: the
  queue has room for the datagrams of all sockets and no handler adds to it, so that the handler
  returns as soon as each handler does, with an empty queue and the signal enabled again.\<close>

theorem sigio_serves:
  assumes "recv_ok s" "recvQueueSize s = 0" "in_hosts (myhostid s)"
    and "\<And>i m. i < MAX_HOST_NUM \<Longrightarrow> arrivals i = Some (Some m) \<Longrightarrow> in_hosts (m_from m)"
  shows "let ims = arrived arrivals (myhostid s) [0..<MAX_HOST_NUM] in
    \<exists>u. read_frame (disableSigio s) u \<and> recv_items u = map snd ims \<and> acks_out u = acks_out s @ acks_for s ims \<and>
      sigio_handler arrivals s = map_option enableSigio (serve (map snd ims) u) \<and>
      (\<forall>t. sigio_handler arrivals s = Some t \<longrightarrow> recvQueueSize t = 0 \<and> recv_ok t \<and>
        isSigioDisabled t = 0 \<and> acks_out t = acks_out s @ acks_for s ims)"
proof -
  let ?ims = "arrived arrivals (myhostid s) [0..<MAX_HOST_NUM]"
  obtain u where u: "read_frame (disableSigio s) u" "recv_ok u" "recv_items u = map snd ?ims"
    "acks_out u = acks_out s @ acks_for s ?ims"
    "sigio_handler arrivals s = map_option enableSigio (serve (map snd ?ims) u)"
    using sigio_run [of s arrivals, OF assms(1-3)] assms(4) unfolding Let_def by blast
  have len: "recvQueueSize u = length (map snd ?ims)"
    unfolding u(3) [symmetric] by (simp add: recv_items_def)
  have "recvQueueSize t = 0 \<and> recv_ok t \<and> isSigioDisabled t = 0 \<and> acks_out t = acks_out s @ acks_for s ?ims"
    if t: "sigio_handler arrivals s = Some t" for t
  proof -
    obtain v where v: "serve (map snd ?ims) u = Some v" "t = enableSigio v"
      using u(5) t by (cases "serve (map snd ?ims) u") simp_all
    from serve_frame [OF v(1) u(2) len] u(4) v(2) show ?thesis by (auto simp: enableSigio_def recv_ok_def)
  qed
  with u show ?thesis by (auto simp: Let_def)
qed

theorem sigio_serves_witness:
  "\<exists>t. sigio_handler ((\<lambda>_. None)(2 := Some (Some (zero_msg\<lparr>m_from := 2, m_seqno := 7\<rparr>)))) (boot 0 3) = Some t \<and>
     recvQueueSize t = 0 \<and> acks_out t = acks_out (boot 0 3) @ [(2, ackPorts (boot 0 3) 2 0, 7)]"
proof -
  let ?m = "zero_msg\<lparr>m_from := 2, m_seqno := 7\<rparr>" and ?a = "(\<lambda>_. None)(2 := Some (Some (zero_msg\<lparr>m_from := 2, m_seqno := 7\<rparr>)))"
  have b: "recv_ok (boot 0 3)" "recvQueueSize (boot 0 3) = 0" "myhostid (boot 0 3) = 0"
    using boot_fields [of 0 3] boot_ok [of 0 3] by (simp_all add: MAX_HOST_NUM_def)
  have ims: "arrived ?a (myhostid (boot 0 3)) [0..<MAX_HOST_NUM] = [(2, ?m)]"
    by (simp add: arrived_def b MAX_HOST_NUM_def upt_rec)
  have "dispatchMsg (Some ?m) s = Some s" for s
    using command_of_code [of TEST_COMMAND] by (simp add: dispatchMsg_def zero_msg_def)
  then have "serve [?m] u = Some (snd (msgDequeue 1 u))" for u by simp
  moreover have "in_hosts (m_from m)" if "?a i = Some (Some m)" for i m
    using that by (auto simp: in_hosts_def MAX_HOST_NUM_def split: if_split_asm)
  ultimately show ?thesis
    using sigio_serves [OF b(1,2), of ?a] ims b(3) by (auto simp: in_hosts_def acks_for_def)
qed

end
