(* ===== verification/Waiting.thy ===== *)
theory Waiting
  imports Dispatch
begin

text \<open>
  The requests that wait for a reply (\<open>fetchPage\<close>, \<open>fetchDiff\<close>, \<open>fetchWritenoticeAndInterval\<close> and
  \<open>segv_handler\<close> of \<open>src/mem.c\<close>). A loop \<open>while(flag);\<close> ends when a delivery of SIGIO has cleared the
  flag; the list \<open>env\<close> holds the deliveries that are still to come. With none left the program waits
  forever: the result is then \<open>Blocked\<close> with the state in which it waits. \<open>None\<close> is undefined
  behaviour, as everywhere.
\<close>

section \<open>Waiting\<close>

datatype 'a wait = Blocked mem_st | Returned 'a

type_synonym 'a waiting = "'a wait option"

definition on_return :: "'a wait \<Rightarrow> ('a \<Rightarrow> 'b waiting) \<Rightarrow> 'b waiting" where
  "on_return w f = (case w of Blocked s \<Rightarrow> Some (Blocked s) | Returned a \<Rightarrow> f a)"

lemma on_return_simps [simp]:
  "on_return (Blocked s) f = Some (Blocked s)" "on_return (Returned a) f = f a"
  by (simp_all add: on_return_def)

fun await :: "(mem_st \<Rightarrow> int) \<Rightarrow> arrivals list \<Rightarrow> mem_st \<Rightarrow> (mem_st \<times> arrivals list) waiting" where
  "await flag [] s = Some (if flag s = 0 then Returned (s, []) else Blocked s)"
| "await flag (a # env) s =
     (if flag s = 0 then Some (Returned (s, a # env))
      else do { s \<leftarrow> sigio_handler a s; await flag env s })"

text \<open>Deliveries at a point where the program does not wait.\<close>

fun interrupts :: "arrivals list \<Rightarrow> mem_st \<Rightarrow> mem_st option" where
  "interrupts [] s = Some s"
| "interrupts (a # env) s = do { s \<leftarrow> sigio_handler a s; interrupts env s }"

section \<open>Fetching a page\<close>

text \<open>The first loop: has any other host written to the page?\<close>

fun has_notice :: "nat list \<Rightarrow> nat \<Rightarrow> int \<Rightarrow> mem_st \<Rightarrow> int option" where
  "has_notice [] k hasWriteNotice s = Some hasWriteNotice"
| "has_notice (i # is) k hasWriteNotice s =
     (if int i = myhostid s then has_notice is k hasWriteNotice s
      else do { h \<leftarrow> aidx (int i) MAX_HOST_NUM;
                has_notice is k (if p_notices (pageArray s k) h \<noteq> None then 1 else hasWriteNotice) s })"

text \<open>The second loop, with \<open>latestInterval\<close> and \<open>hostid\<close>.\<close>

fun latest_host :: "nat list \<Rightarrow> nat \<Rightarrow> ptr \<times> int \<Rightarrow> mem_st \<Rightarrow> (ptr \<times> int) option" where
  "latest_host [] k best s = Some best"
| "latest_host (i # is) k best s =
     (if int i = myhostid s then latest_host is k best s
      else do {
        h \<leftarrow> aidx (int i) MAX_HOST_NUM;
        (case p_notices (pageArray s k) h of
           None \<Rightarrow> latest_host is k best s
         | Some w \<Rightarrow> do {
             wn \<leftarrow> wn_get s (Some w);
             (if fst best = None then latest_host is k (w_interval wn, int i) s
              else do {
                iv \<leftarrow> iv_get s (w_interval wn);
                latest \<leftarrow> iv_get s (fst best);
                after \<leftarrow> isAfterInterval (hostnum s) (Some (i_timestamp iv)) (Some (i_timestamp latest));
                latest_host is k (if after = 1 then (w_interval wn, int i) else best) s }) }) })"

definition fetchPage :: "int \<Rightarrow> arrivals list \<Rightarrow> mem_st \<Rightarrow> (int \<times> mem_st \<times> arrivals list) waiting" where
  "fetchPage pageIndex env s =
     (if pageIndex < 0 \<or> pageIndex \<ge> int MAX_PAGE_NUM then Some (Returned (- 1, s, env))
      else if p_state (pageArray s (nat pageIndex)) \<noteq> MISS then Some (Returned (- 1, s, env))
      else do {
        hasWriteNotice \<leftarrow> has_notice [0..<nat (hostnum s)] (nat pageIndex) 0 s;
        hostid \<leftarrow> (if hasWriteNotice = 0 then crem pageIndex (hostnum s)
                   else map_option snd (latest_host [0..<nat (hostnum s)] (nat pageIndex) (None, 0) s));
        (r, s) \<leftarrow> new_msg hostid FETCH_PAGE s;
        (_, s) \<leftarrow> apendMsgData (Some r) (Some (int_bytes pageIndex)) 4 s;
        (_, s) \<leftarrow> sendMsg (Some r) (s\<lparr>fetchPageWaitFlag := 1\<rparr>);
        w \<leftarrow> await fetchPageWaitFlag env s;
        on_return w (\<lambda>(s, env). Some (Returned (0, s, env))) })"

section \<open>Fetching diffs\<close>

text \<open>One request. \<open>wn\<close> is the notice, \<open>ts\<close> the timestamp of its interval.\<close>

definition request_diff :: "int \<Rightarrow> int \<Rightarrow> timestamp \<Rightarrow> arrivals list \<Rightarrow> mem_st \<Rightarrow> (mem_st \<times> arrivals list) waiting" where
  "request_diff i pageIndex ts env s =
     do { (r, s) \<leftarrow> new_msg i FETCH_DIFF s;
          (_, s) \<leftarrow> apendMsgData (Some r) (Some (int_bytes pageIndex)) 4 s;
          (_, s) \<leftarrow> apendMsgData (Some r) (Some (ints_bytes ts)) (int (4 * MAX_HOST_NUM)) s;
          (_, s) \<leftarrow> sendMsg (Some r) (s\<lparr>fetchDiffWaitFlag := 1\<rparr>);
          await fetchDiffWaitFlag env s }"

text \<open>
  The inner loop, along the notices of the host \<open>i\<close>. \<open>timestamp\<close> is the first field of an interval,
  so that \<open>pageTimestamp\<close> is NULL exactly if \<open>startInterval\<close> (here \<open>start\<close>) is.
\<close>

partial_function (option) diff_loop ::
    "int \<Rightarrow> int \<Rightarrow> ptr \<Rightarrow> ptr \<Rightarrow> arrivals list \<Rightarrow> mem_st \<Rightarrow> (mem_st \<times> arrivals list) waiting" where
  "diff_loop i pageIndex start wn env s =
     (if wn = None then Some (Returned (s, env))
      else do {
        n \<leftarrow> wn_get s wn;
        (if w_diffAddress n \<noteq> None then Some (Returned (s, env))
         else do {
           iv \<leftarrow> iv_get s (w_interval n);
           after \<leftarrow> (if start = None then Some 1
                     else do { st \<leftarrow> iv_get s start;
                               isAfterInterval (hostnum s) (Some (i_timestamp iv)) (Some (i_timestamp st)) });
           w \<leftarrow> (if after = 1 then request_diff i pageIndex (i_timestamp iv) env s
                 else Some (Returned (s, env)));
           (case w of Blocked t \<Rightarrow> Some (Blocked t)
            | Returned x \<Rightarrow> do { n \<leftarrow> wn_get (fst x) wn;
                               diff_loop i pageIndex start (w_nextInPage n) (snd x) (fst x) }) }) })"

fun diff_hosts :: "nat list \<Rightarrow> int \<Rightarrow> ptr \<Rightarrow> arrivals list \<Rightarrow> mem_st \<Rightarrow> (mem_st \<times> arrivals list) waiting" where
  "diff_hosts [] pageIndex start env s = Some (Returned (s, env))"
| "diff_hosts (i # is) pageIndex start env s =
     (if int i = myhostid s then diff_hosts is pageIndex start env s
      else do {
        h \<leftarrow> aidx (int i) MAX_HOST_NUM;
        w \<leftarrow> diff_loop (int i) pageIndex start (p_notices (pageArray s (nat pageIndex)) h) env s;
        on_return w (\<lambda>(s, env). diff_hosts is pageIndex start env s) })"

definition fetchDiff :: "int \<Rightarrow> arrivals list \<Rightarrow> mem_st \<Rightarrow> (int \<times> mem_st \<times> arrivals list) waiting" where
  "fetchDiff pageIndex env s =
     (if pageIndex < 0 \<or> pageIndex \<ge> int MAX_PAGE_NUM then Some (Returned (- 1, s, env))
      else if p_state (pageArray s (nat pageIndex)) \<noteq> INVALID then Some (Returned (- 1, s, env))
      else do {
        w \<leftarrow> diff_hosts [0..<nat (hostnum s)] pageIndex (p_startInterval (pageArray s (nat pageIndex))) env s;
        on_return w (\<lambda>(s, env). Some (Returned (0, s, env))) })"

section \<open>Fetching write notices\<close>

definition fetchWritenoticeAndInterval ::
    "int \<Rightarrow> arrivals list \<Rightarrow> mem_st \<Rightarrow> (int \<times> mem_st \<times> arrivals list) waiting" where
  "fetchWritenoticeAndInterval hostid env s =
     (if hostid < 0 \<or> hostid \<ge> hostnum s then Some (Returned (- 1, s, env))
      else if hostid = myhostid s then Some (Returned (- 1, s, env))
      else do {
        (r, s) \<leftarrow> new_msg hostid FETCH_WN_I s;
        now \<leftarrow> iv_get s (intervalNow s);
        (_, s) \<leftarrow> apendMsgData (Some r) (Some (ints_bytes (i_timestamp now))) (int (4 * MAX_HOST_NUM)) s;
        (_, s) \<leftarrow> sendMsg (Some r) (s\<lparr>fetchWNIWaitFlag := 1\<rparr>);
        w \<leftarrow> await fetchWNIWaitFlag env s;
        on_return w (\<lambda>(s, env). Some (Returned (0, s, env))) })"

section \<open>Page faults\<close>

text \<open>
  \<open>Exited\<close> is \<open>exit(1)\<close>. The division of C truncates; the page number is stored in an \<open>int\<close>.
\<close>

datatype fault = Exited | Resumed mem_st "arrivals list"

definition fault_page :: "int \<Rightarrow> int" where
  "fault_page faultaddress =
     (let addr = (if faultaddress smod int PAGESIZE = 0 then faultaddress
                  else (faultaddress sdiv int PAGESIZE) * int PAGESIZE)
      in s32 ((addr - int START_ADDRESS) sdiv int PAGESIZE))"

text \<open>The two last statements of the branches that fetch.\<close>

definition make_readable :: "int \<Rightarrow> mem_st \<Rightarrow> mem_st" where
  "make_readable pageIndex s =
     (let s = page_upd (nat pageIndex) (\<lambda>p. p\<lparr>p_state := RDONLY\<rparr>) s
      in vm_mprotect (p_address (pageArray s (nat pageIndex))) PROT_READ s)"

definition segv_handler :: "int \<Rightarrow> arrivals list \<Rightarrow> mem_st \<Rightarrow> fault waiting" where
  "segv_handler faultaddress env s =
     (let pageIndex = fault_page faultaddress in
      if pageIndex < 0 \<or> pageIndex \<ge> int MAX_PAGE_NUM then Some (Returned Exited)
      else case p_state (pageArray s (nat pageIndex)) of
        RDONLY \<Rightarrow> do { s \<leftarrow> write_fault pageIndex s; Some (Returned (Resumed s env)) }
      | MISS \<Rightarrow> do {
          w \<leftarrow> fetchPage pageIndex env s;
          on_return w (\<lambda>(_, s, env). Some (Returned (Resumed (make_readable pageIndex s) env))) }
      | WRITE \<Rightarrow> Some (Returned (Resumed s env))
      | INVALID \<Rightarrow> do {
          w \<leftarrow> fetchDiff pageIndex env s;
          on_return w (\<lambda>(_, s, env). Some (Returned (Resumed (make_readable pageIndex s) env))) }
      | UNMAP \<Rightarrow> Some (Returned Exited))"

end
