(* ===== verification/Api.thy ===== *)
theory Api
  imports Waiting
begin

text \<open>
  What a program calls: \<open>mi_lock\<close>, \<open>mi_unlock\<close> and \<open>mi_barrier\<close> of \<open>src/syn.c\<close>, \<open>mi_init\<close> and
  \<open>initLocalEnv\<close> of \<open>src/init.c\<close>. Where the flag is set only after the state has been changed, the
  argument \<open>early\<close> holds the deliveries of SIGIO that come in between.
\<close>

section \<open>Locks\<close>

text \<open>
  In the branch for a lock this host manages the assignments \<open>result = 0\<close> go to an inner variable of
  the same name: what is returned is the outer \<open>result\<close>, which is never set; its value is that of
  the stack, here behind the 20 bytes of \<open>buffer\<close>.
\<close>

definition stack_int :: "'a net_st_scheme \<Rightarrow> int" where
  "stack_int s = peek_int (junk s) 20"

text \<open>The end of both branches of \<open>mi_lock\<close> that wait: fetch from the last holder. The second branch
  starts an interval if there is none.\<close>

definition fetch_from_last :: "bool \<Rightarrow> arrivals list \<Rightarrow> mem_st \<Rightarrow> (mem_st \<times> arrivals list) waiting" where
  "fetch_from_last fresh env s =
     (if lasthostid s \<noteq> - 1 \<and> lasthostid s \<noteq> myhostid s then do {
        w \<leftarrow> fetchWritenoticeAndInterval (lasthostid s) env s;
        on_return w (\<lambda>(_, s, env). Some (Returned (s\<lparr>lasthostid := - 1\<rparr>, env))) }
      else if fresh then do { s \<leftarrow> addNewInterval s; Some (Returned (s, env)) }
      else Some (Returned (s, env)))"

definition lock_local ::
    "int \<Rightarrow> arrivals list \<Rightarrow> arrivals list \<Rightarrow> mem_st \<Rightarrow> (int \<times> mem_st \<times> arrivals list) waiting" where
  "lock_local lockno early env s =
     do { (result, s) \<leftarrow> graspLock lockno (myhostid s) s;
          (if result = - 3 then do {
             s \<leftarrow> interrupts early s;
             w \<leftarrow> await waitFlag env (s\<lparr>waitFlag := 1\<rparr>);
             on_return w (\<lambda>(s, env). do {
               w \<leftarrow> fetch_from_last False env s;
               on_return w (\<lambda>(s, env). Some (Returned (stack_int s, s, env))) }) }
           else if result \<ge> - 1 then do {
             w \<leftarrow> (if result \<noteq> - 1 \<and> result \<noteq> myhostid s then fetchWritenoticeAndInterval result env s
                   else do { s \<leftarrow> addNewInterval s; Some (Returned (0, s, env)) });
             on_return w (\<lambda>(_, s, env).
               Some (Returned (stack_int s, s\<lparr>myLocks := (myLocks s)(nat lockno := 1)\<rparr>, env))) }
           else Some (Returned (stack_int s, s, env))) }"

text \<open>The request to the manager.\<close>

definition lock_msg :: "int \<Rightarrow> int \<Rightarrow> command_t \<Rightarrow> mem_st \<Rightarrow> (msgref \<times> mem_st) option" where
  "lock_msg mgr lockno cmd s =
     do { (r, s) \<leftarrow> new_msg mgr cmd s;
          (_, s) \<leftarrow> apendMsgData (Some r) (Some (sprintf_buffer lockno (junk s))) 4 s;
          Some (r, s) }"

definition lock_remote :: "int \<Rightarrow> int \<Rightarrow> arrivals list \<Rightarrow> mem_st \<Rightarrow> (int \<times> mem_st \<times> arrivals list) waiting" where
  "lock_remote mgr lockno env s =
     do { (r, s) \<leftarrow> lock_msg mgr lockno ACQ_LOCK s;
          (_, s) \<leftarrow> sendMsg (Some r) (s\<lparr>waitFlag := 1\<rparr>);
          w \<leftarrow> await waitFlag env s;
          on_return w (\<lambda>(s, env). do {
            w \<leftarrow> fetch_from_last True env s;
            on_return w (\<lambda>(s, env). Some (Returned (0, s, env))) }) }"

definition mi_lock ::
    "int \<Rightarrow> arrivals list \<Rightarrow> arrivals list \<Rightarrow> mem_st \<Rightarrow> (int \<times> mem_st \<times> arrivals list) waiting" where
  "mi_lock lockno early env s =
     (if lockno < 0 \<or> lockno \<ge> int LOCK_NUM then Some (Returned (- 1, s, env))
      else if myLocks s (nat lockno) = 1 then Some (Returned (- 2, s, env))
      else do {
        mgr \<leftarrow> crem lockno (hostnum s);
        (if mgr = myhostid s then lock_local lockno early env s else lock_remote mgr lockno env s) })"

definition mi_unlock :: "int \<Rightarrow> mem_st \<Rightarrow> (int \<times> mem_st) option" where
  "mi_unlock lockno s =
     (if lockno < 0 \<or> lockno \<ge> int LOCK_NUM then Some (- 1, s)
      else if myLocks s (nat lockno) = 0 then Some (- 2, s)
      else do {
        s \<leftarrow> addNewInterval s;
        mgr \<leftarrow> crem lockno (hostnum s);
        (if mgr = myhostid s then do {
           (result, s) \<leftarrow> freeLock lockno (myhostid s) (s\<lparr>myLocks := (myLocks s)(nat lockno := 0)\<rparr>);
           s \<leftarrow> (if result \<noteq> - 5 \<and> result \<ge> 0 \<and> result \<noteq> myhostid s then grantLock lockno result s else Some s);
           Some (stack_int s, s) }
         else do {
           (r, s) \<leftarrow> lock_msg mgr lockno RLS_LOCK s;
           (_, s) \<leftarrow> sendMsg (Some r) s;
           Some (0, s\<lparr>myLocks := (myLocks s)(nat lockno := 0)\<rparr>) }) })"

section \<open>Barriers\<close>

definition mi_barrier :: "arrivals list \<Rightarrow> arrivals list \<Rightarrow> mem_st \<Rightarrow> (mem_st \<times> arrivals list) waiting" where
  "mi_barrier early env s =
     (if myhostid s = 0 then do {
        now \<leftarrow> iv_get s (intervalNow s);
        ts \<leftarrow> set_ts (hostnum s) (i_timestamp now) (barrierTimestamps s 0);
        (result, s) \<leftarrow> checkBarrierFlags (s\<lparr>barrierFlags := (barrierFlags s)(0 := 1),
                                           barrierTimestamps := (barrierTimestamps s)(0 := ts)\<rparr>);
        (if result = 0 then Some (Returned (s, env))
         else do { s \<leftarrow> interrupts early s; await waitFlag env (s\<lparr>waitFlag := 1\<rparr>) }) }
      else do {
        s \<leftarrow> sendEnterBarrierInfo s;
        (r, s) \<leftarrow> new_msg 0 ENTER_BARRIER s;
        (_, s) \<leftarrow> sendMsg (Some r) (s\<lparr>waitFlag := 1\<rparr>);
        await waitFlag env s })"

section \<open>Start-up\<close>

text \<open>\<open>file\<close> is the content of \<open>.mihosts\<close>, \<open>pw_name\<close> the name \<open>getpwuid\<close> finds for the user; the two
  lists hold the descriptors \<open>socket\<close> returns.\<close>

definition initLocalEnv ::
    "string list option \<Rightarrow> string \<Rightarrow> (int \<times> int) list \<Rightarrow> (int \<times> int) list \<Rightarrow> mem_st \<Rightarrow> mem_st option" where
  "initLocalEnv file pw_name data_fds ack_fds s =
     do { s \<leftarrow> readHosts file s;
          h \<leftarrow> findHostIdByName (Some pw_name) s;
          s \<leftarrow> initnet data_fds ack_fds (s\<lparr>myhostid := h\<rparr>);
          initmem (initsyn s) }"

text \<open>\<open>mi_init\<close>: \<open>argv\<close> as the list of its strings, or NULL. The result is the state and the commands
  that are run; \<open>Inl\<close> is \<open>exit(1)\<close>.\<close>

definition mi_init ::
    "int \<Rightarrow> string list option \<Rightarrow> string list option \<Rightarrow> string \<Rightarrow> (int \<times> int) list \<Rightarrow> (int \<times> int) list \<Rightarrow>
      mem_st \<Rightarrow> (int + (mem_st \<times> string list)) option" where
  "mi_init argc argv file pw_name data_fds ack_fds s =
     (if argc \<le> 0 \<or> argv = None \<or> argv = Some [] then Some (Inl 1)
      else do {
        s \<leftarrow> initLocalEnv file pw_name data_fds ack_fds s;
        cmds \<leftarrow> (if myhostid s = 0 then startNodePrograms (hd (the argv)) s else Some []);
        Some (Inr (s, cmds)) })"

section \<open>Time\<close>

text \<open>\<open>current_time\<close> of \<open>src/util.c\<close>: \<open>sec\<close> and \<open>usec\<close> come from \<open>gettimeofday\<close>, the state is
  \<open>start_sec\<close> and \<open>start_msec\<close>; all values are \<open>unsigned long\<close>.\<close>

record util_st =
  start_sec :: "64 word"
  start_msec :: "64 word"

definition current_time :: "64 word \<Rightarrow> 64 word \<Rightarrow> util_st \<Rightarrow> 64 word \<times> util_st" where
  "current_time sec usec u =
     (let u = (if start_sec u = 0 then u\<lparr>start_sec := sec, start_msec := usec div 1000\<rparr> else u)
      in (1000 * (sec - start_sec u) + (usec div 1000 - start_msec u), u))"

end
