(* ===== verification/Faults.thy ===== *)
theory Faults
  imports Api
begin

text \<open>
  The delivery of one message to a waiting program, and what the requests of the fault handler do:
  the host \<open>fetchPage\<close> asks, the reply, and the state in which the program resumes.
\<close>

section \<open>One delivery\<close>

definition deliver :: "nat \<Rightarrow> mimsg_t \<Rightarrow> arrivals" where
  "deliver i m = (\<lambda>_. None)(i := Some (Some m))"

text \<open>What the machinery around a handler changes: the receiving queue, the counters, the signal mask.\<close>

definition idle_frame :: "mem_st \<Rightarrow> mem_st \<Rightarrow> bool" where
  "idle_frame s t \<longleftrightarrow> t = s\<lparr>recvQueue := recvQueue t, recvHead := recvHead t, recvTail := recvTail t,
     recvQueueSize := recvQueueSize t, datamanager := datamanager t, acks_out := acks_out t,
     isSigioDisabled := isSigioDisabled t\<rparr>"

lemma idle_frame_refl [simp]: "idle_frame s s"
  by (simp add: idle_frame_def)

lemma idle_frameE:
  assumes "idle_frame s t"
  obtains a b c d e f g where "t = s\<lparr>recvQueue := a, recvHead := b, recvTail := c, recvQueueSize := d,
    datamanager := e, acks_out := f, isSigioDisabled := g\<rparr>"
  using assms unfolding idle_frame_def by (rule that)

lemma idle_frame_trans: "idle_frame s t \<Longrightarrow> idle_frame t u \<Longrightarrow> idle_frame s u"
  by (cases s; cases t; cases u) (simp add: idle_frame_def)

lemma idle_frame_fields:
  assumes "idle_frame s t"
  shows "same_mem s t" "quiet t = quiet s" "wire t = wire s" "locks t = locks s" "waitFlag t = waitFlag s"
    "myLocks t = myLocks s" "lasthostid t = lasthostid s" "barrierFlags t = barrierFlags s"
    "fetchPageWaitFlag t = fetchPageWaitFlag s" "fetchDiffWaitFlag t = fetchDiffWaitFlag s"
    "fetchWNIWaitFlag t = fetchWNIWaitFlag s" "junk t = junk s" "ackPorts t = ackPorts s" "dataPorts t = dataPorts s"
  using assms by (cases s; cases t; simp add: idle_frame_def same_mem_def quiet_def snd_ok_def)+

definition settled :: "mem_st \<Rightarrow> mem_st" where
  "settled t = enableSigio (snd (msgDequeue 1 t))"

lemma idle_settled [simp]: "idle_frame t (settled t)"
  by (simp add: idle_frame_def settled_def enableSigio_def msgDequeue_def)

lemma read_idle: "read_frame (disableSigio s) u \<Longrightarrow> idle_frame s u"
  by (cases s; cases u) (simp add: read_frame_def idle_frame_def disableSigio_def)

text \<open>A host that is ready to receive.\<close>

definition receptive :: "mem_st \<Rightarrow> bool" where
  "receptive s \<longleftrightarrow> recv_ok s \<and> recvQueueSize s = 0 \<and> in_hosts (myhostid s)"

lemma recv_frame_receptive: "recv_frame s t \<Longrightarrow> receptive t = receptive s"
  by (simp add: receptive_def recv_frame_def recv_ok_def)

lemma arrived_deliver:
  assumes "i < MAX_HOST_NUM" "int i \<noteq> h"
  shows "arrived (deliver i m) h [0..<MAX_HOST_NUM] = [(i, m)]"
proof -
  have split: "[0..<MAX_HOST_NUM] = [0..<i] @ i # [Suc i..<MAX_HOST_NUM]"
    using assms(1) by (metis append_Cons append_Nil le_add_diff_inverse less_imp_le upt_add_eq_append upt_conv_Cons zero_le)
  have none: "arrived (deliver i m) h is = []" if "i \<notin> set is" for "is"
    using that by (induction "is") (auto simp: arrived_def deliver_def)
  have mid: "arrived (deliver i m) h [i] = [(i, m)]" using assms(2) by (simp add: arrived_def deliver_def)
  have "arrived (deliver i m) h ([0..<i] @ i # [Suc i..<MAX_HOST_NUM]) =
      arrived (deliver i m) h [0..<i] @ arrived (deliver i m) h [i] @ arrived (deliver i m) h [Suc i..<MAX_HOST_NUM]"
    by (simp add: arrived_def)
  also have "\<dots> = [(i, m)]" by (simp add: mid none)
  finally show ?thesis unfolding split .
qed

lemma sigio_deliver:
  assumes "receptive s" "i < MAX_HOST_NUM" "int i \<noteq> myhostid s" "in_hosts (m_from m)"
  shows "\<exists>u. idle_frame s u \<and> (\<forall>t. dispatchMsg (Some m) u = Some t \<longrightarrow>
    sigio_handler (deliver i m) s = Some (settled t) \<and> receptive (settled t))"
proof -
  have s: "recv_ok s" "recvQueueSize s = 0" "in_hosts (myhostid s)" using assms(1) by (simp_all add: receptive_def)
  have in_m: "in_hosts (m_from m')" if "deliver i m j = Some (Some m')" for j m'
    using that assms(4) by (auto simp: deliver_def split: if_split_asm)
  obtain u where u: "read_frame (disableSigio s) u" "recv_ok u" "recv_items u = [m]"
    "sigio_handler (deliver i m) s = map_option enableSigio (serve [m] u)"
    using sigio_run [of s "deliver i m", OF s] in_m
    unfolding Let_def arrived_deliver [OF assms(2,3), of m] by auto
  have n: "recvQueueSize u = length [m]" unfolding u(3) [symmetric] by (simp add: recv_items_def)
  have "sigio_handler (deliver i m) s = Some (settled t) \<and> receptive (settled t)"
    if t: "dispatchMsg (Some m) u = Some t" for t
  proof -
    have v: "serve [m] u = Some (snd (msgDequeue 1 t))" using t by simp
    from serve_frame [OF v u(2) n] read_frame_fields [OF u(1)] s(3)
    show ?thesis
      using u(4) v by (auto simp: settled_def receptive_def enableSigio_def recv_ok_def disableSigio_def)
  qed
  with read_idle [OF u(1)] show ?thesis by blast
qed

lemma await_deliver:
  assumes "sigio_handler a s = Some t" "flag s \<noteq> 0" "flag t = 0"
  shows "await flag (a # env) s = Some (Returned (t, env))"
  using assms by (cases env) auto

section \<open>The host that is asked for a page\<close>

text \<open>The newest notice of a host for the page, by host and timestamp.\<close>

definition newest_notices :: "(nat \<Rightarrow> nat \<Rightarrow> nat list) \<Rightarrow> mem_st \<Rightarrow> nat \<Rightarrow> nat list \<Rightarrow> (int \<times> timestamp) list" where
  "newest_notices P s k is =
     map (\<lambda>i. (int i, notice_ts s (hd (P k i)))) (filter (\<lambda>i. int i \<noteq> myhostid s \<and> P k i \<noteq> []) is)"

lemma newest_notice:
  assumes ok: "mem_ok L W P s" and k: "k < MAX_PAGE_NUM" and i: "i < MAX_HOST_NUM"
  shows "p_notices (pageArray s k) i = None \<longleftrightarrow> P k i = []"
    and "P k i \<noteq> [] \<Longrightarrow> p_notices (pageArray s k) i = Some (hd (P k i))"
  using links_chain_page [OF mem_ok_simps(2) [OF ok] k i] by (cases "P k i"; simp)+

lemma has_notice_eq:
  assumes ok: "mem_ok L W P s" and k: "k < MAX_PAGE_NUM" and "\<forall>i\<in>set is. i < MAX_HOST_NUM"
  shows "has_notice is k b s = Some (if newest_notices P s k is = [] then b else 1)"
  using assms(3) newest_notice(1) [OF ok k]
  by (induction "is" arbitrary: b) (auto simp: newest_notices_def simp del: not_None_eq)

lemma latest_host_eq:
  assumes ok: "mem_ok L W P s" and k: "k < MAX_PAGE_NUM" and "\<forall>i\<in>set is. i < MAX_HOST_NUM"
    and "case p of None \<Rightarrow> best = None
      | Some j \<Rightarrow> j < length (ivals s) \<and> best = Some (h, i_timestamp (ivals s ! j))"
  shows "\<exists>q g. latest_host is k (p, h) s = Some (q, g) \<and>
    (case pick_latest (ts_after (nat (hostnum s))) best (newest_notices P s k is) of
       None \<Rightarrow> True | Some x \<Rightarrow> g = fst x)"
  using assms(3,4)
proof (induction "is" arbitrary: p h best)
  case Nil
  then show ?case by (auto simp: newest_notices_def split: option.splits)
next
  case (Cons i "is")
  have i: "i < MAX_HOST_NUM" using Cons.prems(1) by simp
  have "is": "\<forall>i\<in>set is. i < MAX_HOST_NUM" using Cons.prems(1) by simp
  show ?case
  proof (cases "int i \<noteq> myhostid s \<and> P k i \<noteq> []")
    case False
    then have "latest_host (i # is) k (p, h) s = latest_host is k (p, h) s"
      using i newest_notice(1) [OF ok k i] by auto
    moreover have "newest_notices P s k (i # is) = newest_notices P s k is"
      using False by (auto simp: newest_notices_def)
    ultimately show ?thesis using Cons.IH [OF "is" Cons.prems(2)] by simp
  next
    case True
    let ?w = "hd (P k i)" and ?n = "nat (hostnum s)"
    have w: "?w \<in> set (P k i)" "p_notices (pageArray s k) i = Some ?w"
      using True newest_notice(2) [OF ok k i] by auto
    obtain j where j: "j < length (ivals s)" "w_interval (wns s ! ?w) = Some j"
      "notice_ts s ?w = i_timestamp (ivals s ! j)"
      using notice_ts_ok(2) [OF ok k i w(1)] by auto
    have get: "wn_get s (Some ?w) = Some (wns s ! ?w)" "iv_get s (Some j) = Some (ivals s ! j)"
      using notice_ts_ok(1) [OF ok k i w(1)] j by (simp_all add: wn_get_def iv_get_def)
    have news: "newest_notices P s k (i # is) = (int i, notice_ts s ?w) # newest_notices P s k is"
      using True by (simp add: newest_notices_def)
    have tsl: "length (i_timestamp (ivals s ! m)) = MAX_HOST_NUM" if "m < length (ivals s)" for m
      using ok that by (simp add: mem_ok_def ts_ok_def)
    have hn: "0 \<le> hostnum s" "hostnum s \<le> int MAX_HOST_NUM"
      using ok by (auto simp: mem_ok_def host_ok_def)
    show ?thesis
    proof (cases p)
      case None
      have "latest_host (i # is) k (p, h) s = latest_host is k (Some j, int i) s"
        using True i w(2) get j(2) None by simp
      moreover have "best = None" using Cons.prems(2) None by simp
      ultimately show ?thesis using Cons.IH [OF "is", where p = "Some j" and best = "Some (int i, notice_ts s ?w)" and h = "int i"] news j by simp
    next
      case (Some m)
      with Cons.prems(2) have m: "m < length (ivals s)" "best = Some (h, i_timestamp (ivals s ! m))" by simp_all
      let ?a = "ts_after ?n (notice_ts s ?w) (i_timestamp (ivals s ! m))"
      have "isAfterInterval (hostnum s) (Some (i_timestamp (ivals s ! j))) (Some (i_timestamp (ivals s ! m))) =
          Some (if ?a then 1 else 0)"
        using isAfterInterval_eq [of "hostnum s"] hn tsl [OF j(1)] tsl [OF m(1)] j(3) by simp
      moreover have "iv_get s (Some m) = Some (ivals s ! m)" using m by (simp add: iv_get_def)
      ultimately have "latest_host (i # is) k (p, h) s = latest_host is k (if ?a then (Some j, int i) else (p, h)) s"
        using True i w(2) get j(2) Some by simp
      then show ?thesis
        using Cons.IH [OF "is", where p = "Some j" and best = "Some (int i, notice_ts s ?w)" and h = "int i"]
          Cons.IH [OF "is" Cons.prems(2)] news j m by (cases ?a) simp_all
    qed
  qed
qed

lemma fill_flags:
  "(fill s m)\<lparr>fetchPageWaitFlag := x\<rparr> = fill (s\<lparr>fetchPageWaitFlag := x\<rparr>) m"
  "(fill s m)\<lparr>fetchDiffWaitFlag := x\<rparr> = fill (s\<lparr>fetchDiffWaitFlag := x\<rparr>) m"
  "(fill s m)\<lparr>fetchWNIWaitFlag := x\<rparr> = fill (s\<lparr>fetchWNIWaitFlag := x\<rparr>) m"
  "(fill s m)\<lparr>waitFlag := x\<rparr> = fill (s\<lparr>waitFlag := x\<rparr>) m"
  by (simp_all add: fill_def)

text \<open>The host to ask: the original holder if nobody has written to the page, otherwise a writer none
  of the others has written after.\<close>

definition page_source :: "(nat \<Rightarrow> nat \<Rightarrow> nat list) \<Rightarrow> mem_st \<Rightarrow> nat \<Rightarrow> int \<Rightarrow> bool" where
  "page_source P s k h =
     (let news = newest_notices P s k [0..<nat (hostnum s)] in
      if news = [] then h = int k mod hostnum s
      else \<exists>t. (h, t) \<in> set news \<and> (\<forall>x\<in>set news. \<not> ts_after (nat (hostnum s)) (snd x) t))"

lemma page_source_host: "page_source P s k h \<Longrightarrow> 0 < hostnum s \<Longrightarrow> 0 \<le> h \<and> h < hostnum s"
  by (auto simp: page_source_def newest_notices_def Let_def split: if_split_asm)

lemma fetchPage_sends:
  assumes ok: "mem_ok L W P s" and q: "quiet s" and k: "k < MAX_PAGE_NUM"
    and st: "p_state (pageArray s k) = MISS"
  shows "\<exists>h t. page_source P s k h \<and>
    (\<forall>env. fetchPage (int k) env s = Option.bind (await fetchPageWaitFlag env t)
       (\<lambda>w. on_return w (\<lambda>(s, env). Some (Returned (0, s, env))))) \<and>
    quiet t \<and> net_frame (s\<lparr>fetchPageWaitFlag := 1\<rparr>) t \<and>
    sent (wire s) (wire t) [sent_msg s h FETCH_PAGE no_ts (int_bytes (int k))]"
proof -
  let ?is = "[0..<nat (hostnum s)]" and ?s = "s\<lparr>fetchPageWaitFlag := 1\<rparr>"
  have host: "host_ok s" using ok by (simp add: mem_ok_def)
  then have hn: "0 < hostnum s" "\<forall>i\<in>set ?is. i < MAX_HOST_NUM" by (auto simp: host_ok_def)
  obtain h where h: "page_source P s k h"
    "(if newest_notices P s k ?is = [] then crem (int k) (hostnum s)
      else map_option snd (latest_host ?is k (None, 0) s)) = Some h"
  proof (cases "newest_notices P s k ?is = []")
    case True
    then show ?thesis using that hn by (simp add: page_source_def crem_nonneg)
  next
    case False
    obtain q g where qg: "latest_host ?is k (None, 0) s = Some (q, g)"
      "case pick_latest (ts_after (nat (hostnum s))) None (newest_notices P s k ?is) of
         None \<Rightarrow> True | Some x \<Rightarrow> g = fst x"
      using latest_host_eq [OF ok k hn(2), where p = None and best = None and h = 0] by auto
    obtain x where "pick_latest (ts_after (nat (hostnum s))) None (newest_notices P s k ?is) = Some x"
      "x \<in> set (newest_notices P s k ?is)"
      "\<forall>y\<in>set (newest_notices P s k ?is). \<not> ts_after (nat (hostnum s)) (snd y) (snd x)"
      using ts.pick_latest_maximal [OF False] by blast
    with qg False show ?thesis by (intro that [of g]) (auto simp: page_source_def Let_def intro!: exI [of _ "snd x"])
  qed
  have hh: "in_hosts h" "in_hosts (myhostid s)"
    using in_hosts_host [OF host] in_hosts_me [OF host] page_source_host [OF h(1) hn(1)] by auto
  obtain t where t: "sendMsg (Some (SndSlot (sndTail s))) (fill ?s (packed (myhostid s) h FETCH_PAGE no_ts (int_bytes (int k)))) = Some (0, t)"
    "quiet t" "net_frame ?s t" "sent (wire s) (wire t) [sent_msg ?s h FETCH_PAGE no_ts (int_bytes (int k))]"
    using send_fill [of ?s h "int_bytes (int k)" FETCH_PAGE no_ts] q hh by (auto simp: size_consts)
  have "fetchPage (int k) env s = Option.bind (await fetchPageWaitFlag env t)
      (\<lambda>w. on_return w (\<lambda>(s, env). Some (Returned (0, s, env))))" for env
  proof -
    have asked: "Option.bind (has_notice ?is k 0 s) (\<lambda>b. if b = 0 then crem (int k) (hostnum s)
        else map_option snd (latest_host ?is k (None, 0) s)) = Some h"
      using h(2) by (cases "newest_notices P s k ?is = []") (simp_all add: has_notice_eq [OF ok k hn(2)])
    have msg: "new_msg h FETCH_PAGE s = Some (SndSlot (sndTail s), fill s (packed (myhostid s) h FETCH_PAGE no_ts []))"
      "apendMsgData (Some (SndSlot (sndTail s))) (Some (int_bytes (int k))) 4
         (fill s (packed (myhostid s) h FETCH_PAGE no_ts [])) =
       Some (0, fill s (packed (myhostid s) h FETCH_PAGE no_ts (int_bytes (int k))))"
      using new_msg_fill [OF q] append_fill_int [of "[]" s] by (simp_all add: size_consts)
    have "fetchPage (int k) env s = Option.bind (Option.bind (has_notice ?is k 0 s) (\<lambda>b. if b = 0 then crem (int k) (hostnum s)
        else map_option snd (latest_host ?is k (None, 0) s))) (\<lambda>h. do {
        (r, s) \<leftarrow> new_msg h FETCH_PAGE s;
        (_, s) \<leftarrow> apendMsgData (Some r) (Some (int_bytes (int k))) 4 s;
        (_, s) \<leftarrow> sendMsg (Some r) (s\<lparr>fetchPageWaitFlag := 1\<rparr>);
        w \<leftarrow> await fetchPageWaitFlag env s;
        on_return w (\<lambda>(s, env). Some (Returned (0, s, env))) })"
      using k st by (simp add: fetchPage_def Option.bind_assoc cong: if_cong)
    also have "\<dots> = Option.bind (await fetchPageWaitFlag env t)
        (\<lambda>w. on_return w (\<lambda>(s, env). Some (Returned (0, s, env))))"
      unfolding asked by (simp add: msg fill_flags t(1))
    finally show ?thesis .
  qed
  moreover have "sent_msg ?s h FETCH_PAGE no_ts (int_bytes (int k)) = sent_msg s h FETCH_PAGE no_ts (int_bytes (int k))"
    by (simp add: sent_msg_def)
  ultimately show ?thesis using h(1) t(2-4) by auto
qed

section \<open>The reply\<close>

lemma net_frame_receptive: "net_frame s t \<Longrightarrow> receptive t = receptive s"
  by (cases s; cases t) (simp add: net_frame_def receptive_def recv_ok_def)

lemma receptive_flags [simp]:
  "receptive (s\<lparr>fetchPageWaitFlag := x\<rparr>) = receptive s" "receptive (s\<lparr>fetchDiffWaitFlag := x\<rparr>) = receptive s"
  "receptive (s\<lparr>fetchWNIWaitFlag := x\<rparr>) = receptive s" "receptive (s\<lparr>waitFlag := x\<rparr>) = receptive s"
  "receptive (s\<lparr>lasthostid := x\<rparr>) = receptive s" "receptive (s\<lparr>myLocks := y\<rparr>) = receptive s"
  "receptive (s\<lparr>locks := l\<rparr>) = receptive s" "receptive (s\<lparr>barrierFlags := f\<rparr>) = receptive s"
  by (simp_all add: receptive_def recv_ok_def)

lemma same_mem_flags [simp]:
  "same_mem s (s\<lparr>fetchPageWaitFlag := x\<rparr>)" "same_mem s (s\<lparr>fetchDiffWaitFlag := x\<rparr>)"
  "same_mem s (s\<lparr>fetchWNIWaitFlag := x\<rparr>)" "same_mem s (s\<lparr>waitFlag := x\<rparr>)"
  "same_mem s (s\<lparr>lasthostid := x\<rparr>)" "same_mem s (s\<lparr>myLocks := y\<rparr>)" "same_mem s (s\<lparr>locks := l\<rparr>)"
  by (simp_all add: same_mem_def)

lemma idle_make_readable: "idle_frame s t \<Longrightarrow> idle_frame (make_readable k s) (make_readable k t)"
proof (erule idle_frameE)
  fix a b c d e f g
  assume t: "t = s\<lparr>recvQueue := a, recvHead := b, recvTail := c, recvQueueSize := d, datamanager := e,
      acks_out := f, isSigioDisabled := g\<rparr>"
  show "idle_frame (make_readable k s) (make_readable k t)"
    unfolding t by (simp add: idle_frame_def make_readable_def page_upd_def vm_mprotect_def Let_def split: option.split)
qed

lemma make_readable_eq:
  "p_address (pageArray s k) = page_addr k \<Longrightarrow>
    make_readable (int k) s = vm_mprotect (page_addr k) PROT_READ (page_upd k (\<lambda>p. p\<lparr>p_state := RDONLY\<rparr>) s)"
  by (simp add: make_readable_def page_upd_def)

lemma sdiv_nonneg: "0 \<le> a \<Longrightarrow> 0 < b \<Longrightarrow> (a::int) sdiv b = a div b"
  by (cases "a = 0") (auto simp: signed_divide_int_def)

text \<open>The page number of an address in the shared region.\<close>

lemma fault_page_eq:
  assumes "k < MAX_PAGE_NUM" "off < PAGESIZE"
  shows "fault_page (page_addr k + int off) = int k"
proof -
  let ?a = "page_addr k + int off"
  have base: "page_addr k = int PAGESIZE * (int k + 393216)"
    by (simp add: page_addr_def START_ADDRESS_def PAGESIZE_def)
  have d: "?a div int PAGESIZE = int k + 393216" "?a mod int PAGESIZE = int off"
    unfolding base using assms(2) by simp_all
  have pos: "0 \<le> ?a" unfolding base by simp
  have "(if ?a smod int PAGESIZE = 0 then ?a else ?a sdiv int PAGESIZE * int PAGESIZE) = page_addr k"
    using pos d base by (simp add: smod_nonneg sdiv_nonneg)
  then have "fault_page ?a = s32 ((page_addr k - int START_ADDRESS) sdiv int PAGESIZE)"
    by (simp only: fault_page_def Let_def)
  also have "(page_addr k - int START_ADDRESS) sdiv int PAGESIZE = int k"
    by (simp add: page_addr_def sdiv_nonneg)
  also have "s32 (int k) = int k" using assms(1) by (simp add: s32_def size_consts)
  finally show ?thesis .
qed

text \<open>The page that was asked for arrives while the program waits.\<close>

lemma page_arrives:
  assumes ok: "mem_ok L W P s" and q: "quiet s" and r: "receptive s" and k: "k < MAX_PAGE_NUM"
    and st: "p_state (pageArray s k) = MISS" and flag: "fetchPageWaitFlag s \<noteq> 0"
    and i: "i < MAX_HOST_NUM" "int i \<noteq> myhostid s" and bs: "length bs = PAGESIZE"
    and m: "m_command m = cmd_code GRANT_PAGE" "in_hosts (m_from m)" "m_data m = poke (\<lambda>_. 0) 0 (int_bytes (int k) @ bs)"
  shows "\<exists>t. await fetchPageWaitFlag (deliver i m # env) s = Some (Returned (t, env)) \<and> receptive t \<and> quiet t \<and>
    wire t = wire s \<and> mem_ok L W P (make_readable (int k) t) \<and>
    vm (make_readable (int k) t) = (vm s)(page_addr k \<mapsto> (PROT_READ, bs))"
proof -
  obtain u where u: "idle_frame s u" "\<And>t. dispatchMsg (Some m) u = Some t \<Longrightarrow>
      sigio_handler (deliver i m) s = Some (settled t) \<and> receptive (settled t)"
    using sigio_deliver [OF r i m(2)] by blast
  note f = idle_frame_fields [OF u(1)]
  have uk: "mem_ok L W P u" "p_state (pageArray u k) = MISS" "vm u = vm s"
    using ok st mem_ok_same_mem [OF f(1)] f(1) by (simp_all add: same_mem_def)
  obtain t where t: "handleGrantPageMsg (Some m) u = Some t" "fetchPageWaitFlag t = 0"
    "mem_ok L W P (vm_mprotect (page_addr k) PROT_READ (page_upd k (\<lambda>p. p\<lparr>p_state := RDONLY\<rparr>) t))"
    "vm t = (vm u)(page_addr k \<mapsto> (PROT_READ_WRITE, bs))"
    "t = u\<lparr>vm := vm t, pageArray := (pageArray u)(k := (pageArray u k)\<lparr>p_startInterval := intervalNow u\<rparr>),
      fetchPageWaitFlag := 0\<rparr>"
    using handleGrantPage_ok [OF uk(1) k uk(2) bs m(3)] by blast
  have d: "dispatchMsg (Some m) u = Some t"
    using t(1) by (simp add: dispatch_cmd(8) [OF m(1)])
  have addr: "p_address (pageArray t k) = page_addr k"
    using mem_ok_simps(3) [OF uk(1) k] uk(2) by (subst t(5)) (simp add: page_ok_def Let_def)
  have s': "idle_frame t (settled t)" by simp
  note g = idle_frame_fields [OF s'] and h = idle_frame_fields [OF idle_make_readable [OF s', of "int k"]]
  have "mem_ok L W P (make_readable (int k) (settled t))"
    using t(3) mem_ok_same_mem [OF h(1)] by (simp add: make_readable_eq [OF addr])
  moreover have "vm (make_readable (int k) (settled t)) = (vm s)(page_addr k \<mapsto> (PROT_READ, bs))"
    using h(1) t(4) uk(3) by (simp add: same_mem_def make_readable_eq [OF addr] vm_mprotect_def page_upd_def)
  moreover have "quiet (settled t)" "wire (settled t) = wire s"
  proof -
    have "quiet t = quiet u" "wire t = wire u"
      using arg_cong [OF t(5), of quiet] arg_cong [OF t(5), of wire] by (simp_all add: quiet_def snd_ok_def)
    then show "quiet (settled t)" "wire (settled t) = wire s" by (simp_all add: f(2,3) g(2,3) q)
  qed
  moreover have "await fetchPageWaitFlag (deliver i m # env) s = Some (Returned (settled t, env))"
    by (rule await_deliver [where flag = fetchPageWaitFlag, OF conjunct1 [OF u(2) [OF d]] flag]) (simp add: g(9) t(2))
  ultimately show ?thesis using u(2) [OF d] by blast
qed

text \<open>The host that is asked, and what its answer holds.\<close>

lemma page_granted:
  fixes h :: int
  assumes "mem_ok L W P g" "quiet g" "host_ok s" "hostnum g = hostnum s" "myhostid g \<noteq> myhostid s" "k < MAX_PAGE_NUM"
    and "vm g (page_addr k) = Some (pr, bs)" "p_state (pageArray g k) = RDONLY \<or> p_state (pageArray g k) = WRITE"
  defines "request \<equiv> snd (snd (sent_msg s h FETCH_PAGE no_ts (int_bytes (int k))))"
    and "reply \<equiv> sent_msg g (myhostid s) GRANT_PAGE no_ts (int_bytes (int k) @ bs)"
  shows "\<exists>g'. handleFetchPageMsg request g = Some g' \<and> sent (wire g) (wire g') [reply]" "length bs = PAGESIZE"
    "m_command (snd (snd reply)) = cmd_code GRANT_PAGE" "in_hosts (m_from (snd (snd reply)))"
    "m_data (snd (snd reply)) = poke (\<lambda>_. 0) 0 (int_bytes (int k) @ bs)"
proof -
  have hg: "host_ok g" using assms(1) by (simp add: mem_ok_def)
  have me: "0 \<le> myhostid s" "myhostid s < hostnum g" "myhostid s \<noteq> myhostid g"
    using assms(3-5) by (auto simp: host_ok_def)
  obtain g' where g': "grantPage (myhostid s) (int k) g = Some (0, g')" "sent (wire g) (wire g') [reply]"
    using grantPage_sends [OF assms(1,2) me assms(6-8)] unfolding reply_def by auto
  have "in32 (int k)" using assms(6) by (simp add: in32_def size_consts)
  then have "handleFetchPageMsg request g = Some g'"
    using g'(1) by (simp add: request_def handleFetchPageMsg_def sent_msg_def peek_int_packed)
  then show "\<exists>g'. handleFetchPageMsg request g = Some g' \<and> sent (wire g) (wire g') [reply]" using g'(2) by blast
  show "length bs = PAGESIZE"
    using mem_ok_simps(3) [OF assms(1,6)] assms(7,8) by (auto simp: page_ok_def mapped_def Let_def)
  show "m_command (snd (snd reply)) = cmd_code GRANT_PAGE" "in_hosts (m_from (snd (snd reply)))"
    "m_data (snd (snd reply)) = poke (\<lambda>_. 0) 0 (int_bytes (int k) @ bs)"
    using in_hosts_me [OF hg] by (simp_all add: reply_def sent_msg_def del: cmd_code.simps)
qed

section \<open>Properties\<close>

text \<open>C3: A read fault on a page the host does not have, from the fault to its end and with the host
  that is asked. The fault handler sends a request to one host only: the original holder of the page if
  no other host is known to have written to it, otherwise a writer that no known writer has written
  after. That host answers with one message; if this is delivered while the handler waits, the handler
  returns, the page is readable and holds the bytes of the other host. The invariant of the reader is
  kept; without any delivery the reader waits for ever.\<close>

theorem read_fault:
  assumes "mem_ok L W P s" "quiet s" "receptive s" "k < MAX_PAGE_NUM" "p_state (pageArray s k) = MISS" "off < PAGESIZE"
    and "mem_ok L' W' P' g" "quiet g" "hostnum g = hostnum s" "myhostid g \<noteq> myhostid s"
    and "vm g (page_addr k) = Some (pr, bs)" "p_state (pageArray g k) = RDONLY \<or> p_state (pageArray g k) = WRITE"
    and "\<And>h. page_source P s k h \<Longrightarrow> h = myhostid g"
  shows "\<exists>port port' request reply g' r w. handleFetchPageMsg request g = Some g' \<and>
    sent (wire g) (wire g') [(nat (myhostid s), port', reply)] \<and>
    segv_handler (page_addr k + int off) [deliver (nat (myhostid g)) reply] s = Some (Returned (Resumed r [])) \<and>
    sent (wire s) (wire r) [(nat (myhostid g), port, request)] \<and>
    p_state (pageArray r k) = RDONLY \<and> vm r (page_addr k) = Some (PROT_READ, bs) \<and> mem_ok L W P r \<and>
    segv_handler (page_addr k + int off) [] s = Some (Blocked w)"
proof -
  have hs: "host_ok s" "host_ok g" using assms(1,7) by (simp_all add: mem_ok_def)
  obtain h t where t: "page_source P s k h"
    "\<And>env. fetchPage (int k) env s = Option.bind (await fetchPageWaitFlag env t)
       (\<lambda>w. on_return w (\<lambda>(s, env). Some (Returned (0, s, env))))"
    "quiet t" "net_frame (s\<lparr>fetchPageWaitFlag := 1\<rparr>) t"
    "sent (wire s) (wire t) [sent_msg s h FETCH_PAGE no_ts (int_bytes (int k))]"
    using fetchPage_sends [OF assms(1,2,4,5)] by blast
  have h: "h = myhostid g" using assms(13) [OF t(1)] .
  let ?req = "snd (snd (sent_msg s h FETCH_PAGE no_ts (int_bytes (int k))))"
  let ?rep = "snd (snd (sent_msg g (myhostid s) GRANT_PAGE no_ts (int_bytes (int k) @ bs)))"
  note page = page_granted [OF assms(7,8) hs(1) assms(9,10,4,11,12)]
  obtain g' where g': "handleFetchPageMsg ?req g = Some g'"
    "sent (wire g) (wire g') [sent_msg g (myhostid s) GRANT_PAGE no_ts (int_bytes (int k) @ bs)]"
    using page(1) by blast
  have sm: "same_mem s t"
    using same_mem_trans [OF same_mem_flags(1) same_mem_net_frame [OF t(4)]] .
  have flag: "fetchPageWaitFlag t = 1" using t(4) by (cases t) (simp add: net_frame_def)
  have tk: "mem_ok L W P t" "receptive t" "p_state (pageArray t k) = MISS"
    using assms(1,3,5) mem_ok_same_mem [OF sm] net_frame_receptive [OF t(4)] sm by (simp_all add: same_mem_def)
  have i: "nat (myhostid g) < MAX_HOST_NUM" "int (nat (myhostid g)) \<noteq> myhostid t"
    using hs sm assms(10) by (auto simp: host_ok_def same_mem_def)
  obtain u where u: "await fetchPageWaitFlag [deliver (nat (myhostid g)) ?rep] t = Some (Returned (u, []))"
    "wire u = wire t" "mem_ok L W P (make_readable (int k) u)"
    "vm (make_readable (int k) u) = (vm t)(page_addr k \<mapsto> (PROT_READ, bs))"
    using page_arrives [OF tk(1) t(3) tk(2) assms(4) tk(3) _ i page(2-5), of "[]"] flag by auto
  have fp: "fault_page (page_addr k + int off) = int k" by (rule fault_page_eq [OF assms(4,6)])
  have run: "segv_handler (page_addr k + int off) env s = Option.bind (fetchPage (int k) env s) (\<lambda>w.
      on_return w (\<lambda>(_, s, env). Some (Returned (Resumed (make_readable (int k) s) env))))" for env
    using assms(4,5) by (simp add: segv_handler_def fp Let_def)
  let ?r = "make_readable (int k) u"
  have "segv_handler (page_addr k + int off) [deliver (nat (myhostid g)) ?rep] s = Some (Returned (Resumed ?r []))"
    unfolding run t(2) u(1) by simp
  moreover have "segv_handler (page_addr k + int off) [] s = Some (Blocked t)"
    unfolding run t(2) using flag by simp
  moreover have "p_state (pageArray ?r k) = RDONLY" "wire ?r = wire u"
    by (simp_all add: make_readable_def page_upd_def vm_mprotect_def Let_def split: option.split)
  moreover have "sent_msg g (myhostid s) GRANT_PAGE no_ts (int_bytes (int k) @ bs) =
      (nat (myhostid s), dataPorts g (nat (myhostid s)) (nat (myhostid g)), ?rep)"
    "sent_msg s h FETCH_PAGE no_ts (int_bytes (int k)) = (nat (myhostid g), dataPorts s (nat h) (nat (myhostid s)), ?req)"
    by (simp_all add: sent_msg_def h)
  moreover have "vm ?r (page_addr k) = Some (PROT_READ, bs)" by (simp add: u(4))
  ultimately show ?thesis using g' t(5) u(2,3) by metis
qed

theorem read_fault_witness:
  "\<exists>s g' request reply r. p_state (pageArray s 0) = MISS \<and> handleFetchPageMsg request sample = Some g' \<and>
    segv_handler (page_addr 0 + 12) [deliver 0 reply] s = Some (Returned (Resumed r [])) \<and>
    vm r (page_addr 0) = Some (PROT_READ, replicate PAGESIZE 0)"
proof -
  obtain s where s: "mem_ok (\<lambda>g. if g = nat 1 then [0] else []) (\<lambda>_. []) (\<lambda>_ _. []) s"
    "p_state (pageArray s 0) = MISS" "hostnum s = 3" "myhostid s = 1" "quiet s" "recv_ok s" "recvQueueSize s = 0"
    using missing_sample by blast
  have r: "receptive s" using s by (simp add: receptive_def in_hosts_def MAX_HOST_NUM_def)
  have src: "h = myhostid sample" if "page_source (\<lambda>_ _. []) s 0 h" for h
    using that by (simp add: page_source_def newest_notices_def sample_ok)
  have k: "(0::nat) < MAX_PAGE_NUM" "(12::nat) < PAGESIZE" by (simp_all add: size_consts)
  from read_fault [OF s(1,5) r k(1) s(2) k(2) sample_ok(1,11) _ _ sample_ok(10) disjI1 [OF sample_ok(3)] src]
  show ?thesis using s(2-4) by (auto simp: sample_ok)
qed

end
