(* ===== verification/Locking.thy ===== *)
theory Locking
  imports Faults
begin

text \<open>
  \<open>mi_lock\<close> and \<open>mi_unlock\<close>: the request to the manager and its answer, the branch for a lock this
  host manages, release and hand-over, and two ways in which they go wrong.
\<close>

section \<open>A new interval leaves the other modules alone\<close>

definition interval_frame :: "mem_st \<Rightarrow> mem_st \<Rightarrow> bool" where
  "interval_frame s t \<longleftrightarrow> heap_frame (s\<lparr>isSigioDisabled := 0, intervalNow := intervalNow t\<rparr>) t"

lemma addNewInterval_frame:
  assumes "addNewInterval s = Some t"
  shows "interval_frame s t"
proof -
  obtain h iv k u where u: "push_interval h iv (disableSigio s) = Some (k, u)"
    "t = enableSigio (u\<lparr>intervalNow := Some k\<rparr>)"
    using assms by (auto simp: addNewInterval_def Let_def elim!: bindE)
  have "heap_frame (disableSigio s) u" by (rule heap_frame_push [OF u(1)])
  then show ?thesis
    by (cases s; cases u) (simp add: interval_frame_def heap_frame_def u(2) enableSigio_def disableSigio_def)
qed

lemma interval_frame_fields:
  assumes "interval_frame s t"
  shows "quiet t = quiet s" "receptive t = receptive s" "wire t = wire s" "locks t = locks s"
    "waitFlag t = waitFlag s" "myLocks t = myLocks s" "lasthostid t = lasthostid s" "hostnum t = hostnum s"
    "myhostid t = myhostid s" "junk t = junk s" "sent_msg t = sent_msg s" "isSigioDisabled t = 0"
  using assms unfolding interval_frame_def
  by (cases s; cases t; simp add: heap_frame_def quiet_def snd_ok_def receptive_def recv_ok_def sent_msg_def fun_eq_iff)+

lemma mem_ok_current: "mem_ok L W P s \<Longrightarrow> \<exists>j js. L (me s) = j # js"
  by (cases "L (me s)") (auto simp: mem_ok_def)

lemma addNewInterval_runs:
  assumes "mem_ok L W P s"
  shows "\<exists>t L' W'. addNewInterval s = Some t \<and> interval_frame s t \<and> mem_ok L' W' P t \<and>
    (\<exists>ts. host_log L' W' t (me s) = (ts, []) # host_log L W s (me s))"
proof -
  obtain j js where j: "L (me s) = j # js" using mem_ok_current [OF assms] by blast
  have h: "me s < MAX_HOST_NUM" using assms host_ok_me by (simp add: mem_ok_def)
  from addNewInterval_ok [OF assms j] h addNewInterval_frame show ?thesis by fastforce
qed

section \<open>Messages about a lock\<close>

definition lock_text :: "int \<Rightarrow> 'a net_st_scheme \<Rightarrow> byte list" where
  "lock_text lockno s = take 4 (sprintf_buffer lockno (junk s))"

lemma length_sprintf_buffer [simp]: "length (sprintf_buffer x stack) = 20"
  by (simp add: sprintf_buffer_def Let_def)

lemma lock_msg_fill:
  assumes "quiet s"
  shows "lock_msg mgr lockno cmd s =
    Some (SndSlot (sndTail s), fill s (packed (myhostid s) mgr cmd no_ts (lock_text lockno s)))"
  using append_fill [of 4 "sprintf_buffer lockno (junk s)" "[]" s "myhostid s" mgr cmd no_ts]
  by (simp add: lock_msg_def new_msg_fill [OF assms] lock_text_def size_consts fill_def)

lemma lock_msg_read:
  assumes "k < LOCK_NUM" "m = (packed h mgr cmd no_ts (lock_text (int k) s))\<lparr>m_seqno := q\<rparr>"
  shows "msg_lockno m = Some (int k)" "m_from m = h"
proof -
  let ?d = "poke (\<lambda>_. 0) 0 (lock_text (int k) s)"
  have d: "peek ?d 0 4 = take 4 (sprintf_buffer (int k) (junk s))" "?d 4 = 0"
    by (simp_all add: heap_simps lock_text_def)
  have "m = m\<lparr>m_data := ?d\<rparr>" by (simp add: assms(2) packed_def)
  then show "msg_lockno m = Some (int k)"
    using msg_lockno_text [of "int k" ?d "junk s" m] assms(1) d by simp
  show "m_from m = h" by (simp add: assms(2))
qed

lemma sent_msg_snd:
  "snd (snd (sent_msg s to cmd ts bs)) =
    (packed (myhostid s) to cmd ts bs)\<lparr>m_seqno := snd_seqs (datamanager s) (nat to)\<rparr>"
  by (simp add: sent_msg_def)

lemma grant_read:
  assumes "k < LOCK_NUM" "in32 l" "m_data m = poke (\<lambda>_. 0) 0 (int_bytes (int k) @ int_bytes l)"
  shows "handleGrantMsg (Some m) s = s\<lparr>lasthostid := l, myLocks := (myLocks s)(k := 1), waitFlag := 0\<rparr>"
proof -
  have "in32 (int k)" using assms(1) by (simp add: in32_def LOCK_NUM_def)
  then have "peek_int (m_data m) 0 = int k" "peek_int (m_data m) 4 = l"
    using assms(2) by (simp_all add: assms(3) peek_int_packed)
  then show ?thesis using assms(1) by (simp add: handleGrantMsg_def)
qed

section \<open>Acquiring\<close>

lemma flag_frame:
  "same_mem s t \<Longrightarrow> mem_ok L W P s \<Longrightarrow> mem_ok L W P t"
  using mem_ok_same_mem by blast

lemma net_frame_syn:
  assumes "net_frame s t"
  shows "junk t = junk s" "dataPorts t = dataPorts s" "isSigioDisabled t = isSigioDisabled s"
  using assms by (cases s; cases t; simp add: net_frame_def)+

text \<open>The request to a remote manager, up to the waiting loop.\<close>

lemma lock_remote_sends:
  assumes ok: "mem_ok L W P s" and q: "quiet s" and mgr: "0 \<le> mgr" "mgr < hostnum s"
  shows "\<exists>t. (\<forall>env. lock_remote mgr (int k) env s = Option.bind (await waitFlag env t) (\<lambda>w.
        on_return w (\<lambda>(s, env). do {
          w \<leftarrow> fetch_from_last True env s;
          on_return w (\<lambda>(s, env). Some (Returned (0, s, env))) }))) \<and>
    quiet t \<and> net_frame (s\<lparr>waitFlag := 1\<rparr>) t \<and>
    sent (wire s) (wire t) [sent_msg s mgr ACQ_LOCK no_ts (lock_text (int k) s)]"
proof -
  have host: "host_ok s" using ok by (simp add: mem_ok_def)
  let ?s = "s\<lparr>waitFlag := 1\<rparr>"
  obtain t where t: "sendMsg (Some (SndSlot (sndTail s))) (fill ?s (packed (myhostid s) mgr ACQ_LOCK no_ts (lock_text (int k) s))) = Some (0, t)"
    "quiet t" "net_frame ?s t" "sent (wire s) (wire t) [sent_msg ?s mgr ACQ_LOCK no_ts (lock_text (int k) s)]"
    using send_fill [of ?s mgr "lock_text (int k) s" ACQ_LOCK no_ts] q in_hosts_host [OF host mgr] in_hosts_me [OF host]
    by (auto simp: lock_text_def size_consts)
  have "sent_msg ?s mgr ACQ_LOCK no_ts (lock_text (int k) s) = sent_msg s mgr ACQ_LOCK no_ts (lock_text (int k) s)"
    by (simp add: sent_msg_def)
  moreover have "lock_remote mgr (int k) env s = Option.bind (await waitFlag env t) (\<lambda>w.
        on_return w (\<lambda>(s, env). do {
          w \<leftarrow> fetch_from_last True env s;
          on_return w (\<lambda>(s, env). Some (Returned (0, s, env))) }))" for env
    by (simp add: lock_remote_def lock_msg_fill [OF q] fill_flags t(1))
  ultimately show ?thesis using t(2-4) by auto
qed

text \<open>The grant arrives while the program waits.\<close>

lemma grant_arrives:
  assumes ok: "mem_ok L W P s" and r: "receptive s" and k: "k < LOCK_NUM" and flag: "waitFlag s \<noteq> 0"
    and i: "i < MAX_HOST_NUM" "int i \<noteq> myhostid s"
    and m: "m_command m = cmd_code GRANT_LOCK" "in_hosts (m_from m)" "m_data m = poke (\<lambda>_. 0) 0 (int_bytes (int k) @ int_bytes l)"
    and l: "in32 l"
  shows "\<exists>t. (\<forall>env. await waitFlag (deliver i m # env) s = Some (Returned (t, env))) \<and> receptive t \<and>
    quiet t = quiet s \<and> wire t = wire s \<and> same_mem s t \<and> locks t = locks s \<and> waitFlag t = 0 \<and> lasthostid t = l \<and>
    myLocks t = (myLocks s)(k := 1)"
proof -
  obtain u where u: "idle_frame s u" "\<And>t. dispatchMsg (Some m) u = Some t \<Longrightarrow>
      sigio_handler (deliver i m) s = Some (settled t) \<and> receptive (settled t)"
    using sigio_deliver [OF r i m(2)] by blast
  let ?t = "u\<lparr>lasthostid := l, myLocks := (myLocks u)(k := 1), waitFlag := 0\<rparr>"
  have d: "dispatchMsg (Some m) u = Some ?t"
    by (simp only: dispatch_cmd(3) [OF m(1)] grant_read [OF k l m(3)])
  note f = idle_frame_fields [OF u(1)] and g = idle_frame_fields [OF idle_settled, of ?t]
  have "await waitFlag (deliver i m # env) s = Some (Returned (settled ?t, env))" for env
    by (rule await_deliver [where flag = waitFlag, OF conjunct1 [OF u(2) [OF d]] flag]) (simp add: g(5))
  moreover have "same_mem s (settled ?t)"
    using same_mem_trans [OF f(1) same_mem_trans [OF _ g(1)]] by (simp add: same_mem_def)
  ultimately show ?thesis
    using u(2) [OF d] f(2-7) g(2-7) by (intro exI [of _ "settled ?t"]) simp
qed

lemma fetch_from_last_fresh:
  assumes ok: "mem_ok L W P s" and l: "lasthostid s = - 1 \<or> lasthostid s = myhostid s"
  shows "\<exists>t L' W'. fetch_from_last True env s = Some (Returned (t, env)) \<and> interval_frame s t \<and> mem_ok L' W' P t \<and>
    (\<exists>ts. host_log L' W' t (me s) = (ts, []) # host_log L W s (me s))"
proof -
  have "fetch_from_last True env s = Option.bind (addNewInterval s) (\<lambda>s. Some (Returned (s, env)))"
    using l by (auto simp: fetch_from_last_def)
  then show ?thesis using addNewInterval_runs [OF ok] by fastforce
qed

text \<open>A free lock is requested and granted: the manager's step, and \<open>mi_lock\<close> up to the fetching of notices.\<close>

lemma lock_granted:
  assumes "mem_ok L W P s" "quiet s" "receptive s" "k < LOCK_NUM" "myLocks s k \<noteq> 1"
    and "managed k m" "quiet m" "hostnum m = hostnum s" "myhostid m \<noteq> myhostid s"
    and "lock_owner (locks m k) = None" "l_lasthostid (locks m k) = l" "in32 l"
  shows "\<exists>p p' request grant m' t u. dispatchMsg (Some request) m = Some m' \<and> managed k m' \<and>
    lock_owner (locks m' k) = Some (myhostid s) \<and> sent (wire m) (wire m') [(nat (myhostid s), p', grant)] \<and>
    sent (wire s) (wire t) [(nat (myhostid m), p, request)] \<and> mi_lock (int k) [] [] s = Some (Blocked t) \<and>
    (\<forall>env. mi_lock (int k) [] (deliver (nat (myhostid m)) grant # env) s = Option.bind (fetch_from_last True env u)
      (\<lambda>w. on_return w (\<lambda>(s, env). Some (Returned (0, s, env))))) \<and>
    receptive u \<and> quiet u \<and> wire u = wire t \<and> same_mem s u \<and> lasthostid u = l \<and> myLocks u = (myLocks s)(k := 1)"
proof -
  have hs: "host_ok s" using assms(1) by (simp add: mem_ok_def)
  let ?m = "myhostid m" and ?req = "sent_msg s (myhostid m) ACQ_LOCK no_ts (lock_text (int k) s)"
    and ?rep = "sent_msg m (myhostid s) GRANT_LOCK no_ts (int_bytes (int k) @ int_bytes l)"
  have mgr: "crem (int k) (hostnum s) = Some ?m" "0 \<le> ?m" "?m < hostnum s"
    using managed_crem [OF assms(6)] assms(6,8) pos_mod_sign [of "hostnum s" "int k"] pos_mod_bound [of "hostnum s" "int k"]
    by (auto simp: managed_def)
  obtain t where t: "\<And>env. lock_remote ?m (int k) env s = Option.bind (await waitFlag env t) (\<lambda>w.
        on_return w (\<lambda>(s, env). do {
          w \<leftarrow> fetch_from_last True env s;
          on_return w (\<lambda>(s, env). Some (Returned (0, s, env))) }))"
    "quiet t" "net_frame (s\<lparr>waitFlag := 1\<rparr>) t" "sent (wire s) (wire t) [?req]"
    using lock_remote_sends [OF assms(1,2) mgr(2,3)] by blast
  have run: "mi_lock (int k) [] env s = lock_remote ?m (int k) env s" for env
    using assms(4,5,9) mgr(1) by (auto simp: mi_lock_def)
  have req: "m_command (snd (snd ?req)) = cmd_code ACQ_LOCK" "msg_lockno (snd (snd ?req)) = Some (int k)"
    "m_from (snd (snd ?req)) = myhostid s"
    using lock_msg_read [OF assms(4) sent_msg_snd] by (simp_all add: sent_msg_def del: cmd_code.simps)
  have me: "is_host (myhostid s) m" "myhostid s \<noteq> ?m"
    using hs assms(8,9) by (auto simp: is_host_def host_ok_def)
  obtain m' where m': "handleAcquireMsg (snd (snd ?req)) m = Some m'" "managed k m'"
    "lock_owner (locks m' k) = Some (myhostid s)" "sent (wire m) (wire m') [?rep]"
    using handleAcquire_idle [OF assms(6,7) me req(2,3) assms(10)] unfolding assms(11) by blast
  have rep: "m_command (snd (snd ?rep)) = cmd_code GRANT_LOCK" "in_hosts (m_from (snd (snd ?rep)))"
    "m_data (snd (snd ?rep)) = poke (\<lambda>_. 0) 0 (int_bytes (int k) @ int_bytes l)"
    using managed_hosts(1) [OF assms(6)] by (simp_all add: sent_msg_def del: cmd_code.simps)
  have sm: "same_mem s t" using same_mem_trans [OF same_mem_flags(4) same_mem_net_frame [OF t(3)]] .
  have t': "mem_ok L W P t" "receptive t" "waitFlag t = 1" "myLocks t = myLocks s" "myhostid t = myhostid s"
    using assms(1,3) mem_ok_same_mem [OF sm] net_frame_receptive [OF t(3)] net_frame_locks [OF t(3)] sm
    by (simp_all add: same_mem_def)
  have i: "nat ?m < MAX_HOST_NUM" "int (nat ?m) \<noteq> myhostid t" using mgr hs assms(9) t'(5) by (auto simp: host_ok_def)
  obtain u where u: "\<And>env. await waitFlag (deliver (nat ?m) (snd (snd ?rep)) # env) t = Some (Returned (u, env))" "receptive u"
    "quiet u = quiet t" "wire u = wire t" "same_mem t u" "lasthostid u = l" "myLocks u = (myLocks t)(k := 1)"
    using grant_arrives [OF t'(1,2) assms(4) _ i rep assms(12)] t'(3) by auto
  have "mi_lock (int k) [] (deliver (nat ?m) (snd (snd ?rep)) # env) s = Option.bind (fetch_from_last True env u)
      (\<lambda>w. on_return w (\<lambda>(s, env). Some (Returned (0, s, env))))" for env
    unfolding run t(1) u(1) by simp
  moreover have "mi_lock (int k) [] [] s = Some (Blocked t)" unfolding run t(1) using t'(3) by simp
  moreover have "dispatchMsg (Some (snd (snd ?req))) m = Some m'" using m'(1) by (simp only: dispatch_cmd(1) [OF req(1)])
  moreover have "?rep = (nat (myhostid s), dataPorts m (nat (myhostid s)) (nat ?m), snd (snd ?rep))"
    "?req = (nat ?m, dataPorts s (nat ?m) (nat (myhostid s)), snd (snd ?req))"
    by (simp_all add: sent_msg_def)
  moreover have "same_mem s u" using same_mem_trans [OF sm u(5)] .
  ultimately show ?thesis using m'(2-4) t(2,4) t'(4) u(2-4,6,7) by metis
qed

section \<open>Properties\<close>

text \<open>C5: Acquiring a free lock that another host manages. \<open>mi_lock\<close> sends one request to the manager
  and waits; the manager's handler makes the requester the owner and sends it one grant; once the grant
  is delivered \<open>mi_lock\<close> returns 0 and the host holds the lock. If no other host has held the lock
  since the last barrier a new interval without writes is started. Without a delivery \<open>mi_lock\<close> waits.\<close>

theorem lock_acquired:
  assumes "mem_ok L W P s" "quiet s" "receptive s" "k < LOCK_NUM" "myLocks s k \<noteq> 1"
    and "managed k g" "quiet g" "hostnum g = hostnum s" "myhostid g \<noteq> myhostid s"
    and "lock_owner (locks g k) = None" "l_lasthostid (locks g k) = - 1 \<or> l_lasthostid (locks g k) = myhostid s"
  shows "\<exists>port port' request reply g' r L' W' ts w. dispatchMsg (Some request) g = Some g' \<and>
    managed k g' \<and> lock_owner (locks g' k) = Some (myhostid s) \<and>
    sent (wire g) (wire g') [(nat (myhostid s), port', reply)] \<and>
    mi_lock (int k) [] [deliver (nat (myhostid g)) reply] s = Some (Returned (0, r, [])) \<and>
    sent (wire s) (wire r) [(nat (myhostid g), port, request)] \<and> myLocks r = (myLocks s)(k := 1) \<and>
    mem_ok L' W' P r \<and> host_log L' W' r (me s) = (ts, []) # host_log L W s (me s) \<and>
    mi_lock (int k) [] [] s = Some (Blocked w)"
proof -
  have hs: "host_ok s" using assms(1) by (simp add: mem_ok_def)
  let ?l = "l_lasthostid (locks g k)"
  have l: "in32 ?l" using assms(11) hs by (auto simp: in32_def host_ok_def MAX_HOST_NUM_def)
  obtain p p' request reply g' t u where u: "dispatchMsg (Some request) g = Some g'" "managed k g'"
    "lock_owner (locks g' k) = Some (myhostid s)" "sent (wire g) (wire g') [(nat (myhostid s), p', reply)]"
    "sent (wire s) (wire t) [(nat (myhostid g), p, request)]" "mi_lock (int k) [] [] s = Some (Blocked t)"
    "\<And>env. mi_lock (int k) [] (deliver (nat (myhostid g)) reply # env) s = Option.bind (fetch_from_last True env u)
      (\<lambda>w. on_return w (\<lambda>(s, env). Some (Returned (0, s, env))))"
    "wire u = wire t" "same_mem s u" "lasthostid u = ?l" "myLocks u = (myLocks s)(k := 1)"
    using lock_granted [OF assms(1-10) refl l] by metis
  have uok: "mem_ok L W P u" "me u = me s" "myhostid u = myhostid s" "host_log L W u = host_log L W s"
    using assms(1) mem_ok_same_mem [OF u(9)] same_mem_me [OF u(9)] u(9) host_log_same_mem [OF u(9)]
    by (simp_all add: same_mem_def)
  obtain r L' W' ts where r: "fetch_from_last True [] u = Some (Returned (r, []))" "interval_frame u r" "mem_ok L' W' P r"
    "host_log L' W' r (me s) = (ts, []) # host_log L W s (me s)"
    using fetch_from_last_fresh [OF uok(1), of "[]"] assms(11) u(10) uok by auto
  note fr = interval_frame_fields [OF r(2)]
  have "mi_lock (int k) [] [deliver (nat (myhostid g)) reply] s = Some (Returned (0, r, []))"
    unfolding u(7) by (simp add: r(1))
  moreover have "sent (wire s) (wire r) [(nat (myhostid g), p, request)]" "myLocks r = (myLocks s)(k := 1)"
    using u(5,8,11) fr(3,6) by simp_all
  ultimately show ?thesis using u(1-4,6) r(3,4) by blast
qed

theorem lock_acquired_witness:
  "\<exists>g' request reply r. dispatchMsg (Some request) sample = Some g' \<and> lock_owner (locks g' 12) = Some 1 \<and>
    mi_lock 12 [] [deliver 0 reply] (boot 1 3) = Some (Returned (0, r, [])) \<and> myLocks r 12 = 1"
proof -
  have b: "mem_ok (\<lambda>g. if g = nat 1 then [0] else []) (\<lambda>_. []) (\<lambda>_ _. []) (boot 1 3)" "quiet (boot 1 3)"
    "receptive (boot 1 3)" "hostnum (boot 1 3) = 3" "myhostid (boot 1 3) = 1" "myLocks (boot 1 3) 12 \<noteq> 1"
    using boot_ok [of 1 3] boot_fields [of 1 3]
    by (simp_all add: MAX_HOST_NUM_def LOCK_NUM_def receptive_def in_hosts_def)
  have m: "managed 12 sample" "lock_owner (locks sample 12) = None" "l_lasthostid (locks sample 12) = - 1"
    using lock_ok_free [of 3] by (simp_all add: managed_def sample_ok LOCK_NUM_def MAX_HOST_NUM_def)
      (simp_all add: free_lock_def lock_owner_def)
  have k: "(12::nat) < LOCK_NUM" by (simp add: LOCK_NUM_def)
  from lock_acquired [OF b(1-3) k b(6) m(1) sample_ok(11) _ _ m(2) disjI1 [OF m(3)]]
  show ?thesis using b(4,5) by (fastforce simp: sample_ok)
qed

end
