(* ===== verification/Wakeup.thy ===== *)
theory Wakeup
  imports Locking
begin

text \<open>
  Release of a lock, the branch of \<open>mi_lock\<close> for a lock this host manages, and three faults the model
  shows: the value returned for an own lock, the release that comes too early, the grant that comes twice.
\<close>

section \<open>Release\<close>

lemma net_frame_mem_ok: "net_frame s t \<Longrightarrow> mem_ok L W P t = mem_ok L W P s"
  by (rule mem_ok_same_mem [OF same_mem_net_frame])

lemma unlock_remote_ok:
  assumes ok: "mem_ok L W P s" and q: "quiet s" and k: "k < LOCK_NUM" and held: "myLocks s k \<noteq> 0"
    and mgr: "int k mod hostnum s = mgr" "mgr \<noteq> myhostid s"
  shows "\<exists>t L' W' ts. mi_unlock (int k) s = Some (0, t) \<and> myLocks t = (myLocks s)(k := 0) \<and> quiet t \<and>
    waitFlag t = waitFlag s \<and> locks t = locks s \<and> hostnum t = hostnum s \<and> myhostid t = myhostid s \<and>
    receptive t = receptive s \<and> mem_ok L' W' P t \<and> host_log L' W' t (me s) = (ts, []) # host_log L W s (me s) \<and>
    sent (wire s) (wire t) [sent_msg s mgr RLS_LOCK no_ts (lock_text (int k) s)]"
proof -
  have host: "host_ok s" using ok by (simp add: mem_ok_def)
  then have hn: "0 < hostnum s" by (simp add: host_ok_def)
  have m: "0 \<le> mgr" "mgr < hostnum s" "crem (int k) (hostnum s) = Some mgr"
    using hn mgr(1) pos_mod_sign [OF hn, of "int k"] pos_mod_bound [OF hn, of "int k"] by (simp_all add: crem_nonneg)
  obtain u L' W' ts where u: "addNewInterval s = Some u" "interval_frame s u" "mem_ok L' W' P u"
    "host_log L' W' u (me s) = (ts, []) # host_log L W s (me s)"
    using addNewInterval_runs [OF ok] by blast
  note f = interval_frame_fields [OF u(2)]
  have same_text: "lock_text (int k) u = lock_text (int k) s" by (simp add: lock_text_def f(10))
  have qu: "quiet u" using q f(1) by simp
  obtain t where t: "sendMsg (Some (SndSlot (sndTail u))) (fill u (packed (myhostid u) mgr RLS_LOCK no_ts (lock_text (int k) u))) = Some (0, t)"
    "quiet t" "net_frame u t" "sent (wire u) (wire t) [sent_msg u mgr RLS_LOCK no_ts (lock_text (int k) u)]"
    using send_fill [of u mgr "lock_text (int k) u" RLS_LOCK no_ts] qu f(9) in_hosts_host [OF host m(1,2)] in_hosts_me [OF host]
    by (auto simp: lock_text_def size_consts)
  note n = net_frame_locks [OF t(3)]
  let ?t = "t\<lparr>myLocks := (myLocks s)(k := 0)\<rparr>"
  have "mi_unlock (int k) s = Some (0, ?t)"
    using k held mgr(2) m(3) u(1) f(6,8,9) n by (simp add: mi_unlock_def lock_msg_fill [OF qu] t(1) [unfolded f(9)])
  moreover have "mem_ok L' W' P ?t"
    using u(3) net_frame_mem_ok [OF t(3)] mem_ok_same_mem [OF same_mem_flags(6)] by simp
  moreover have "host_log L' W' ?t (me s) = (ts, []) # host_log L W s (me s)"
    using u(4) host_log_same_mem [OF same_mem_net_frame [OF t(3)]] host_log_same_mem [OF same_mem_flags(6)] by simp
  moreover have "receptive ?t = receptive s" using net_frame_receptive [OF t(3)] f(2) by simp
  ultimately show ?thesis
    using t(2,4) f n same_text by (intro exI [of _ ?t] exI [of _ L'] exI [of _ W'] exI [of _ ts]) simp
qed

section \<open>An own lock\<close>

lemma lock_local_free:
  assumes ok: "mem_ok L W P s" and m: "managed k s" and o: "lock_owner (locks s k) = None"
    and l: "l_lasthostid (locks s k) = - 1 \<or> l_lasthostid (locks s k) = myhostid s"
  shows "\<exists>t L' W' ts. lock_local (int k) early env s = Some (Returned (stack_int s, t, env)) \<and> managed k t \<and>
    lock_owner (locks t k) = Some (myhostid s) \<and> myLocks t = (myLocks s)(k := 1) \<and> wire t = wire s \<and>
    mem_ok L' W' P t \<and> host_log L' W' t (me s) = (ts, []) # host_log L W s (me s)"
proof -
  have host: "host_ok s" using ok by (simp add: mem_ok_def)
  then have me: "is_host (myhostid s) s" by (simp add: host_ok_def is_host_def)
  let ?l = "(locks s k)\<lparr>l_state := LOCKED, l_owner := myhostid s\<rparr>" let ?u = "s\<lparr>locks := (locks s)(k := ?l)\<rparr>"
  have g: "graspLock (int k) (myhostid s) s = Some (l_lasthostid (locks s k), ?u)"
    by (rule graspLock_idle [OF m me o])
  then have gu: "managed k ?u" "lock_owner (locks ?u k) = Some (myhostid s)"
    using lm.grasp_idle [OF m me o] by auto
  have uok: "mem_ok L W P ?u" using ok mem_ok_same_mem [OF same_mem_flags(7)] by simp
  obtain v L' W' ts where v: "addNewInterval ?u = Some v" "interval_frame ?u v" "mem_ok L' W' P v"
    "host_log L' W' v (me ?u) = (ts, []) # host_log L W ?u (me ?u)"
    using addNewInterval_runs [OF uok] by blast
  note f = interval_frame_fields [OF v(2)]
  let ?t = "v\<lparr>myLocks := (myLocks s)(k := 1)\<rparr>"
  have r: "l_lasthostid (locks s k) \<noteq> - 3" "- 1 \<le> l_lasthostid (locks s k)"
    using l host by (auto simp: host_ok_def)
  have stk: "stack_int v = stack_int s" using f(10) by (simp add: stack_int_def)
  have "lock_local (int k) early env s = Some (Returned (stack_int s, ?t, env))"
    using l r f(6) v(1) stk by (auto simp: lock_local_def g)
  moreover have "me ?u = me s" "host_log L W ?u = host_log L W s"
    using host_log_same_mem [OF same_mem_flags(7)] by (simp_all add: me_def fun_eq_iff)
  moreover have "mem_ok L' W' P ?t" "host_log L' W' ?t = host_log L' W' v"
    using v(3) mem_ok_same_mem [OF same_mem_flags(6)] host_log_same_mem [OF same_mem_flags(6)] by (simp_all add: fun_eq_iff)
  moreover have "managed k ?t = managed k ?u" using f(4,8,9) by (simp add: managed_def)
  ultimately show ?thesis
    using gu v(4) f(3,4) by (intro exI [of _ ?t] exI [of _ L'] exI [of _ W'] exI [of _ ts]) simp
qed

section \<open>A release that comes early\<close>

lemma rls_dispatch:
  assumes m: "managed k s" and c: "m_command m = cmd_code RLS_LOCK" "msg_lockno m = Some (int k)" "m_from m = h"
    and o: "lock_owner (locks s k) = Some h" "lock_queue (locks s k) = [myhostid s]"
  defines "t \<equiv> s\<lparr>locks := (locks s)(k := next_lock h (locks s k)), lasthostid := h, waitFlag := 0,
    myLocks := (myLocks s)(k := 1)\<rparr>"
  shows "dispatchMsg (Some m) s = Some t" "lock_owner (locks t k) = Some (myhostid s)" "same_mem s t" "quiet t = quiet s"
proof -
  have h: "is_host h s" by (rule lm.owner_valid [OF m o(1)])
  have f: "freeLock (int k) h s = Some (myhostid s, s\<lparr>locks := (locks s)(k := next_lock h (locks s k))\<rparr>)"
    by (rule freeLock_next [OF m h o])
  have k: "k < LOCK_NUM" "0 \<le> myhostid s" using m managed_hosts(1) [OF m] by (simp_all add: managed_def in_hosts_def)
  have "handleReleaseMsg m s = Some t"
    using f k c(2,3) by (simp add: handleReleaseMsg_def t_def)
  then show "dispatchMsg (Some m) s = Some t" by (simp only: dispatch_cmd(2) [OF c(1)])
  show "lock_owner (locks t k) = Some (myhostid s)"
    using lm.release_next [OF m o] f by (simp add: t_def)
qed (simp_all add: t_def same_mem_def)

text \<open>The release by the owner is delivered to the manager, the only host that waits.\<close>

lemma early_release:
  assumes ok: "mem_ok L W P s" and q: "quiet s" and r: "receptive s" and m: "managed k s"
    and c: "m_command m = cmd_code RLS_LOCK" "msg_lockno m = Some (int k)" "m_from m = h"
    and o: "lock_owner (locks s k) = Some h" "lock_queue (locks s k) = [myhostid s]"
  shows "\<exists>t. sigio_handler (deliver (nat h) m) s = Some t \<and> mem_ok L W P t \<and> quiet t \<and> waitFlag t = 0 \<and>
    lasthostid t = h \<and> lock_owner (locks t k) = Some (myhostid s) \<and> myLocks t k = 1 \<and> hostnum t = hostnum s \<and>
    myhostid t = myhostid s"
proof -
  have "is_host h s" "h \<noteq> myhostid s"
    using lm.owner_valid [OF m o(1)] lm.queue_distinct [OF m o(1)] o(2) by auto
  then have i: "nat h < MAX_HOST_NUM" "int (nat h) \<noteq> myhostid s" "in_hosts (m_from m)"
    using managed_hosts(2) [OF m] c(3) by (auto simp: in_hosts_def is_host_def nat_less_iff)
  obtain u where u: "idle_frame s u" "\<And>t. dispatchMsg (Some m) u = Some t \<Longrightarrow>
      sigio_handler (deliver (nat h) m) s = Some (settled t) \<and> receptive (settled t)"
    using sigio_deliver [OF r i] by blast
  note f = idle_frame_fields [OF u(1)]
  have mu: "managed k u" "myhostid u = myhostid s" "hostnum u = hostnum s"
    using m f(1,4) by (simp_all add: managed_def same_mem_def)
  have ou: "lock_owner (locks u k) = Some h" "lock_queue (locks u k) = [myhostid u]"
    using o mu(2) f(4) by simp_all
  let ?t = "u\<lparr>locks := (locks u)(k := next_lock h (locks u k)), lasthostid := h, waitFlag := 0,
    myLocks := (myLocks u)(k := 1)\<rparr>"
  note d = rls_dispatch [OF mu(1) c ou]
  note g = idle_frame_fields [OF idle_settled, of ?t]
  have "mem_ok L W P (settled ?t)"
    using ok flag_frame [OF g(1)] flag_frame [OF d(3)] flag_frame [OF f(1)] by blast
  moreover have "hostnum (settled ?t) = hostnum s" "myhostid (settled ?t) = myhostid s"
    using g(1) mu(2,3) by (simp_all add: same_mem_def)
  ultimately show ?thesis
    using u(2) [OF d(1)] d(2,4) g(2,4-7) mu(2) f(2) q by (intro exI [of _ "settled ?t"]) simp
qed

text \<open>The request for write notices, up to the waiting loop.\<close>

lemma fetchWNI_sends:
  assumes ok: "mem_ok L W P s" and q: "quiet s" and h: "0 \<le> h" "h < hostnum s" "h \<noteq> myhostid s"
    and now: "intervalNow s = Some i"
  shows "\<exists>t. (\<forall>env. fetchWritenoticeAndInterval h env s = Option.bind (await fetchWNIWaitFlag env t)
      (\<lambda>w. on_return w (\<lambda>(s, env). Some (Returned (0, s, env))))) \<and>
    quiet t \<and> net_frame (s\<lparr>fetchWNIWaitFlag := 1\<rparr>) t \<and>
    sent (wire s) (wire t) [sent_msg s h FETCH_WN_I no_ts (ints_bytes (i_timestamp (ivals s ! i)))]"
proof -
  have host: "host_ok s" using ok by (simp add: mem_ok_def)
  obtain j where "j \<in> set (L (me s))" "intervalNow s = Some j" using ok by (auto simp: mem_ok_def)
  then have i: "i < length (ivals s)"
    using links_interval_alloc [OF mem_ok_simps(2) [OF ok] host_ok_me(1) [OF host]] now by auto
  let ?s = "s\<lparr>fetchWNIWaitFlag := 1\<rparr>" and ?ts = "i_timestamp (ivals s ! i)"
  have ts: "length ?ts = MAX_HOST_NUM" using ok i by (simp add: mem_ok_def ts_ok_def)
  then have len: "length (ints_bytes ?ts) = 4 * MAX_HOST_NUM" by simp
  obtain t where t: "sendMsg (Some (SndSlot (sndTail s))) (fill ?s (packed (myhostid s) h FETCH_WN_I no_ts (ints_bytes ?ts))) = Some (0, t)"
    "quiet t" "net_frame ?s t" "sent (wire s) (wire t) [sent_msg ?s h FETCH_WN_I no_ts (ints_bytes ?ts)]"
    using send_fill [of ?s h "ints_bytes ?ts" FETCH_WN_I no_ts] q in_hosts_host [OF host h(1,2)] in_hosts_me [OF host] len
    by (auto simp: size_consts)
  have "apendMsgData (Some (SndSlot (sndTail s))) (Some (ints_bytes ?ts)) (int (4 * MAX_HOST_NUM))
      (fill s (packed (myhostid s) h FETCH_WN_I no_ts [])) =
    Some (0, fill s (packed (myhostid s) h FETCH_WN_I no_ts (ints_bytes ?ts)))"
    by (subst append_fill) (use len in \<open>simp_all add: size_consts\<close>)
  moreover have "iv_get (fill s m) (Some i) = Some (ivals s ! i)" "intervalNow (fill s m) = Some i" for m
    using i now by (simp_all add: iv_get_def fill_def)
  ultimately have "fetchWritenoticeAndInterval h env s = Option.bind (await fetchWNIWaitFlag env t)
      (\<lambda>w. on_return w (\<lambda>(s, env). Some (Returned (0, s, env))))" for env
    using h by (simp add: fetchWritenoticeAndInterval_def new_msg_fill [OF q] fill_flags t(1))
  moreover have "sent_msg ?s h FETCH_WN_I no_ts (ints_bytes ?ts) = sent_msg s h FETCH_WN_I no_ts (ints_bytes ?ts)"
    by (simp add: sent_msg_def)
  ultimately show ?thesis using t(2-4) by auto
qed

section \<open>Properties\<close>

text \<open>C36: What \<open>mi_lock\<close> returns for a free lock that this host manages is whatever the stack holds at
  the uninitialised variable, not 0: the assignments in this branch go to a second variable of the same
  name. The lock itself is taken.\<close>

theorem own_lock_result:
  assumes "mem_ok L W P s" "managed k s" "myLocks s k \<noteq> 1" "lock_owner (locks s k) = None"
    and "l_lasthostid (locks s k) = - 1 \<or> l_lasthostid (locks s k) = myhostid s"
    and "in32 v" "junk s = poke stack 20 (int_bytes v)"
  shows "\<exists>t L' W' ts. mi_lock (int k) early env s = Some (Returned (v, t, env)) \<and>
    managed k t \<and> lock_owner (locks t k) = Some (myhostid s) \<and> myLocks t = (myLocks s)(k := 1) \<and> wire t = wire s \<and>
    mem_ok L' W' P t \<and> host_log L' W' t (me s) = (ts, []) # host_log L W s (me s)"
proof -
  have "peek_int (junk s) 20 = v" using assms(6) by (simp add: assms(7) peek_int_def heap_simps)
  moreover have "k < LOCK_NUM" using assms(2) by (simp add: managed_def)
  then have "mi_lock (int k) early env s = lock_local (int k) early env s"
    using assms(3) by (simp add: mi_lock_def managed_crem [OF assms(2)])
  ultimately show ?thesis
    using lock_local_free [OF assms(1,2,4,5), of early env] by (simp add: stack_int_def)
qed

theorem own_lock_result_witness:
  "\<exists>t. mi_lock (int 12) [] [] ((boot 0 3)\<lparr>junk := poke (\<lambda>_. 77) 20 (int_bytes 42)\<rparr>) = Some (Returned (42, t, [])) \<and>
    lock_owner (locks t 12) = Some 0"
proof -
  let ?s = "(boot 0 3)\<lparr>junk := poke (\<lambda>_. 77) 20 (int_bytes 42)\<rparr>"
  have b: "mem_ok first_L (\<lambda>_. []) (\<lambda>_ _. []) (boot 0 3)" "hostnum (boot 0 3) = 3" "myhostid (boot 0 3) = 0"
    "myLocks (boot 0 3) 12 = 0" "locks (boot 0 3) 12 = free_lock"
    using boot_sample boot_ok [of 0 3] boot_fields(3) [of 0 3 12] by (simp_all add: MAX_HOST_NUM_def LOCK_NUM_def)
  have s: "mem_ok first_L (\<lambda>_. []) (\<lambda>_ _. []) ?s" using b(1) mem_ok_same_mem [of "boot 0 3" ?s] by (simp add: same_mem_def)
  have m: "managed 12 ?s" using lock_ok_free [of 3] by (simp add: managed_def b LOCK_NUM_def MAX_HOST_NUM_def)
  have o: "myLocks ?s 12 \<noteq> 1" "lock_owner (locks ?s 12) = None" "l_lasthostid (locks ?s 12) = - 1" "in32 42"
    using b by (simp_all add: lock_owner_def free_lock_def in32_def)
  from own_lock_result [OF s m o(1,2) disjI1 [OF o(3)] o(4), of "\<lambda>_. 77" "[]" "[]"] b(3) show ?thesis by auto
qed

text \<open>C37: A lost wake-up. A host asks for a lock it manages while another host holds it. If the release
  arrives between the call of \<open>graspLock\<close> and the assignment to \<open>waitFlag\<close>, the manager makes itself the
  owner and clears the flag, which \<open>mi_lock\<close> then sets again: it waits for ever for a lock it holds. The
  same message a moment later ends the wait, and \<open>mi_lock\<close> goes on to fetch the write notices.\<close>

theorem lost_wakeup:
  assumes "mem_ok L W P s" "quiet s" "receptive s" "managed k s" "myLocks s k \<noteq> 1"
    and "lock_owner (locks s k) = Some h" "lock_queue (locks s k) = []" "h \<noteq> myhostid s"
    and "m = (packed h (myhostid s) RLS_LOCK no_ts (lock_text (int k) g))\<lparr>m_seqno := n\<rparr>"
  shows "\<exists>t u. mi_lock (int k) [deliver (nat h) m] [] s = Some (Blocked t) \<and> waitFlag t = 1 \<and>
    lock_owner (locks t k) = Some (myhostid s) \<and> myLocks t k = 1 \<and>
    mi_lock (int k) [] [deliver (nat h) m] s = Some (Blocked u) \<and> waitFlag u = 0 \<and> fetchWNIWaitFlag u = 1 \<and>
    lock_owner (locks u k) = Some (myhostid s) \<and> myLocks u k = 1"
proof -
  have k: "k < LOCK_NUM" using assms(4) by (simp add: managed_def)
  have host: "host_ok s" using assms(1) by (simp add: mem_ok_def)
  have me: "is_host (myhostid s) s" using host by (simp add: host_ok_def is_host_def)
  have h: "is_host h s" by (rule lm.owner_valid [OF assms(4,6)])
  have c: "m_command m = cmd_code RLS_LOCK" "msg_lockno m = Some (int k)" "m_from m = h"
    using lock_msg_read [OF k assms(9)] by (simp_all add: assms(9) del: cmd_code.simps)
  obtain s1 where s1: "graspLock (int k) (myhostid s) s = Some (- 3, s1)" "managed k s1"
    "lock_owner (locks s1 k) = Some h" "lock_queue (locks s1 k) = [myhostid s]"
    using lm.grasp_busy [OF assms(4) me assms(6) assms(8) [symmetric]] assms(7) by auto
  obtain l where l: "s1 = s\<lparr>locks := l\<rparr>"
    using s1(1) graspLock_busy [OF assms(4) me assms(6) assms(8) [symmetric]] by auto
  have ok: "mem_ok L W P s1" "quiet s1" "receptive s1" "myhostid s1 = myhostid s"
    using assms(1-3) mem_ok_same_mem [OF same_mem_flags(7)] by (simp_all add: l)
  have run: "mi_lock (int k) early env s = do {
      s \<leftarrow> interrupts early s1;
      w \<leftarrow> await waitFlag env (s\<lparr>waitFlag := 1\<rparr>);
      on_return w (\<lambda>(s, env). do {
        w \<leftarrow> fetch_from_last False env s;
        on_return w (\<lambda>(s, env). Some (Returned (stack_int s, s, env))) }) }" for early env
    using k assms(5) s1(1) by (simp add: mi_lock_def managed_crem [OF assms(4)] lock_local_def)
  obtain t where t: "sigio_handler (deliver (nat h) m) s1 = Some t" "lock_owner (locks t k) = Some (myhostid s)" "myLocks t k = 1"
    using early_release [OF ok(1-3) s1(2) c s1(3)] s1(4) ok(4) by auto
  have early: "mi_lock (int k) [deliver (nat h) m] [] s = Some (Blocked (t\<lparr>waitFlag := 1\<rparr>))"
    by (simp add: run t(1))
  let ?s2 = "s1\<lparr>waitFlag := 1\<rparr>"
  have ok2: "mem_ok L W P ?s2" "managed k ?s2"
    using ok(1) s1(2) mem_ok_same_mem [OF same_mem_flags(4)] by (simp_all add: managed_def)
  obtain u where u: "sigio_handler (deliver (nat h) m) ?s2 = Some u" "mem_ok L W P u" "quiet u" "waitFlag u = 0"
    "lasthostid u = h" "lock_owner (locks u k) = Some (myhostid s)" "myLocks u k = 1" "hostnum u = hostnum s1" "myhostid u = myhostid s"
    using early_release [OF ok2(1) _ _ ok2(2) c] ok(2-4) s1(3,4) by auto
  obtain i where i: "intervalNow u = Some i" using u(2) by (auto simp: mem_ok_def)
  obtain v where v: "\<And>env. fetchWritenoticeAndInterval h env u = Option.bind (await fetchWNIWaitFlag env v)
      (\<lambda>w. on_return w (\<lambda>(s, env). Some (Returned (0, s, env))))" "net_frame (u\<lparr>fetchWNIWaitFlag := 1\<rparr>) v"
    using fetchWNI_sends [OF u(2,3) _ _ _ i, of h] h assms(8) u(8,9) by (auto simp: is_host_def l)
  have flag: "fetchWNIWaitFlag v = 1" using v(2) by (cases v) (simp add: net_frame_def)
  note n = net_frame_locks [OF v(2)]
  have "fetch_from_last False [] u = Some (Blocked v)"
    using h assms(8) u(5,9) flag by (simp add: fetch_from_last_def v(1) is_host_def)
  moreover have "await waitFlag [deliver (nat h) m] ?s2 = Some (Returned (u, []))"
    by (rule await_deliver [where flag = waitFlag, OF u(1) _ u(4)]) simp
  ultimately have "mi_lock (int k) [] [deliver (nat h) m] s = Some (Blocked v)"
    by (simp add: run del: await.simps)
  then show ?thesis
    using early t(2,3) u(4,6,7) n flag by (intro exI [of _ "t\<lparr>waitFlag := 1\<rparr>"] exI [of _ v]) simp
qed

theorem lost_wakeup_witness:
  "\<exists>s m t. lock_owner (locks s 12) = Some 1 \<and> mi_lock 12 [deliver 1 m] [] s = Some (Blocked t) \<and>
    lock_owner (locks t 12) = Some 0 \<and> myLocks t 12 = 1"
proof -
  let ?l = "free_lock\<lparr>l_state := LOCKED, l_owner := 1\<rparr>" let ?s = "(boot 0 3)\<lparr>locks := (locks (boot 0 3))(12 := ?l)\<rparr>"
  let ?m = "(packed 1 0 RLS_LOCK no_ts (lock_text (int 12) net_globals))\<lparr>m_seqno := 5\<rparr>"
  have b: "mem_ok first_L (\<lambda>_. []) (\<lambda>_ _. []) (boot 0 3)" "quiet (boot 0 3)" "receptive (boot 0 3)"
    "hostnum (boot 0 3) = 3" "myhostid (boot 0 3) = 0" "myLocks (boot 0 3) 12 = 0"
    using boot_sample boot_ok [of 0 3] boot_fields [of 0 3]
    by (simp_all add: MAX_HOST_NUM_def LOCK_NUM_def receptive_def in_hosts_def)
  have l: "lock_ok 3 ?l" "lock_owner ?l = Some 1" "lock_queue ?l = []"
    by (simp_all add: lock_ok_def free_lock_def lock_owner_def lock_queue_def)
  have m: "managed 12 ?s" using l(1) by (simp add: managed_def b LOCK_NUM_def MAX_HOST_NUM_def)
  have s: "mem_ok first_L (\<lambda>_. []) (\<lambda>_ _. []) ?s" "quiet ?s" "receptive ?s"
    using b(1-3) mem_ok_same_mem [OF same_mem_flags(7)] by simp_all
  have o: "myLocks ?s 12 \<noteq> 1" "lock_owner (locks ?s 12) = Some 1" "lock_queue (locks ?s 12) = []" "1 \<noteq> myhostid ?s"
    using l(2,3) b(5,6) by simp_all
  have "?m = (packed 1 (myhostid ?s) RLS_LOCK no_ts (lock_text (int 12) net_globals))\<lparr>m_seqno := 5\<rparr>"
    by (simp add: b(5))
  from lost_wakeup [OF s m o this] obtain t where
    "mi_lock (int 12) [deliver (nat 1) ?m] [] ?s = Some (Blocked t)" "lock_owner (locks t 12) = Some (myhostid ?s)" "myLocks t 12 = 1"
    by blast
  with o(2) b(5) show ?thesis by (intro exI [of _ ?s] exI [of _ ?m] exI [of _ t]) simp
qed

text \<open>C38: A grant that is delivered twice breaks mutual exclusion. Messages are retransmitted when an
  acknowledgement is late, and no handler compares sequence numbers. If the second copy of a grant is
  handled after the host has released the lock, the host believes to hold it again, and \<open>mi_lock\<close> says
  so, while the manager has made the host that waited longest the owner.\<close>

theorem duplicate_grant:
  assumes "mem_ok L W P s" "quiet s" "k < LOCK_NUM" "waitFlag s = 1"
    and "managed k g" "quiet g" "hostnum g = hostnum s" "myhostid g \<noteq> myhostid s"
    and "lock_owner (locks g k) = Some (myhostid s)" "lock_queue (locks g k) = w # ws"
    and "m_command m = cmd_code GRANT_LOCK" "m_data m = poke (\<lambda>_. 0) 0 (int_bytes (int k) @ int_bytes l)" "in32 l"
  shows "\<exists>held t g' again port release. dispatchMsg (Some m) s = Some held \<and> myLocks held k = 1 \<and>
    mi_unlock (int k) held = Some (0, t) \<and> myLocks t k = 0 \<and>
    sent (wire held) (wire t) [(nat (myhostid g), port, release)] \<and>
    dispatchMsg (Some release) g = Some g' \<and> lock_owner (locks g' k) = Some w \<and> w \<noteq> myhostid s \<and>
    dispatchMsg (Some m) t = Some again \<and> myLocks again k = 1 \<and>
    mi_lock (int k) early env again = Some (Returned (- 2, again, env))"
proof -
  let ?h = "\<lambda>s. s\<lparr>lasthostid := l, myLocks := (myLocks s)(k := 1), waitFlag := 0\<rparr>"
  have d: "dispatchMsg (Some m) s = Some (?h s)" for s
    by (simp only: dispatch_cmd(3) [OF assms(11)] grant_read [OF assms(3,13,12)])
  have ok: "mem_ok L W P (?h s)" "quiet (?h s)" "me (?h s) = me s"
    using assms(1,2) mem_ok_same_mem [of s "?h s"] by (simp_all add: same_mem_def me_def)
  let ?mgr = "myhostid g"
  have mgr: "int k mod hostnum (?h s) = ?mgr" "?mgr \<noteq> myhostid (?h s)"
    using assms(5,7,8) by (auto simp: managed_def)
  obtain t where t: "mi_unlock (int k) (?h s) = Some (0, t)" "myLocks t = (myLocks (?h s))(k := 0)"
    "sent (wire (?h s)) (wire t) [sent_msg (?h s) ?mgr RLS_LOCK no_ts (lock_text (int k) (?h s))]"
    using unlock_remote_ok [OF ok(1,2) assms(3) _ mgr] by auto
  let ?rel = "snd (snd (sent_msg (?h s) ?mgr RLS_LOCK no_ts (lock_text (int k) (?h s))))"
  have rel: "m_command ?rel = cmd_code RLS_LOCK" "msg_lockno ?rel = Some (int k)" "m_from ?rel = myhostid s"
    using lock_msg_read [OF assms(3) sent_msg_snd] by (simp_all add: sent_msg_def del: cmd_code.simps)
  obtain g' where g': "handleReleaseMsg ?rel g = Some g'" "lock_owner (locks g' k) = Some w"
    using handleRelease_next [OF assms(5,6) rel(2,3) assms(9,10)] by blast
  have "w \<noteq> myhostid s" using lm.queue_distinct [OF assms(5,9)] assms(10) by auto
  moreover have "sent_msg (?h s) ?mgr RLS_LOCK no_ts (lock_text (int k) (?h s)) =
      (nat ?mgr, dataPorts s (nat ?mgr) (nat (myhostid s)), ?rel)"
    by (simp add: sent_msg_def)
  moreover have "dispatchMsg (Some ?rel) g = Some g'" using g'(1) by (simp only: dispatch_cmd(2) [OF rel(1)])
  moreover have "mi_lock (int k) early env (?h t) = Some (Returned (- 2, ?h t, env))"
    using assms(3) by (simp add: mi_lock_def)
  moreover have "myLocks (?h s) k = 1" "myLocks (?h t) k = 1" "myLocks t k = 0" by (simp_all add: t(2))
  ultimately show ?thesis using d [of s] d [of t] t(1,3) g'(2) by metis
qed

theorem duplicate_grant_witness:
  "\<exists>s g held t again g' m release. dispatchMsg (Some m) s = Some held \<and> mi_unlock 12 held = Some (0, t) \<and>
    dispatchMsg (Some release) g = Some g' \<and> lock_owner (locks g' 12) = Some 2 \<and>
    dispatchMsg (Some m) t = Some again \<and> myLocks again 12 = 1"
proof -
  let ?l = "free_lock\<lparr>l_state := LOCKED, l_owner := 1, l_waitingList := 2 # replicate 19 (- 1), l_waitingListCount := 1\<rparr>"
  let ?g = "(boot 0 3)\<lparr>locks := (locks (boot 0 3))(12 := ?l)\<rparr>" and ?s = "(boot 1 3)\<lparr>waitFlag := 1\<rparr>"
  let ?m = "packed 0 1 GRANT_LOCK no_ts (int_bytes (int 12) @ int_bytes (- 1))"
  have b: "quiet (boot 0 3)" "hostnum (boot 0 3) = 3" "myhostid (boot 0 3) = 0"
    "mem_ok (\<lambda>g. if g = nat 1 then [0] else []) (\<lambda>_. []) (\<lambda>_ _. []) (boot 1 3)" "quiet (boot 1 3)"
    "hostnum (boot 1 3) = 3" "myhostid (boot 1 3) = 1"
    using boot_ok [of 0 3] boot_ok [of 1 3] by (simp_all add: MAX_HOST_NUM_def)
  have l: "lock_ok 3 ?l" "lock_owner ?l = Some 1" "lock_queue ?l = [2]"
    by (simp_all add: lock_ok_def free_lock_def lock_owner_def lock_queue_def MAX_HOST_NUM_def)
  have g: "managed 12 ?g" "quiet ?g" using l(1) b(1) by (simp_all add: managed_def b LOCK_NUM_def MAX_HOST_NUM_def)
  have s: "mem_ok (\<lambda>g. if g = nat 1 then [0] else []) (\<lambda>_. []) (\<lambda>_ _. []) ?s" "quiet ?s"
    using b(4,5) mem_ok_same_mem [OF same_mem_flags(4)] by simp_all
  have k: "(12::nat) < LOCK_NUM" "in32 (- 1)" by (simp_all add: LOCK_NUM_def in32_def)
  have m: "m_command ?m = cmd_code GRANT_LOCK" "m_data ?m = poke (\<lambda>_. 0) 0 (int_bytes (int 12) @ int_bytes (- 1))"
    by (simp_all del: cmd_code.simps)
  have h: "waitFlag ?s = 1" "hostnum ?g = hostnum ?s" "myhostid ?g \<noteq> myhostid ?s"
    "lock_owner (locks ?g 12) = Some (myhostid ?s)" "lock_queue (locks ?g 12) = 2 # []"
    using l(2,3) b by simp_all
  from duplicate_grant [OF s k(1) h(1) g h(2-5) m k(2), of "[]" "[]"]
  obtain held t g' again release where "dispatchMsg (Some ?m) ?s = Some held" "mi_unlock (int 12) held = Some (0, t)"
    "dispatchMsg (Some release) ?g = Some g'" "lock_owner (locks g' 12) = Some 2"
    "dispatchMsg (Some ?m) t = Some again" "myLocks again 12 = 1"
    by blast
  then show ?thesis by (metis of_nat_numeral)
qed

end
