(* ===== verification/Granting.thy ===== *)
theory Granting
  imports Wakeup
begin

text \<open>
  Write notices on demand, the host that is asked: what \<open>grantWNI\<close> (\<open>src/mem.c\<close>) packs into its single
  message, and when it overruns it.
\<close>

section \<open>Loops that fill one message\<close>

text \<open>The message to \<open>h\<close> with the packets \<open>cur\<close>, and what a loop that appends \<open>pks\<close> makes of it: the
  tenth packet does not fit.\<close>

definition granting :: "mem_st \<Rightarrow> int \<Rightarrow> timestamp \<Rightarrow> wnPacket_t list \<Rightarrow> int \<times> mem_st" where
  "granting s h ts cur = (int (length cur), fill s (packet_msg (myhostid s) h GRANT_WN_I ts 0 cur))"

definition grants :: "mem_st \<Rightarrow> int \<Rightarrow> timestamp \<Rightarrow> wnPacket_t list \<Rightarrow> (int \<times> mem_st) option" where
  "grants s h ts cur = (if length cur \<le> PER_MSG then Some (granting s h ts cur) else None)"

lemma append_packet:
  assumes "packet_wf pk" "list_all packet_wf cur" "length cur \<le> PER_MSG" "granting s h ts cur = (n, u)"
  shows "apendMsgData (Some (SndSlot (sndTail s))) (Some (packet_bytes pk)) (int PACKET_SIZE) u =
    map_option (\<lambda>x. (0, snd x)) (grants s h ts (cur @ [pk]))"
proof -
  have l: "length (packet_bytes pk) = PACKET_SIZE" "length (concat (map packet_bytes cur)) = PACKET_SIZE * length cur"
    using assms by (simp_all add: length_packet_bytes length_concat_packets)
  let ?bs = "int_bytes 0 @ concat (map packet_bytes cur)"
  show ?thesis
  proof (cases "length cur + 1 \<le> PER_MSG")
    case True
    then have "length ?bs + PACKET_SIZE \<le> DATA_SIZE"
      using l by (simp add: PER_MSG_def PACKET_SIZE_def size_consts)
    then have fit: "int (length ?bs) + int PACKET_SIZE \<le> int DATA_SIZE" by linarith
    have "u = fill s (packed (myhostid s) h GRANT_WN_I ts ?bs)"
      using assms(4) by (auto simp: granting_def packet_msg_def)
    then show ?thesis
      using True append_fill [OF _ _ fit, of "packet_bytes pk" s "myhostid s" h GRANT_WN_I ts] l
      by (simp add: grants_def granting_def packet_msg_def PACKET_SIZE_def)
  next
    case False
    then have "length cur = 9" using assms(3) by (simp add: PER_MSG_def)
    moreover have "m_size (msg_at u (SndSlot (sndTail s))) = 4 + int (PACKET_SIZE * length cur)"
      using assms(4) l by (auto simp: granting_def packet_msg_def)
    ultimately show ?thesis
      using False by (simp add: apendMsgData_def Let_def grants_def PACKET_SIZE_def size_consts del: msg_at.simps)
  qed
qed

lemma granting_same: "granting s h ts cur = (n, u) \<Longrightarrow> same_mem s u"
  using same_mem_net_frame [OF fill_frame] by (auto simp: granting_def)

lemma grants_Some: "grants s h ts cur = Some x \<longleftrightarrow> length cur \<le> PER_MSG \<and> granting s h ts cur = x"
  by (simp add: grants_def)

text \<open>A loop that fails once fails for all longer inputs as well.\<close>

lemma grants_bind:
  assumes "\<And>n u. granting s h ts (cur @ as) = (n, u) \<Longrightarrow> length (cur @ as) \<le> PER_MSG \<Longrightarrow>
      f (n, u) = grants s h ts (cur @ as @ bs)"
  shows "Option.bind (grants s h ts (cur @ as)) f = grants s h ts (cur @ as @ bs)"
  using assms by (cases "granting s h ts (cur @ as)") (auto simp: grants_def)

lemma append_packets_ok:
  assumes "chain (nextInInterval s) q ws" "ws \<noteq> []" "granting s h ts cur = (n, u)" "length cur \<le> PER_MSG"
    and "list_all packet_wf cur" "0 \<le> j" "j < hostnum s" "in32 j" "ts_ok t"
    and "list_all in32 (map (\<lambda>w. w_pageIndex (wns s ! w)) ws)"
  shows "append_packets (SndSlot (sndTail s)) j t q n u =
    grants s h ts (cur @ notice_packets j t (map (\<lambda>w. w_pageIndex (wns s ! w)) ws))"
  using assms(1-5,10)
proof (induction "length ws" arbitrary: q ws cur n u rule: less_induct)
  case less
  let ?ps = "map (\<lambda>w. w_pageIndex (wns s ! w)) ws" and ?r = "SndSlot (sndTail s)"
  let ?pk = "notice_packet j t (take MAX_WN_NUM ?ps)"
    and ?rest = "notice_packets j t (map (\<lambda>w. w_pageIndex (wns s ! w)) (drop MAX_WN_NUM ws))"
  have "nextInInterval u = nextInInterval s" "wns u = wns s" "hostnum u = hostnum s"
    using granting_same [OF less.prems(3)] by (auto simp: same_mem_def nextInInterval_eq fun_eq_iff)
  with less.prems(1,2) assms(6,7) obtain q' where q': "addWNIIntoPacketForHost u empty_packet j (Some t) q = Some (q', ?pk)"
    "chain (nextInInterval s) q' (drop MAX_WN_NUM ws)"
    using addWNI_eq [of u q ws j empty_packet t] by auto
  have wf: "packet_wf ?pk"
    using less.prems(6) by (intro packet_wf_notice assms(8,9)) (simp_all add: list_all_parts)
  have n: "n = int (length cur)" using less.prems(3) by (simp add: granting_def)
  have split: "notice_packets j t ?ps = [?pk] @ ?rest"
    using less.prems(2) by (simp add: notice_packets_def page_chunks_ne drop_map)
  have "append_packets ?r j t q n u = Option.bind (grants s h ts (cur @ [?pk])) (\<lambda>y.
      if q' = None then Some (n + 1, snd y) else append_packets ?r j t q' (n + 1) (snd y))"
    by (subst append_packets.simps)
      (simp add: q'(1) append_packet [OF wf less.prems(5,4,3)] bind_map_option comp_def cong: if_cong)
  also have "\<dots> = grants s h ts (cur @ [?pk] @ ?rest)"
  proof (rule grants_bind)
    fix m v
    assume v: "granting s h ts (cur @ [?pk]) = (m, v)" "length (cur @ [?pk]) \<le> PER_MSG"
    then have m: "m = n + 1" by (simp add: granting_def n)
    show "(if q' = None then Some (n + 1, snd (m, v)) else append_packets ?r j t q' (n + 1) (snd (m, v))) =
        grants s h ts (cur @ [?pk] @ ?rest)"
    proof (cases "drop MAX_WN_NUM ws = []")
      case True
      with q'(2) have "q' = None" by simp
      with True v m show ?thesis by (simp add: grants_def del: drop_eq_Nil)
    next
      case False
      then obtain w where w: "q' = Some w" using q'(2) by (cases "drop MAX_WN_NUM ws") auto
      have in32s: "list_all in32 (map (\<lambda>w. w_pageIndex (wns s ! w)) (drop MAX_WN_NUM ws))"
        using list_all_parts(2) [OF less.prems(6)] by (simp only: drop_map)
      have "length (drop MAX_WN_NUM ws) < length ws" using less.prems(2) by simp
      from less.hyps [OF this q'(2) False v] show ?thesis
        using less.prems(5) wf in32s by (simp add: w m)
    qed
  qed
  finally show ?case by (simp only: split)
qed

section \<open>The notices a host lacks\<close>

definition wni_packets :: "(nat \<times> log_entry) list \<Rightarrow> wnPacket_t list" where
  "wni_packets es = concat (map (\<lambda>(j, e). entry_packets j e) es)"

lemma wni_packets_simps [simp]:
  "wni_packets [] = []" "wni_packets ((j, e) # es) = entry_packets j e @ wni_packets es"
  "wni_packets (as @ bs) = wni_packets as @ wni_packets bs"
  by (simp_all add: wni_packets_def)

text \<open>What the loops of \<open>grantWNI\<close> append of the intervals \<open>ks\<close> of host \<open>j\<close>.\<close>

definition asked :: "(nat \<Rightarrow> nat list) \<Rightarrow> mem_st \<Rightarrow> timestamp \<Rightarrow> nat \<Rightarrow> nat list \<Rightarrow> wnPacket_t list" where
  "asked W s ts j ks = wni_packets (map (Pair j) (filter (lacks (nat (hostnum s)) ts) (map (entry_of W s) ks)))"

lemma asked_Nil [simp]: "asked W s ts j [] = []"
  by (simp add: asked_def)

lemma asked_Cons: "asked W s ts j (k # ks) = asked W s ts j [k] @ asked W s ts j ks"
  by (simp add: asked_def)

lemma asked_wf:
  assumes "mem_ok L W P s" "log_ok (host_log L W s)" "j < MAX_HOST_NUM" "set ks \<subseteq> set (L j)"
  shows "list_all packet_wf (asked W s ts j ks)"
  using assms(4)
proof (induction ks)
  case (Cons k ks)
  then have "k \<in> set (L j)" by simp
  note e = entry_facts [OF assms(1-3) this]
  have "list_all packet_wf (entry_packets j (entry_of W s k))"
    unfolding e(7) by (rule packet_wf_notices [OF e(4-6)])
  then show ?case using Cons by (subst asked_Cons) (auto simp: asked_def)
qed simp

lemma grant_visit_ok:
  assumes ok: "mem_ok L W P s" and lg: "log_ok (host_log L W s)" and j: "j < MAX_HOST_NUM" "int j < hostnum s"
    and k: "k \<in> set (L j)" and ts: "length ts = MAX_HOST_NUM"
    and cur: "granting s h t0 cur = (n, u)" "length cur \<le> PER_MSG" "list_all packet_wf cur"
  shows "grant_visit (SndSlot (sndTail s)) (int j) ts (ivals s ! k) n u = grants s h t0 (cur @ asked W s ts j [k])"
proof -
  note e = entry_facts [OF ok lg j(1) k]
  have host: "host_ok s" using ok by (simp add: mem_ok_def)
  have "hostnum u = hostnum s" using granting_same [OF cur(1)] by (simp add: same_mem_def)
  then have a: "isAfterInterval (hostnum u) (Some (i_timestamp (ivals s ! k))) (Some ts) =
      Some (if ts_after (nat (hostnum s)) (i_timestamp (ivals s ! k)) ts then 1 else 0)"
    using e(5) ts host by (simp add: isAfterInterval_eq ts_ok_def host_ok_def)
  show ?thesis
  proof (cases "ts_after (nat (hostnum s)) (i_timestamp (ivals s ! k)) ts \<and> W k \<noteq> []")
    case True
    then have "asked W s ts j [k] = entry_packets j (entry_of W s k)"
      by (simp add: asked_def entry_of_def lacks_def)
    with True append_packets_ok [OF e(2) _ cur _ j(2) e(4-6)] a e(3,7) show ?thesis
      by (simp add: grant_visit_def)
  next
    case False
    then have "asked W s ts j [k] = []" by (auto simp: asked_def entry_of_def lacks_def)
    with False a e(3) cur show ?thesis by (auto simp: grant_visit_def grants_def)
  qed
qed

lemma grant_visits_ok:
  assumes ok: "mem_ok L W P s" and lg: "log_ok (host_log L W s)" and j: "j < MAX_HOST_NUM" "int j < hostnum s"
    and ts: "length ts = MAX_HOST_NUM"
  shows "set ks \<subseteq> set (L j) \<Longrightarrow> granting s h t0 cur = (n, u) \<Longrightarrow> length cur \<le> PER_MSG \<Longrightarrow> list_all packet_wf cur \<Longrightarrow>
    visit_all (\<lambda>k. grant_visit (SndSlot (sndTail s)) (int j) ts (ivals s ! k)) ks n u =
      grants s h t0 (cur @ asked W s ts j ks)"
proof (induction ks arbitrary: cur n u)
  case Nil
  then show ?case by (simp add: grants_def)
next
  case (Cons k ks)
  let ?v = "\<lambda>k. grant_visit (SndSlot (sndTail s)) (int j) ts (ivals s ! k)" and ?a = "asked W s ts j"
  have k: "k \<in> set (L j)" "set [k] \<subseteq> set (L j)" "set ks \<subseteq> set (L j)" using Cons.prems(1) by auto
  have wf: "list_all packet_wf (cur @ ?a [k])" using Cons.prems(4) asked_wf [OF ok lg j(1) k(2)] by simp
  have "visit_all ?v (k # ks) n u =
      Option.bind (grants s h t0 (cur @ ?a [k])) (\<lambda>y. visit_all ?v ks (fst y) (snd y))"
    using grant_visit_ok [OF ok lg j k(1) ts Cons.prems(2-4)] by simp
  also have "\<dots> = grants s h t0 (cur @ ?a [k] @ ?a ks)"
    using Cons.IH [OF k(3) _ _ wf] by (intro grants_bind) simp
  finally show ?case by (simp only: asked_Cons [of W s ts j k ks])
qed

lemma append_hosts_ok:
  assumes ok: "mem_ok L W P s" and lg: "log_ok (host_log L W s)" and ts: "length ts = MAX_HOST_NUM"
    and j: "j \<le> nat (hostnum s)" and cur: "granting s h t0 cur = (n, u)" "length cur \<le> PER_MSG" "list_all packet_wf cur"
  shows "append_hosts (SndSlot (sndTail s)) j ts (hostnum s) n u =
    grants s h t0 (cur @ concat (map (\<lambda>j. asked W s ts j (rev (L j))) [j..<nat (hostnum s)]))"
  using j cur
proof (induction "nat (hostnum s) - j" arbitrary: j cur n u)
  case 0
  then have "\<not> int j < hostnum s" "[j..<nat (hostnum s)] = []" by simp_all
  with 0 show ?case by (subst append_hosts.simps) (simp add: grants_def)
next
  case (Suc d)
  let ?r = "SndSlot (sndTail s)" and ?a = "asked W s ts j (rev (L j))"
  let ?rest = "concat (map (\<lambda>j. asked W s ts j (rev (L j))) [Suc j..<nat (hostnum s)])"
  note links = mem_ok_simps(2) [OF ok]
  have host: "host_ok s" using ok by (simp add: mem_ok_def)
  have lt: "j < nat (hostnum s)" "int j < hostnum s" "j < MAX_HOST_NUM" using Suc.hyps(2) host by (auto simp: host_ok_def)
  have "procArray u = procArray s" "nextI u = nextI s"
    using granting_same [OF Suc.prems(2)] by (auto simp: same_mem_def nextI_eq fun_eq_iff)
  note reads = this
  have ch: "chain (nextI s) (pr_intervalList (procArray s j)) (L j)" using links_chain_intervals [OF links lt(3)] .
  have wf: "list_all packet_wf (cur @ ?a)" using Suc.prems(4) asked_wf [OF ok lg lt(3), of "rev (L j)"] by simp
  have own: "(case pr_intervalList (procArray u j) of None \<Rightarrow> Some (n, u)
      | Some k \<Rightarrow> do { oldest \<leftarrow> chain_last (nextI u) k; append_intervals ?r (int j) ts (Some oldest) n u }) =
      grants s h t0 (cur @ ?a)"
  proof (cases "L j = []")
    case True
    with ch Suc.prems reads show ?thesis by (simp add: grants_def)
  next
    case False
    then obtain ks k where ks: "L j = ks @ [k]" by (cases "L j" rule: rev_cases) auto
    obtain k0 where k0: "pr_intervalList (procArray s j) = Some k0"
      using ch False by (cases "L j") auto
    then have last: "chain_last (nextI s) k0 = Some k"
      using chain_last_eq [of "nextI s" k0 "L j"] ch by (simp add: ks)
    have prevs: "back_ok (prevI s) None (ks @ k # [])"
      using links lt(3) ks by (auto simp: links_ok_def interval_lists_def)
    define I where "I = (\<lambda>n u. \<exists>cur. granting s h t0 cur = (n, u) \<and> length cur \<le> PER_MSG \<and> list_all packet_wf cur)"
    have "append_intervals ?r (int j) ts (Some k) n u =
        visit_all (\<lambda>k. grant_visit ?r (int j) ts (ivals s ! k)) (k # rev ks) n u"
    proof (rule grant.walk_fold [where K = "set (L j)" and I = I, OF _ _ prevs])
      show "I b' t" if m: "m \<in> set (L j)" and b: "I b v" and v: "grant_visit ?r (int j) ts (ivals s ! m) b v = Some (b', t)"
        for m b v b' t
      proof -
        obtain c where c: "granting s h t0 c = (b, v)" "length c \<le> PER_MSG" "list_all packet_wf c"
          using b by (auto simp: I_def)
        then have "grants s h t0 (c @ asked W s ts j [m]) = Some (b', t)"
          using grant_visit_ok [OF ok lg lt(3,2) m ts c] v by simp
        moreover have "list_all packet_wf (c @ asked W s ts j [m])"
          using c(3) asked_wf [OF ok lg lt(3), of "[m]"] m by simp
        ultimately show ?thesis unfolding I_def grants_Some by blast
      qed
      show "ivals v = ivals s" if "I b v" for b v
        using that granting_same by (auto simp: I_def same_mem_def)
      show "insert k (set ks) \<subseteq> set (L j)" "I n u" using Suc.prems(2-4) by (auto simp: ks I_def)
    qed
    also have "\<dots> = grants s h t0 (cur @ ?a)"
      using grant_visits_ok [OF ok lg lt(3,2) ts, of "k # rev ks"] Suc.prems(2-4) by (simp add: ks)
    finally show ?thesis using k0 last reads by simp
  qed
  have "append_hosts ?r j ts (hostnum s) n u =
      Option.bind (grants s h t0 (cur @ ?a)) (\<lambda>x. append_hosts ?r (Suc j) ts (hostnum s) (fst x) (snd x))"
    using own lt(2,3) by (subst append_hosts.simps) simp
  also have "\<dots> = grants s h t0 (cur @ ?a @ ?rest)"
    using Suc.hyps(1) [of "Suc j" "cur @ ?a", OF _ _ _ _ wf] Suc.hyps(2) lt(1) by (intro grants_bind) simp
  finally show ?case using lt(1) by (simp add: upt_conv_Cons)
qed

lemma wni_packets_lacking:
  "wni_packets (lacking (nat (hostnum s)) ts (host_log L W s)) =
    concat (map (\<lambda>j. asked W s ts j (rev (L j))) [0..<nat (hostnum s)])"
proof -
  have "wni_packets (concat ess) = concat (map wni_packets ess)" for ess
    by (induction ess) simp_all
  then show ?thesis by (simp add: lacking_def asked_def host_log_def rev_map comp_def)
qed

lemma lacking_wf:
  assumes "mem_ok L W P s" "log_ok (host_log L W s)"
  shows "list_all packet_wf (wni_packets (lacking (nat (hostnum s)) ts (host_log L W s)))"
proof -
  have "nat (hostnum s) \<le> MAX_HOST_NUM" using assms(1) by (auto simp: mem_ok_def host_ok_def)
  then have "list_all packet_wf (asked W s ts j (rev (L j)))" if "j < nat (hostnum s)" for j
    using that asked_wf [OF assms, of j "rev (L j)"] by simp
  then show ?thesis unfolding wni_packets_lacking by (auto simp: list_all_iff)
qed

lemma grantWNI_eq:
  assumes ok: "mem_ok L W P s" and lg: "log_ok (host_log L W s)" and q: "quiet s"
    and h: "0 \<le> h" "h < hostnum s" "h \<noteq> myhostid s" and ts: "length ts = MAX_HOST_NUM"
    and now: "intervalNow s = Some i"
  defines "pks \<equiv> wni_packets (lacking (nat (hostnum s)) ts (host_log L W s))"
  shows "if length pks \<le> PER_MSG
    then \<exists>t d. grantWNI h (Some ts) s = Some (0, t) \<and> quiet t \<and> net_frame s t \<and> sent (wire s) (wire t) [d] \<and>
      carries (myhostid s) GRANT_WN_I d (h, i_timestamp (ivals s ! i), pks)
    else grantWNI h (Some ts) s = None"
proof -
  have host: "host_ok s" using ok by (simp add: mem_ok_def)
  obtain j where "j \<in> set (L (me s))" "intervalNow s = Some j" using ok by (auto simp: mem_ok_def)
  then have i: "i < length (ivals s)"
    using links_interval_alloc [OF mem_ok_simps(2) [OF ok] host_ok_me(1) [OF host]] now by auto
  let ?t0 = "i_timestamp (ivals s ! i)" and ?r = "SndSlot (sndTail s)"
  let ?m = "\<lambda>ts bs. packed (myhostid s) h GRANT_WN_I ts bs"
  have now': "iv_get (fill s m) (intervalNow (fill s m)) = Some (ivals s ! i)" for m
    using i now by (simp add: iv_get_def fill_def)
  have new: "new_msg h GRANT_WN_I s = Some (?r, fill s (?m no_ts []))" by (rule new_msg_fill [OF q])
  have upd: "msg_upd (Some ?r) (\<lambda>m. m\<lparr>m_timestamp := ?t0\<rparr>) (fill s (?m no_ts [])) = Some (fill s (?m ?t0 []))"
    by (simp add: packed_def del: set_msg.simps)
  have slot: "apendMsgData (Some ?r) (Some (int_bytes 0)) 4 (fill s (?m ?t0 [])) = Some (0, snd (granting s h ?t0 []))"
    by (subst append_fill_int) (simp_all add: size_consts granting_def packet_msg_def)
  have hn: "hostnum (snd (granting s h ?t0 [])) = hostnum s" by (simp add: granting_def fill_def)
  have hosts: "append_hosts ?r 0 ts (hostnum s) 0 (snd (granting s h ?t0 [])) = grants s h ?t0 pks"
    using append_hosts_ok [OF ok lg ts, of 0 h ?t0 "[]"]
    by (simp add: pks_def wni_packets_lacking granting_def)
  let ?k = "int (length pks)"
  let ?bs = "int_bytes ?k @ concat (map packet_bytes pks)"
  have wf: "list_all packet_wf pks" unfolding pks_def by (rule lacking_wf [OF ok lg])
  show ?thesis
  proof (cases "length pks \<le> PER_MSG")
    case True
    then have "length ?bs \<le> DATA_SIZE"
      using wf by (simp add: length_concat_packets PER_MSG_def PACKET_SIZE_def size_consts)
    then obtain t where t: "sendMsg (Some ?r) (fill s (?m ?t0 ?bs)) = Some (0, t)" "quiet t" "net_frame s t"
      "sent (wire s) (wire t) [sent_msg s h GRANT_WN_I ?t0 ?bs]"
      using send_fill [OF q in_hosts_host [OF host h(1,2)] in_hosts_me [OF host]] by blast
    have "msg_upd (Some ?r) (\<lambda>m. m\<lparr>m_data := poke (m_data m) 0 (int_bytes ?k)\<rparr>) (snd (granting s h ?t0 pks)) =
        Some (fill s (?m ?t0 ?bs))"
      by (simp add: granting_def packet_msg_poke del: set_msg.simps) (simp add: packet_msg_def)
    then have "grantWNI h (Some ts) s = Some (0, t)"
      using h True t(1) hosts
      by (simp add: grantWNI_def new now' upd slot hn grants_def granting_def del: msg_upd.simps)
    moreover have "carries (myhostid s) GRANT_WN_I (sent_msg s h GRANT_WN_I ?t0 ?bs) (h, ?t0, pks)"
      by (rule carries_sent_msg [OF wf True])
    ultimately show ?thesis using True t(2-4) by (simp only: if_True) blast
  next
    case False
    then have "grantWNI h (Some ts) s = None"
      using h hosts by (simp add: grantWNI_def new now' upd slot hn grants_def del: msg_upd.simps)
    with False show ?thesis by simp
  qed
qed

end
