(* ===== verification/Notices.thy ===== *)
theory Notices
  imports Granting
begin

text \<open>
  Write notices on demand, the host that asks: \<open>handleGrantWNIMsg\<close> (\<open>src/mem.c\<close>) and the whole way of a
  lock from its last holder to the next, with the write notices that go with it.
\<close>

section \<open>The host that asked\<close>

text \<open>The timestamp of the interval \<open>handleGrantWNIMsg\<close> starts: that of the message, the own component
  one further.\<close>

definition own_next :: "mem_st \<Rightarrow> timestamp \<Rightarrow> timestamp" where
  "own_next s ts = ts[me s := s32 (ts ! me s + 1)]"

lemma own_next_ok: "ts_ok ts \<Longrightarrow> ts_ok (own_next s ts)"
  by (auto simp: ts_ok_def own_next_def list_all_length nth_update in32_def s32_def)

definition start_log :: "nat \<Rightarrow> timestamp \<Rightarrow> (nat \<Rightarrow> log_entry list) \<Rightarrow> nat \<Rightarrow> log_entry list" where
  "start_log h t lg g = (if g = h then (t, []) # lg g else lg g)"

lemma merge_packets_cong: "lg g = lg' g \<Longrightarrow> merge_packets pks lg g = merge_packets pks lg' g"
  by (simp add: merge_packets_def)

lemma heap_frame_now: "heap_frame s t \<Longrightarrow> heap_frame (s\<lparr>intervalNow := p\<rparr>) (t\<lparr>intervalNow := p\<rparr>)"
  and heap_frame_flag: "heap_frame s t \<Longrightarrow> heap_frame (s\<lparr>fetchWNIWaitFlag := x\<rparr>) (t\<lparr>fetchWNIWaitFlag := x\<rparr>)"
  by (cases s; cases t; simp add: heap_frame_def)+

lemma heap_frame_quiet: "heap_frame s t \<Longrightarrow> quiet t = quiet s"
  by (cases s; cases t) (simp add: heap_frame_def quiet_def snd_ok_def)

lemma handleGrantWNI_ok:
  assumes ok: "mem_ok L W P s" and ts: "ts_ok (m_timestamp m)" and pks: "packets_of (m_data m) = Some pks"
    and pok: "\<forall>pk\<in>set pks. packet_ok s pk"
  shows "\<exists>t L' W' P' n. handleGrantWNIMsg (Some m) s = Some t \<and> mem_ok L' W' P' t \<and>
    heap_frame (s\<lparr>intervalNow := Some n, fetchWNIWaitFlag := 0\<rparr>) t \<and> page_bytes t = page_bytes s \<and>
    (\<forall>g<MAX_HOST_NUM. host_log L' W' t g =
       merge_packets pks (start_log (me s) (own_next s (m_timestamp m)) (host_log L W s)) g)"
proof -
  have host: "host_ok s" using ok by (simp add: mem_ok_def)
  let ?h = "me s" and ?n = "length (ivals s)"
  let ?iv = "empty_interval\<lparr>i_timestamp := own_next s (m_timestamp m)\<rparr>"
  have iv: "i_notices ?iv = None" "i_prev ?iv = None" "ts_ok (i_timestamp ?iv)"
    using own_next_ok [OF ts] by (simp_all add: empty_interval_def)
  let ?L = "L(?h := ?n # L ?h)" and ?W = "W(?n := [])"
  obtain t where t: "push_interval ?h ?iv s = Some (?n, t)" "mem_ok ?L ?W P (t\<lparr>intervalNow := Some ?n\<rparr>)"
    "\<forall>g<MAX_HOST_NUM. host_log ?L ?W t g = start_log ?h (own_next s (m_timestamp m)) (host_log L W s) g"
    "vm t = vm s" "hostnum t = hostnum s" "myhostid t = myhostid s"
    using local_interval_ok [OF ok iv] by (auto simp: start_log_def)
  let ?t = "t\<lparr>intervalNow := Some ?n\<rparr>"
  have "\<forall>pk\<in>set pks. packet_ok ?t pk" using pok t(6) by (simp add: packet_ok_def)
  then obtain u L' W' P' where u: "incorporate_all pks ?t = Some u" "mem_ok L' W' P' u"
    "\<forall>g<MAX_HOST_NUM. host_log L' W' u g = merge_packets pks (host_log ?L ?W ?t) g" "page_bytes u = page_bytes ?t"
    using incorporate_all_ok [OF t(2)] by blast
  let ?u = "u\<lparr>fetchWNIWaitFlag := 0\<rparr>"
  have "handleGrantWNIMsg (Some m) s = Some ?u"
    using host_ok_me(2) [OF host] t(1) pks u(1) by (simp add: handleGrantWNIMsg_def own_next_def)
  moreover have "mem_ok L' W' P' ?u" using u(2) flag_frame [OF same_mem_flags(3)] by blast
  moreover have "heap_frame (s\<lparr>intervalNow := Some ?n, fetchWNIWaitFlag := 0\<rparr>) ?u"
    using heap_frame_now [OF heap_frame_push [OF t(1)]] heap_frame_all [OF u(1)]
    by (blast intro: heap_frame_trans heap_frame_flag)
  moreover have "page_bytes ?u = page_bytes s"
    using u(4) t(4) by (simp add: page_bytes_def fun_eq_iff)
  moreover have "host_log L' W' ?u g = merge_packets pks (start_log ?h (own_next s (m_timestamp m)) (host_log L W s)) g"
    if "g < MAX_HOST_NUM" for g
  proof -
    have "host_log ?L ?W ?t = host_log ?L ?W t" by (simp add: host_log_def entry_of_def fun_eq_iff)
    then have "merge_packets pks (host_log ?L ?W ?t) g =
        merge_packets pks (start_log ?h (own_next s (m_timestamp m)) (host_log L W s)) g"
      using t(3) that by (intro merge_packets_cong) simp
    moreover have "host_log L' W' ?u = host_log L' W' u" by (rule host_log_same_heap) (simp add: same_heap_def)
    ultimately show ?thesis using u(3) that by simp
  qed
  ultimately show ?thesis by blast
qed

text \<open>The packets of the entries a host lacks merge like the entries, host by host, oldest first.\<close>

lemma merge_wni_own:
  "merge_packets (wni_packets (map (Pair j) es)) lg g = (if g = j then fold merge_entry es (lg g) else lg g)"
proof -
  have "wni_packets (map (Pair j) es) = concat (map (entry_packets j) es)"
    by (simp add: wni_packets_def comp_def)
  then show ?thesis by (simp add: merge_packets_own)
qed

lemma merge_lacking:
  "merge_packets (wni_packets (lacking n ts lg)) lg' g =
    (if g < n then fold merge_entry (filter (lacks n ts) (rev (lg g))) (lg' g) else lg' g)"
proof -
  have "merge_packets (wni_packets (concat (map (\<lambda>j. map (Pair j) (filter (lacks n ts) (rev (lg j)))) js))) lg' g =
      (if g \<in> set js then fold merge_entry (filter (lacks n ts) (rev (lg g))) (lg' g) else lg' g)"
    if "distinct js" for js
    using that
  proof (induction js arbitrary: lg')
    case (Cons j js)
    let ?b = "\<lambda>j. filter (lacks n ts) (rev (lg j))"
    have "merge_packets (wni_packets (concat (map (\<lambda>j. map (Pair j) (?b j)) (j # js)))) lg' g =
        merge_packets (wni_packets (concat (map (\<lambda>j. map (Pair j) (?b j)) js)))
          (merge_packets (wni_packets (map (Pair j) (?b j))) lg') g"
      by (simp add: merge_packets_append)
    then show ?case using Cons by (auto simp: merge_wni_own)
  qed simp
  then show ?thesis by (simp add: lacking_def)
qed

text \<open>None of these packets is about the host itself if it has reported all its intervals.\<close>

definition own_known :: "mem_st \<Rightarrow> timestamp \<Rightarrow> (nat \<Rightarrow> log_entry list) \<Rightarrow> bool" where
  "own_known s ts lg \<longleftrightarrow> (\<forall>e\<in>set (lg (me s)). \<not> lacks (nat (hostnum s)) ts e)"

lemma lacking_packets_ok:
  assumes okg: "mem_ok Lg Wg Pg g" and lg: "log_ok (host_log Lg Wg g)" and hn: "hostnum g = hostnum s"
    and host: "host_ok s" and own: "own_known s ts (host_log Lg Wg g)"
    and pk: "pk \<in> set (wni_packets (lacking (nat (hostnum g)) ts (host_log Lg Wg g)))"
  shows "packet_ok s pk"
proof -
  obtain j e where j: "j < nat (hostnum g)" "e \<in> set (host_log Lg Wg g j)" "lacks (nat (hostnum g)) ts e"
    "pk \<in> set (entry_packets j e)"
    using pk by (auto simp: wni_packets_def lacking_def)
  have "j < MAX_HOST_NUM" using j(1) okg by (auto simp: mem_ok_def host_ok_def)
  moreover have "int j \<noteq> myhostid s"
  proof
    assume "int j = myhostid s"
    then have "j = me s" using host_ok_me(3) [OF host] by simp
    then show False using own j(2,3) hn by (simp add: own_known_def)
  qed
  moreover obtain k where "k \<in> set (Lg j)" "e = entry_of Wg g k"
    using j(2) by (auto simp: host_log_def)
  ultimately show ?thesis
    using entry_packets_ok log_entries_ok [OF okg lg] j(4) by blast
qed

text \<open>The answer arrives while the program waits.\<close>

lemma notices_arrive:
  assumes ok: "mem_ok L W P s" and r: "receptive s" and flag: "fetchWNIWaitFlag s \<noteq> 0"
    and i: "i < MAX_HOST_NUM" "int i \<noteq> myhostid s"
    and m: "m_command m = cmd_code GRANT_WN_I" "in_hosts (m_from m)" "ts_ok (m_timestamp m)"
      "packets_of (m_data m) = Some pks" "\<forall>pk\<in>set pks. packet_ok s pk"
  shows "\<exists>t L' W' P'. (\<forall>env. await fetchWNIWaitFlag (deliver i m # env) s = Some (Returned (t, env))) \<and> receptive t \<and>
    quiet t = quiet s \<and> wire t = wire s \<and> mem_ok L' W' P' t \<and> page_bytes t = page_bytes s \<and>
    locks t = locks s \<and> waitFlag t = waitFlag s \<and> lasthostid t = lasthostid s \<and> myLocks t = myLocks s \<and>
    hostnum t = hostnum s \<and> myhostid t = myhostid s \<and>
    (\<forall>g<MAX_HOST_NUM. host_log L' W' t g =
       merge_packets pks (start_log (me s) (own_next s (m_timestamp m)) (host_log L W s)) g)"
proof -
  obtain u where u: "idle_frame s u" "\<And>t. dispatchMsg (Some m) u = Some t \<Longrightarrow>
      sigio_handler (deliver i m) s = Some (settled t) \<and> receptive (settled t)"
    using sigio_deliver [OF r i m(2)] by blast
  note f = idle_frame_fields [OF u(1)]
  have uok: "mem_ok L W P u" "me u = me s" "host_log L W u = host_log L W s" "\<forall>pk\<in>set pks. packet_ok u pk"
    "page_bytes u = page_bytes s" "hostnum u = hostnum s" "myhostid u = myhostid s"
    using ok mem_ok_same_mem [OF f(1)] same_mem_me [OF f(1)] host_log_same_mem [OF f(1)] m(5) f(1)
    by (simp_all add: packet_ok_def same_mem_def page_bytes_def fun_eq_iff)
  obtain t L' W' P' n where t: "handleGrantWNIMsg (Some m) u = Some t" "mem_ok L' W' P' t"
    "heap_frame (u\<lparr>intervalNow := Some n, fetchWNIWaitFlag := 0\<rparr>) t" "page_bytes t = page_bytes u"
    "\<forall>g<MAX_HOST_NUM. host_log L' W' t g =
       merge_packets pks (start_log (me u) (own_next u (m_timestamp m)) (host_log L W u)) g"
    using handleGrantWNI_ok [OF uok(1) m(3,4) uok(4)] by blast
  have d: "dispatchMsg (Some m) u = Some t" by (simp only: dispatch_cmd(6) [OF m(1)] t(1))
  note g = idle_frame_fields [OF idle_settled, of t] and h = heap_frame_fields [OF t(3)]
  have q: "quiet t = quiet u" using heap_frame_quiet [OF t(3)] by (simp add: quiet_def snd_ok_def)
  have "await fetchWNIWaitFlag (deliver i m # env) s = Some (Returned (settled t, env))" for env
    by (rule await_deliver [where flag = fetchWNIWaitFlag, OF conjunct1 [OF u(2) [OF d]] flag]) (use g h in simp)
  moreover have "mem_ok L' W' P' (settled t)" "host_log L' W' (settled t) = host_log L' W' t"
    "page_bytes (settled t) = page_bytes t" "hostnum (settled t) = hostnum t" "myhostid (settled t) = myhostid t"
    using t(2) mem_ok_same_mem [OF g(1)] host_log_same_mem [OF g(1)] g(1)
    by (simp_all add: fun_eq_iff same_mem_def page_bytes_def)
  moreover have "own_next u x = own_next s x" for x by (simp add: own_next_def uok(2))
  ultimately show ?thesis
    using u(2) [OF d] t(4,5) f g h q uok by (intro exI [of _ "settled t"] exI [of _ L'] exI [of _ W'] exI [of _ P']) simp
qed

section \<open>Request and answer together\<close>

text \<open>What \<open>s\<close> lacks of the log of \<open>g\<close>, judged by the timestamp of the interval \<open>i\<close>, as packets.\<close>

definition missing_packets :: "mem_st \<Rightarrow> nat \<Rightarrow> (nat \<Rightarrow> log_entry list) \<Rightarrow> wnPacket_t list" where
  "missing_packets s i lg = wni_packets (lacking (nat (hostnum s)) (i_timestamp (ivals s ! i)) lg)"

text \<open>The log of a host after it has taken up the missing entries of \<open>lg\<close> in an interval with the
  timestamp \<open>t\<close>.\<close>

definition acquired_log :: "mem_st \<Rightarrow> nat \<Rightarrow> (nat \<Rightarrow> log_entry list) \<Rightarrow> timestamp \<Rightarrow> (nat \<Rightarrow> log_entry list) \<Rightarrow> nat \<Rightarrow> log_entry list" where
  "acquired_log s i lg t own h =
     (if h = me s then (t, []) # own h
      else if int h < hostnum s
      then fold merge_entry (filter (lacks (nat (hostnum s)) (i_timestamp (ivals s ! i))) (rev (lg h))) (own h)
      else own h)"

lemma acquired_log_eq:
  assumes "host_ok s" "own_known s (i_timestamp (ivals s ! i)) lg"
  shows "merge_packets (missing_packets s i lg) (start_log (me s) t own) h = acquired_log s i lg t own h"
proof -
  have "filter (lacks (nat (hostnum s)) (i_timestamp (ivals s ! i))) (rev (lg (me s))) = []"
    using assms(2) by (auto simp: own_known_def filter_empty_conv)
  moreover have "int (me s) < hostnum s" using assms(1) host_ok_me(3) [OF assms(1)] by (simp add: host_ok_def)
  ultimately show ?thesis
    by (auto simp: missing_packets_def merge_lacking acquired_log_def start_log_def)
qed

lemma fetch_notices:
  assumes ok: "mem_ok L W P s" and q: "quiet s" and r: "receptive s" and now: "intervalNow s = Some i"
    and okg: "mem_ok Lg Wg Pg g" and lg: "log_ok (host_log Lg Wg g)" and qg: "quiet g"
    and hn: "hostnum g = hostnum s" "myhostid g \<noteq> myhostid s" and nowg: "intervalNow g = Some j"
    and own: "own_known s (i_timestamp (ivals s ! i)) (host_log Lg Wg g)"
    and fit: "length (missing_packets s i (host_log Lg Wg g)) \<le> PER_MSG"
  shows "\<exists>port port' request reply g' w t L' W' P'. dispatchMsg (Some request) g = Some g' \<and> quiet g' \<and> net_frame g g' \<and>
    sent (wire g) (wire g') [(nat (myhostid s), port', reply)] \<and>
    sent (wire s) (wire t) [(nat (myhostid g), port, request)] \<and>
    fetchWritenoticeAndInterval (myhostid g) [] s = Some (Blocked w) \<and>
    (\<forall>env. fetchWritenoticeAndInterval (myhostid g) (deliver (nat (myhostid g)) reply # env) s = Some (Returned (0, t, env))) \<and>
    quiet t \<and> receptive t \<and> mem_ok L' W' P' t \<and> page_bytes t = page_bytes s \<and> myLocks t = myLocks s \<and>
    hostnum t = hostnum s \<and> myhostid t = myhostid s \<and>
    (\<forall>h<MAX_HOST_NUM. host_log L' W' t h = acquired_log s i (host_log Lg Wg g)
       (own_next s (i_timestamp (ivals g ! j))) (host_log L W s) h)"
proof -
  have hs: "host_ok s" "host_ok g" using ok okg by (simp_all add: mem_ok_def)
  let ?g = "myhostid g" and ?ts = "i_timestamp (ivals s ! i)" and ?t0 = "i_timestamp (ivals g ! j)"
  let ?pks = "missing_packets s i (host_log Lg Wg g)"
  have hg: "0 \<le> ?g" "?g < hostnum s" "?g \<noteq> myhostid s" "0 \<le> myhostid s" "myhostid s < hostnum g" "myhostid s \<noteq> ?g"
    using hs hn by (auto simp: host_ok_def)
  have stamp: "ts_ok (i_timestamp (ivals x ! k))" if "mem_ok L W P x" "intervalNow x = Some k" for x k L W P
  proof -
    have "k \<in> set (L (me x))" using that by (auto simp: mem_ok_def)
    then have "k < length (ivals x)"
      using links_interval_alloc [OF mem_ok_simps(2) [OF that(1)] host_ok_me(1)] mem_ok_simps(1) [OF that(1)] by blast
    then show ?thesis using that(1) by (simp add: mem_ok_def)
  qed
  have ts: "length ?ts = MAX_HOST_NUM" "list_all in32 ?ts" "ts_ok ?t0"
    using stamp [OF ok now] stamp [OF okg nowg] by (simp_all add: ts_ok_def)
  obtain u where u: "\<And>env. fetchWritenoticeAndInterval ?g env s = Option.bind (await fetchWNIWaitFlag env u)
      (\<lambda>w. on_return w (\<lambda>(s, env). Some (Returned (0, s, env))))" "quiet u"
    "net_frame (s\<lparr>fetchWNIWaitFlag := 1\<rparr>) u" "sent (wire s) (wire u) [sent_msg s ?g FETCH_WN_I no_ts (ints_bytes ?ts)]"
    using fetchWNI_sends [OF ok q hg(1-3) now] by blast
  let ?req = "snd (snd (sent_msg s ?g FETCH_WN_I no_ts (ints_bytes ?ts)))"
  have "peek_ints (m_data ?req) 0 MAX_HOST_NUM = ?ts"
    unfolding sent_msg_snd by (simp, rule peek_ints_packed) (use ts in simp_all)
  moreover have req: "m_command ?req = cmd_code FETCH_WN_I" "m_from ?req = myhostid s"
    by (simp_all add: sent_msg_def del: cmd_code.simps)
  moreover obtain g' d where g': "grantWNI (myhostid s) (Some ?ts) g = Some (0, g')" "quiet g'" "net_frame g g'"
    "sent (wire g) (wire g') [d]" "carries ?g GRANT_WN_I d (myhostid s, ?t0, ?pks)"
    using grantWNI_eq [OF okg lg qg hg(4-6) ts(1) nowg] fit by (auto simp: missing_packets_def hn)
  ultimately have dg: "dispatchMsg (Some ?req) g = Some g'"
    by (simp add: dispatch_cmd(10) [OF req(1)] handleFetchWNIMsg_def)
  obtain port' rep where d: "d = (nat (myhostid s), port', rep)" "m_command rep = cmd_code GRANT_WN_I"
    "m_from rep = ?g" "m_timestamp rep = ?t0" "packets_of (m_data rep) = Some ?pks"
    using g'(5) by (cases d) (auto simp: carries_def simp del: cmd_code.simps)
  have sm: "same_mem s u" using same_mem_trans [OF same_mem_flags(3) same_mem_net_frame [OF u(3)]] .
  have uk: "mem_ok L W P u" "receptive u" "fetchWNIWaitFlag u = 1" "me u = me s" "myhostid u = myhostid s"
    "hostnum u = hostnum s" "host_log L W u = host_log L W s" "page_bytes u = page_bytes s" "myLocks u = myLocks s"
    using ok r mem_ok_same_mem [OF sm] net_frame_receptive [OF u(3)] u(3) same_mem_me [OF sm] sm host_log_same_mem [OF sm]
      net_frame_locks [OF u(3)]
    by (simp_all add: same_mem_def page_bytes_def fun_eq_iff) (cases u, simp add: net_frame_def)
  have i: "nat ?g < MAX_HOST_NUM" "int (nat ?g) \<noteq> myhostid u" "in_hosts (m_from rep)" "ts_ok (m_timestamp rep)"
    using hg hs(1) in_hosts_me [OF hs(2)] ts(3) uk(5) by (auto simp: host_ok_def d)
  have pok: "\<forall>pk\<in>set ?pks. packet_ok u pk"
    using lacking_packets_ok [OF okg lg hn(1) hs(1) own] uk(5) by (simp add: missing_packets_def hn packet_ok_def)
  have flag: "fetchWNIWaitFlag u \<noteq> 0" using uk(3) by simp
  obtain t L' W' P' where t: "\<And>env. await fetchWNIWaitFlag (deliver (nat ?g) rep # env) u = Some (Returned (t, env))"
    "receptive t" "quiet t = quiet u" "wire t = wire u" "mem_ok L' W' P' t" "page_bytes t = page_bytes u"
    "myLocks t = myLocks u" "hostnum t = hostnum u" "myhostid t = myhostid u"
    "\<forall>h<MAX_HOST_NUM. host_log L' W' t h = merge_packets ?pks (start_log (me u) (own_next u (m_timestamp rep)) (host_log L W u)) h"
    using notices_arrive [OF uk(1,2) flag i(1,2) d(2) i(3,4) d(5) pok] by blast
  have "fetchWritenoticeAndInterval ?g (deliver (nat ?g) rep # env) s = Some (Returned (0, t, env))" for env
    unfolding u(1) t(1) by simp
  moreover have "fetchWritenoticeAndInterval ?g [] s = Some (Blocked u)" unfolding u(1) using uk(3) by simp
  moreover have "host_log L' W' t h = acquired_log s i (host_log Lg Wg g) (own_next s ?t0) (host_log L W s) h"
    if "h < MAX_HOST_NUM" for h
  proof -
    have "host_log L' W' t h = merge_packets ?pks (start_log (me s) (own_next s ?t0) (host_log L W s)) h"
      using t(10) that by (simp add: uk(4,7) d(4) own_next_def)
    then show ?thesis by (simp only: acquired_log_eq [OF hs(1) own])
  qed
  moreover have "sent (wire s) (wire t) [(nat ?g, dataPorts s (nat ?g) (nat (myhostid s)), ?req)]"
    using u(4) t(4) by (simp add: sent_msg_def)
  ultimately show ?thesis using dg g'(2-4) d(1) t(2,3,5-9) u(2) uk by metis
qed

section \<open>Properties\<close>

text \<open>C6: A lock moves from its last holder to the next, with the knowledge of the writes that go with
  it. \<open>mi_lock\<close> asks the manager, whose grant names the last holder; it then sends the timestamp of its
  current interval to that host and is answered by one message. With both answers delivered \<open>mi_lock\<close>
  returns 0, the host holds the lock and is in a new interval, and its logs of the other hosts have taken
  up, oldest first, every interval with write notices in the log of the last holder that is later than the
  timestamp. The bytes of the pages are unchanged and the invariant is kept. The notices must fit into one
  message, and the last holder must not know of a later interval of the host itself.\<close>

theorem lock_transfer:
  assumes "mem_ok L W P s" "quiet s" "receptive s" "k < LOCK_NUM" "myLocks s k \<noteq> 1" "intervalNow s = Some i"
    and "managed k m" "quiet m" "hostnum m = hostnum s" "myhostid m \<noteq> myhostid s"
    and "lock_owner (locks m k) = None" "l_lasthostid (locks m k) = myhostid g"
    and "mem_ok Lg Wg Pg g" "log_ok (host_log Lg Wg g)" "quiet g" "hostnum g = hostnum s" "myhostid g \<noteq> myhostid s"
    and "intervalNow g = Some j" "own_known s (i_timestamp (ivals s ! i)) (host_log Lg Wg g)"
    and "length (missing_packets s i (host_log Lg Wg g)) \<le> PER_MSG"
  shows "\<exists>p1 p2 p3 p4 request grant ask reply m' g' r L' W' P'.
    dispatchMsg (Some request) m = Some m' \<and> lock_owner (locks m' k) = Some (myhostid s) \<and>
    sent (wire m) (wire m') [(nat (myhostid s), p1, grant)] \<and>
    dispatchMsg (Some ask) g = Some g' \<and> sent (wire g) (wire g') [(nat (myhostid s), p2, reply)] \<and>
    mi_lock (int k) [] [deliver (nat (myhostid m)) grant, deliver (nat (myhostid g)) reply] s = Some (Returned (0, r, [])) \<and>
    sent (wire s) (wire r) [(nat (myhostid m), p3, request), (nat (myhostid g), p4, ask)] \<and>
    myLocks r = (myLocks s)(k := 1) \<and> mem_ok L' W' P' r \<and> page_bytes r = page_bytes s \<and>
    (\<forall>h<MAX_HOST_NUM. host_log L' W' r h = acquired_log s i (host_log Lg Wg g)
       (own_next s (i_timestamp (ivals g ! j))) (host_log L W s) h)"
proof -
  have hg: "host_ok g" using assms(13) by (simp add: mem_ok_def)
  let ?g = "myhostid g"
  have l: "in32 ?g" using hg by (auto simp: in32_def host_ok_def MAX_HOST_NUM_def)
  obtain p1 p3 request grant m' u and t :: mem_st where u: "dispatchMsg (Some request) m = Some m'"
    "lock_owner (locks m' k) = Some (myhostid s)" "sent (wire m) (wire m') [(nat (myhostid s), p1, grant)]"
    "sent (wire s) (wire t) [(nat (myhostid m), p3, request)]"
    "\<And>env. mi_lock (int k) [] (deliver (nat (myhostid m)) grant # env) s = Option.bind (fetch_from_last True env u)
      (\<lambda>w. on_return w (\<lambda>(s, env). Some (Returned (0, s, env))))"
    "receptive u" "quiet u" "wire u = wire t" "same_mem s u" "lasthostid u = ?g" "myLocks u = (myLocks s)(k := 1)"
    using lock_granted [OF assms(1-5,7-12) l] by metis
  note su = u(9)
  have uk: "mem_ok L W P u" "intervalNow u = Some i" "hostnum g = hostnum u" "?g \<noteq> myhostid u"
    "own_known u (i_timestamp (ivals u ! i)) (host_log Lg Wg g)" "length (missing_packets u i (host_log Lg Wg g)) \<le> PER_MSG"
    "host_log L W u = host_log L W s" "acquired_log u i = acquired_log s i" "own_next u = own_next s"
    "page_bytes u = page_bytes s" "myhostid u = myhostid s"
    using assms(1,6,16,17,19,20) mem_ok_same_mem [OF su] su same_mem_me [OF su] host_log_same_mem [OF su]
    by (simp_all add: same_mem_def own_known_def missing_packets_def acquired_log_def own_next_def page_bytes_def fun_eq_iff)
  obtain p2 p4 ask reply g' v L' W' P' where v: "dispatchMsg (Some ask) g = Some g'"
    "sent (wire g) (wire g') [(nat (myhostid u), p2, reply)]" "sent (wire u) (wire v) [(nat ?g, p4, ask)]"
    "\<And>env. fetchWritenoticeAndInterval ?g (deliver (nat ?g) reply # env) u = Some (Returned (0, v, env))"
    "mem_ok L' W' P' v" "page_bytes v = page_bytes u" "myLocks v = myLocks u"
    "\<forall>h<MAX_HOST_NUM. host_log L' W' v h = acquired_log s i (host_log Lg Wg g)
       (own_next s (i_timestamp (ivals g ! j))) (host_log L W s) h"
    using fetch_notices [OF uk(1) u(7,6) uk(2) assms(13-15) uk(3,4) assms(18) uk(5,6)] unfolding uk(7-9) by blast
  let ?r = "v\<lparr>lasthostid := - 1\<rparr>"
  have "fetch_from_last True (deliver (nat ?g) reply # env) u = Some (Returned (?r, env))" for env
    using hg uk(4) by (simp add: fetch_from_last_def u(10) v(4) host_ok_def)
  then have "mi_lock (int k) [] [deliver (nat (myhostid m)) grant, deliver (nat ?g) reply] s = Some (Returned (0, ?r, []))"
    unfolding u(5) by simp
  moreover have "sent (wire s) (wire ?r) [(nat (myhostid m), p3, request), (nat ?g, p4, ask)]"
    using sent_trans [OF u(4)] v(3) u(8) by fastforce
  moreover have "myLocks ?r = (myLocks s)(k := 1)" "mem_ok L' W' P' ?r" "page_bytes ?r = page_bytes s"
    "host_log L' W' ?r = host_log L' W' v"
    using v(5-7) u(11) uk(10) flag_frame [OF same_mem_flags(5)] host_log_same_mem [OF same_mem_flags(5)]
    by (simp_all add: page_bytes_def fun_eq_iff)
  ultimately show ?thesis using u(1-3) v(1,2,8) uk(11) by metis
qed

text \<open>A host that has learnt from a third host of two pages written there.\<close>

definition news_packet :: wnPacket_t where
  "news_packet = notice_packet 0 (zero_ts[0 := 1]) [0, 3]"

lemma news_sample:
  "\<exists>g Lg Wg Pg. mem_ok Lg Wg Pg g \<and> log_ok (host_log Lg Wg g) \<and> quiet g \<and> hostnum g = 3 \<and> myhostid g = 2 \<and>
    intervalNow g = Some 0 \<and> (\<forall>h<MAX_HOST_NUM. host_log Lg Wg g h =
      (if h = 0 then [(zero_ts[0 := 1], [0, 3])] else if h = 2 then [(zero_ts, [])] else []))"
proof -
  let ?L = "\<lambda>g. if g = (2::nat) then [0] else []" and ?W = "\<lambda>_. []" and ?s = "boot 2 3"
  have b: "mem_ok ?L ?W (\<lambda>_ _. []) ?s" "hostnum ?s = 3" "myhostid ?s = 2" "intervalNow ?s = Some 0" "quiet ?s"
    "ivals ?s = [empty_interval\<lparr>i_isBarrier := 1\<rparr>]"
    using boot_ok [of 2 3] by (simp_all add: MAX_HOST_NUM_def)
  have old: "host_log ?L ?W ?s h = (if h = 2 then [(zero_ts, [])] else [])" for h
    by (simp add: host_log_def entry_of_def b(6) empty_interval_def)
  have pk: "packet_ok ?s news_packet"
    by (simp add: packet_ok_def news_packet_def b(3) notice_packet_def packet_pages_def page_index_def size_consts)
      (simp add: ts_ok_def zero_ts_def list_all_length nth_update in32_def size_consts)
  obtain g Lg Wg Pg where g: "incorporateWnPacket (Some news_packet) ?s = Some (0, g)" "mem_ok Lg Wg Pg g"
    "packet_effect news_packet (host_log ?L ?W ?s) ?s (host_log Lg Wg g) g"
    using incorporateWnPacket_ok [OF b(1) pk] by blast
  have log: "host_log Lg Wg g h = (if h = 0 then [(zero_ts[0 := 1], [0, 3])] else if h = 2 then [(zero_ts, [])] else [])"
    if "h < MAX_HOST_NUM" for h
    using g(3) that by (auto simp: packet_effect_def old news_packet_def merge_log_def)
  then have "log_ok (host_log Lg Wg g)" by (auto simp: log_ok_def page_index_def size_consts split: if_splits)
  moreover have "quiet g"
    using heap_frame_quiet [OF heap_frame_packet [OF g(1)]] b(5) by simp
  ultimately show ?thesis
    using g(2) log heap_frame_fields(1-3) [OF heap_frame_packet [OF g(1)]] b(2-4) by metis
qed

theorem lock_transfer_witness:
  "\<exists>g m' g' request grant ask reply r L' W'. dispatchMsg (Some request)
      ((boot 0 3)\<lparr>locks := (locks (boot 0 3))(12 := free_lock\<lparr>l_lasthostid := 2\<rparr>)\<rparr>) = Some m' \<and>
    dispatchMsg (Some ask) g = Some g' \<and>
    mi_lock 12 [] [deliver 0 grant, deliver 2 reply] (boot 1 3) = Some (Returned (0, r, [])) \<and>
    myLocks r 12 = 1 \<and> host_log L' W' r 0 = [(zero_ts[0 := 1], [0, 3])]"
proof -
  obtain g Lg Wg Pg where g: "mem_ok Lg Wg Pg g" "log_ok (host_log Lg Wg g)" "quiet g" "hostnum g = 3" "myhostid g = 2"
    "intervalNow g = Some 0" and log: "\<forall>h<MAX_HOST_NUM. host_log Lg Wg g h =
      (if h = 0 then [(zero_ts[0 := 1], [0, 3])] else if h = 2 then [(zero_ts, [])] else [])"
    using news_sample by blast
  have lg: "host_log Lg Wg g 0 = [(zero_ts[0 := 1], [0, 3])]" "host_log Lg Wg g (Suc 0) = []"
    "host_log Lg Wg g 2 = [(zero_ts, [])]"
    using log by (simp_all add: MAX_HOST_NUM_def)
  let ?m = "(boot 0 3)\<lparr>locks := (locks (boot 0 3))(12 := free_lock\<lparr>l_lasthostid := 2\<rparr>)\<rparr>" and ?s = "boot 1 3"
  let ?L = "\<lambda>g. if g = (1::nat) then [0] else []"
  have b: "mem_ok ?L (\<lambda>_. []) (\<lambda>_ _. []) ?s" "quiet ?s" "receptive ?s" "hostnum ?s = 3" "myhostid ?s = 1"
    "myLocks ?s 12 \<noteq> 1" "intervalNow ?s = Some 0" "me ?s = 1" "ivals ?s = [empty_interval\<lparr>i_isBarrier := 1\<rparr>]"
    "quiet ?m" "hostnum ?m = 3" "myhostid ?m = 0"
    using boot_ok [of 1 3] boot_ok [of 0 3] boot_fields [of 1 3]
    by (simp_all add: MAX_HOST_NUM_def LOCK_NUM_def receptive_def in_hosts_def)
  have ts: "i_timestamp (ivals ?s ! 0) = zero_ts" by (simp add: b(9) empty_interval_def)
  have late: "ts_after 3 (zero_ts[0 := 1]) zero_ts" "\<not> ts_after 3 zero_ts zero_ts"
    by (auto simp: ts_after_def zero_ts_def nth_update MAX_HOST_NUM_def intro!: exI [of _ 0])
  have lack: "lacking 3 zero_ts (host_log Lg Wg g) = [(0, (zero_ts[0 := 1], [0, 3]))]"
    using lg(3) by (simp add: lacking_def lacks_def upt_rec lg late flip: numeral_2_eq_2)
  have m: "managed 12 ?m" "lock_owner (locks ?m 12) = None" "l_lasthostid (locks ?m 12) = myhostid g"
    using b(11,12) by (simp_all add: managed_def lock_ok_def free_lock_def lock_owner_def LOCK_NUM_def MAX_HOST_NUM_def g(5))
  have own: "own_known ?s (i_timestamp (ivals ?s ! 0)) (host_log Lg Wg g)"
    by (simp add: own_known_def b(8) lg)
  have fit: "length (missing_packets ?s 0 (host_log Lg Wg g)) \<le> PER_MSG"
    by (simp add: missing_packets_def ts b(4) lack entry_packets_def notice_packets_def page_chunks_short PER_MSG_def MAX_WN_NUM_def)
  have h: "(12::nat) < LOCK_NUM" "hostnum ?m = hostnum ?s" "myhostid ?m \<noteq> myhostid ?s" "hostnum g = hostnum ?s"
    "myhostid g \<noteq> myhostid ?s"
    using b g by (simp_all add: LOCK_NUM_def)
  obtain request grant ask reply m' g' r L' W' where r: "dispatchMsg (Some request) ?m = Some m'" "dispatchMsg (Some ask) g = Some g'"
    "mi_lock (int 12) [] [deliver (nat (myhostid ?m)) grant, deliver (nat (myhostid g)) reply] ?s = Some (Returned (0, r, []))"
    "myLocks r = (myLocks ?s)(12 := 1)" "\<forall>h<MAX_HOST_NUM. host_log L' W' r h = acquired_log ?s 0 (host_log Lg Wg g)
       (own_next ?s (i_timestamp (ivals g ! 0))) (host_log ?L (\<lambda>_. []) ?s) h"
    using lock_transfer [OF b(1-3) h(1) b(6,7) m(1) b(10) h(2,3) m(2,3) g(1-3) h(4,5) g(6) own fit] by blast
  have "host_log ?L (\<lambda>_. []) ?s 0 = []" by (simp add: host_log_def)
  moreover have "host_log L' W' r 0 = acquired_log ?s 0 (host_log Lg Wg g)
       (own_next ?s (i_timestamp (ivals g ! 0))) (host_log ?L (\<lambda>_. []) ?s) 0"
    using r(5) by (simp add: MAX_HOST_NUM_def)
  ultimately have "host_log L' W' r 0 = [(zero_ts[0 := 1], [0, 3])]"
    by (simp add: acquired_log_def b(4,8) ts lg late lacks_def merge_entry_def merge_log_def)
  moreover have "mi_lock 12 [] [deliver 0 grant, deliver 2 reply] ?s = Some (Returned (0, r, []))" "myLocks r 12 = 1"
    using r(3,4) g(5) b(12) by simp_all
  ultimately show ?thesis using r(1,2) by blast
qed

text \<open>C14: \<open>grantWNI\<close> answers with a single message: its timestamp is that of the current interval, its
  packets are those of all intervals, host by host and oldest first, that have write notices and are later
  than the timestamp asked with. \<open>apendMsgData\<close> compares a packet only with the size of an empty message:
  if more than nine packets are needed, the tenth is written behind the end of the message.\<close>

theorem grantWNI_spec:
  assumes "mem_ok L W P s" "log_ok (host_log L W s)" "quiet s" "0 \<le> h" "h < hostnum s" "h \<noteq> myhostid s"
    and "length ts = MAX_HOST_NUM" "intervalNow s = Some i"
    and "pks = wni_packets (lacking (nat (hostnum s)) ts (host_log L W s))"
  shows "if length pks \<le> 9
    then \<exists>t port m. grantWNI h (Some ts) s = Some (0, t) \<and> quiet t \<and> net_frame s t \<and>
      sent (wire s) (wire t) [(nat h, port, m)] \<and> command_of (m_command m) = Some GRANT_WN_I \<and>
      m_timestamp m = i_timestamp (ivals s ! i) \<and> packets_of (m_data m) = Some pks
    else grantWNI h (Some ts) s = None"
proof -
  note g = grantWNI_eq [OF assms(1-8), folded assms(9), unfolded PER_MSG_def]
  show ?thesis
  proof (cases "length pks \<le> 9")
    case True
    then obtain t d where t: "grantWNI h (Some ts) s = Some (0, t)" "quiet t" "net_frame s t" "sent (wire s) (wire t) [d]"
      "carries (myhostid s) GRANT_WN_I d (h, i_timestamp (ivals s ! i), pks)"
      using g by auto
    then obtain port m where "d = (nat h, port, m)" "command_of (m_command m) = Some GRANT_WN_I"
      "m_timestamp m = i_timestamp (ivals s ! i)" "packets_of (m_data m) = Some pks"
      by (cases d) (auto simp: carries_def simp del: cmd_code.simps)
    with True t show ?thesis by auto
  next
    case False
    with g show ?thesis by simp
  qed
qed

text \<open>A host that knows of ten intervals of another one.\<close>

definition many_packets :: "wnPacket_t list" where
  "many_packets = map (\<lambda>i. notice_packet 0 (zero_ts[0 := int i]) [0]) [1..<11]"

lemma many_sample:
  "\<exists>g Lg Wg Pg. mem_ok Lg Wg Pg g \<and> log_ok (host_log Lg Wg g) \<and> quiet g \<and> hostnum g = 3 \<and> myhostid g = 2 \<and>
    intervalNow g = Some 0 \<and> (\<forall>h<MAX_HOST_NUM. host_log Lg Wg g h =
      (if h = 0 then rev (map (\<lambda>i. (zero_ts[0 := int i], [0])) [1..<11]) else if h = 2 then [(zero_ts, [])] else []))"
proof -
  let ?L = "\<lambda>g. if g = (2::nat) then [0] else []" and ?W = "\<lambda>_. []" and ?s = "boot 2 3"
  have b: "mem_ok ?L ?W (\<lambda>_ _. []) ?s" "hostnum ?s = 3" "myhostid ?s = 2" "intervalNow ?s = Some 0" "quiet ?s"
    "ivals ?s = [empty_interval\<lparr>i_isBarrier := 1\<rparr>]"
    using boot_ok [of 2 3] by (simp_all add: MAX_HOST_NUM_def)
  have old: "host_log ?L ?W ?s h = (if h = 2 then [(zero_ts, [])] else [])" for h
    by (simp add: host_log_def entry_of_def b(6) empty_interval_def)
  have stamps: "ts_ok (zero_ts[0 := int i])" if "i < 11" for i
    using that by (simp add: ts_ok_def zero_ts_def list_all_length nth_update in32_def size_consts)
  then have pks: "\<forall>pk\<in>set many_packets. packet_ok ?s pk"
    by (auto simp: many_packets_def packet_ok_def b(3) notice_packet_def packet_pages_def page_index_def size_consts)
  obtain g Lg Wg Pg where g: "incorporate_all many_packets ?s = Some g" "mem_ok Lg Wg Pg g"
    "\<forall>h<MAX_HOST_NUM. host_log Lg Wg g h = merge_packets many_packets (host_log ?L ?W ?s) h"
    using incorporate_all_ok [OF b(1) pks] by blast
  have new: "merge_packets (map (\<lambda>i. notice_packet 0 (zero_ts[0 := int i]) [0]) [1..<n]) (host_log ?L ?W ?s) h =
      (if h = 0 then rev (map (\<lambda>i. (zero_ts[0 := int i], [0])) [1..<n]) else host_log ?L ?W ?s h)" for n h
  proof (induction n)
    case (Suc n)
    have "(zero_ts[0 := x]) ! 0 = x" for x by (simp add: zero_ts_def MAX_HOST_NUM_def)
    then have "zero_ts[0 := int n] \<noteq> zero_ts[0 := int i]" if "i < n" for i
      using that by (metis less_irrefl of_nat_eq_iff)
    note ne = this
    have "zero_ts[0 := int n] \<notin> fst ` set (map (\<lambda>i. (zero_ts[0 := int i], [0::int])) [1..<n])"
    proof
      assume "zero_ts[0 := int n] \<in> fst ` set (map (\<lambda>i. (zero_ts[0 := int i], [0::int])) [1..<n])"
      then obtain e where e: "e \<in> set (map (\<lambda>i. (zero_ts[0 := int i], [0::int])) [1..<n])" "fst e = zero_ts[0 := int n]"
        by (elim imageE) simp
      obtain i where i: "i < n" "e = (zero_ts[0 := int i], [0])" using e(1) by auto
      show False using ne [OF i(1)] e(2) i(2) by simp
    qed
    with Suc show ?case by (auto simp: merge_packets_append merge_log_def)
  qed (simp add: old)
  have log: "host_log Lg Wg g h = (if h = 0 then rev (map (\<lambda>i. (zero_ts[0 := int i], [0])) [1..<11])
      else if h = 2 then [(zero_ts, [])] else [])" if "h < MAX_HOST_NUM" for h
    using g(3) that new [of 11] old by (simp add: many_packets_def)
  then have "log_ok (host_log Lg Wg g)" by (auto simp: log_ok_def page_index_def size_consts split: if_splits)
  moreover note f = heap_frame_all [OF g(1)]
  ultimately show ?thesis
    using g(2) log heap_frame_fields(1-3) [OF f] heap_frame_quiet [OF f] b(2-5) by metis
qed

theorem grantWNI_spec_witness:
  "\<exists>g Lg Wg Pg. mem_ok Lg Wg Pg g \<and> host_log Lg Wg g 0 = rev (map (\<lambda>i. (zero_ts[0 := int i], [0])) [1..<11]) \<and>
    grantWNI 1 (Some zero_ts) g = None"
proof -
  obtain g Lg Wg Pg where g: "mem_ok Lg Wg Pg g" "log_ok (host_log Lg Wg g)" "quiet g" "hostnum g = 3" "myhostid g = 2"
    "intervalNow g = Some 0" and log: "\<forall>h<MAX_HOST_NUM. host_log Lg Wg g h =
      (if h = 0 then rev (map (\<lambda>i. (zero_ts[0 := int i], [0])) [1..<11]) else if h = 2 then [(zero_ts, [])] else [])"
    using many_sample by blast
  have late: "ts_after 3 (zero_ts[0 := int i]) zero_ts" if "0 < i" for i
    using that by (auto simp: ts_after_def zero_ts_def nth_update MAX_HOST_NUM_def intro!: exI [of _ 0])
  let ?pks = "wni_packets (lacking (nat (hostnum g)) zero_ts (host_log Lg Wg g))"
  have zero: "host_log Lg Wg g 0 = rev (map (\<lambda>i. (zero_ts[0 := int i], [0])) [1..<11])" using log by (simp add: MAX_HOST_NUM_def)
  have all: "filter (lacks 3 zero_ts) (rev (host_log Lg Wg g 0)) = map (\<lambda>i. (zero_ts[0 := int i], [0])) [1..<11]"
    unfolding zero by (auto simp: filter_id_conv lacks_def late)
  have one: "length (entry_packets j (t, [0])) = 1" for j t
    by (simp add: entry_packets_def notice_packets_def page_chunks_short MAX_WN_NUM_def)
  have "length (wni_packets (map (Pair 0) (map (\<lambda>i. (zero_ts[0 := int i], [0])) is))) = length is" for "is"
    by (induction "is") (simp_all add: one)
  then have "length (wni_packets (map (Pair 0) (filter (lacks 3 zero_ts) (rev (host_log Lg Wg g 0))))) = 10"
    unfolding all by simp
  then have "\<not> length ?pks \<le> 9" by (simp add: lacking_def g(4) upt_conv_Cons)
  moreover have "length zero_ts = MAX_HOST_NUM" by (simp add: zero_ts_def)
  ultimately have "grantWNI 1 (Some zero_ts) g = None"
    using grantWNI_spec [OF g(1-3) _ _ _ _ g(6) refl, of 1 zero_ts] g(4,5) by simp
  with g(1) zero show ?thesis by blast
qed

text \<open>C39: An acquire can turn the clock back. \<open>handleGrantWNIMsg\<close> takes the timestamp of the granter for
  the new interval, with the own component one further, and does not form the maximum with what the host
  already knew. Where the granter lags behind in any component, the new interval is not later than the
  host's own older intervals, although it follows them.\<close>

theorem acquire_turns_clock_back:
  assumes "mem_ok L W P s" "ts_ok (m_timestamp m)" "packets_of (m_data m) = Some pks" "\<forall>pk\<in>set pks. packet_ok s pk"
    and "e \<in> set (host_log L W s (me s))" "int h < hostnum s" "own_next s (m_timestamp m) ! h < fst e ! h"
  shows "\<exists>t L' W' P'. handleGrantWNIMsg (Some m) s = Some t \<and> mem_ok L' W' P' t \<and>
    host_log L' W' t (me s) = (own_next s (m_timestamp m), []) # host_log L W s (me s) \<and>
    isAfterInterval (hostnum s) (Some (own_next s (m_timestamp m))) (Some (fst e)) = Some 0"
proof -
  have host: "host_ok s" using assms(1) by (simp add: mem_ok_def)
  have own: "int (me s) = myhostid s" "me s < MAX_HOST_NUM" using host_ok_me [OF host] by simp_all
  obtain k where k: "k \<in> set (L (me s))" "e = entry_of W s k" using assms(5) by (auto simp: host_log_def)
  then have "k < length (ivals s)"
    using links_interval_alloc [OF mem_ok_simps(2) [OF assms(1)] own(2)] by blast
  then have "ts_ok (fst e)" using assms(1) by (simp add: k(2) entry_of_def mem_ok_def)
  then have len: "length (fst e) = MAX_HOST_NUM" "length (own_next s (m_timestamp m)) = MAX_HOST_NUM"
    using own_next_ok [OF assms(2)] by (simp_all add: ts_ok_def)
  have "h < nat (hostnum s)" using assms(6) by simp
  then have "\<not> ts_after (nat (hostnum s)) (own_next s (m_timestamp m)) (fst e)"
    using assms(7) by (auto simp: ts_after_def not_le)
  then have cmp: "isAfterInterval (hostnum s) (Some (own_next s (m_timestamp m))) (Some (fst e)) = Some 0"
    using len host by (simp add: isAfterInterval_eq host_ok_def)
  have mine: "merge_packets pks lg (me s) = lg (me s)" for lg
    using assms(4)
  proof (induction pks arbitrary: lg)
    case (Cons pk pks)
    then have "k_hostid pk \<noteq> int (me s)" by (simp add: packet_ok_def own(1))
    with Cons show ?case by simp
  qed simp
  show ?thesis
    using handleGrantWNI_ok [OF assms(1-4)] own(2) cmp by (fastforce simp: mine start_log_def)
qed

theorem acquire_turns_clock_back_witness:
  "\<exists>s1 s2 m t. addNewInterval (boot 1 3) = Some s1 \<and> addNewInterval s1 = Some s2 \<and> m_timestamp m = zero_ts \<and>
    handleGrantWNIMsg (Some m) s2 = Some t \<and>
    isAfterInterval 3 (Some (own_next s2 zero_ts)) (Some (next_ts s1 (next_ts (boot 1 3) zero_ts))) = Some 0"
proof -
  let ?L = "\<lambda>g. if g = (1::nat) then [0] else []" and ?s = "boot 1 3"
  have b: "mem_ok ?L (\<lambda>_. []) (\<lambda>_ _. []) ?s" "hostnum ?s = 3" "myhostid ?s = 1" "me ?s = 1"
    "ivals ?s = [empty_interval\<lparr>i_isBarrier := 1\<rparr>]"
    using boot_ok [of 1 3] by (simp_all add: MAX_HOST_NUM_def)
  have ts: "i_timestamp (ivals ?s ! 0) = zero_ts" by (simp add: b(5) empty_interval_def)
  obtain s1 where s1: "addNewInterval ?s = Some s1" "mem_ok (?L(1 := [1, 0])) ((\<lambda>_. [])(1 := [])) (\<lambda>_ _. []) s1"
    "i_timestamp (ivals s1 ! 1) = next_ts ?s zero_ts" "hostnum s1 = 3" "myhostid s1 = 1"
    using addNewInterval_ok [OF b(1), of 0 "[]"] b(2-5) ts by auto
  have me1: "me s1 = 1" by (simp add: me_def s1(5))
  obtain s2 L W where s2: "addNewInterval s1 = Some s2" "mem_ok L W (\<lambda>_ _. []) s2"
    "(next_ts s1 (next_ts ?s zero_ts), []) \<in> set (host_log L W s2 1)" "hostnum s2 = 3" "myhostid s2 = 1"
    using addNewInterval_ok [OF s1(2), of 1 "[0]"] s1(3-5) me1 by (auto simp: MAX_HOST_NUM_def)
  have me2: "me s2 = 1" by (simp add: me_def s2(5))
  let ?m = "packed 0 1 GRANT_WN_I zero_ts (int_bytes 0)"
  have m: "ts_ok (m_timestamp ?m)" "packets_of (m_data ?m) = Some []" "\<forall>pk\<in>set []. packet_ok s2 pk"
    using packets_of_bytes [of "[]" "\<lambda>_. 0"] by (simp_all add: size_consts ts_ok_def zero_ts_def in32_def list_all_length)
  have e: "(next_ts s1 (next_ts ?s zero_ts), []) \<in> set (host_log L W s2 (me s2))" "int 1 < hostnum s2"
    "own_next s2 (m_timestamp ?m) ! 1 < fst (next_ts s1 (next_ts ?s zero_ts), [] :: int list) ! 1"
    using s2(3) by (simp_all add: me2 s2(4) own_next_def next_ts_def me1 b(4) s1(4) b(2) zero_ts_def MAX_HOST_NUM_def s32_def)
  obtain t where "handleGrantWNIMsg (Some ?m) s2 = Some t"
    "isAfterInterval 3 (Some (own_next s2 zero_ts)) (Some (next_ts s1 (next_ts ?s zero_ts))) = Some 0"
    using acquire_turns_clock_back [OF s2(2) m e] s2(4) by auto
  with s1(1) s2(1) show ?thesis
    by (intro exI [of _ s1] exI [of _ s2] exI [of _ ?m] exI [of _ t]) simp
qed

end
