(* ===== verification/Addresses.thy ===== *)
theory Addresses
  imports Notices
begin

text \<open>
  Which addresses \<open>segv_handler\<close> (\<open>src/mem.c\<close>) takes for pages of the shared region: the page number is
  computed in 64 bits and stored in an \<open>int\<close>.
\<close>

lemma fault_page_div:
  assumes "0 \<le> a"
  shows "fault_page a = s32 (a div int PAGESIZE - int START_ADDRESS div int PAGESIZE)"
proof -
  let ?q = "a div int PAGESIZE"
  have "(if a smod int PAGESIZE = 0 then a else a sdiv int PAGESIZE * int PAGESIZE) = ?q * int PAGESIZE"
    using assms by (auto simp: smod_nonneg sdiv_nonneg size_consts)
  then have "fault_page a = s32 ((?q * int PAGESIZE - int START_ADDRESS) sdiv int PAGESIZE)"
    by (simp only: fault_page_def Let_def)
  moreover have "?q * int PAGESIZE - int START_ADDRESS = (?q - int START_ADDRESS div int PAGESIZE) * int PAGESIZE"
    by (simp add: size_consts)
  moreover have "(x * int PAGESIZE) sdiv int PAGESIZE = x" for x
    by (simp add: size_consts signed_divide_int_def sgn_mult abs_mult sgn_mult_abs)
  ultimately show ?thesis by simp
qed

text \<open>Below \<open>START_ADDRESS + 2^43\<close> the page number is that of the address; \<open>2^44\<close> bytes make no difference.\<close>

lemma fault_page_near:
  assumes "0 \<le> a" "a < int START_ADDRESS + 2 ^ 43"
  shows "fault_page a = (a - int START_ADDRESS) div int PAGESIZE"
proof -
  have "in32 (a div int PAGESIZE - int START_ADDRESS div int PAGESIZE)"
    using assms by (simp add: in32_def size_consts)
  then show ?thesis using fault_page_div [OF assms(1)] by (simp add: in32_def s32_def size_consts)
qed

lemma fault_page_far: "0 \<le> a \<Longrightarrow> fault_page (a + 2 ^ 44) = fault_page a"
proof -
  assume a: "0 \<le> a"
  let ?q = "a div int PAGESIZE - int START_ADDRESS div int PAGESIZE"
  have "(a + 2 ^ 44) div int PAGESIZE = a div int PAGESIZE + 2 ^ 32" by (simp add: size_consts)
  then have "fault_page (a + 2 ^ 44) = s32 (?q + 2 ^ 32)"
    using fault_page_div [of "a + 2 ^ 44"] a by (simp add: algebra_simps)
  also have "\<dots> = s32 ?q" using mod_add_self1 [of "2 ^ 32" "?q + 2 ^ 31"] by (simp add: s32_def algebra_simps)
  finally show ?thesis using fault_page_div [OF a] by simp
qed

text \<open>What the handler does once the page number is known.\<close>

lemma segv_handler_page:
  assumes "fault_page a = int k" "k < MAX_PAGE_NUM"
  shows "segv_handler a env s = (case p_state (pageArray s k) of
      UNMAP \<Rightarrow> Some (Returned Exited)
    | WRITE \<Rightarrow> Some (Returned (Resumed s env))
    | RDONLY \<Rightarrow> map_option (\<lambda>t. Returned (Resumed t env)) (write_fault (int k) s)
    | MISS \<Rightarrow> Option.bind (fetchPage (int k) env s) (\<lambda>w. on_return w (\<lambda>(_, t, env').
        Some (Returned (Resumed (make_readable (int k) t) env'))))
    | INVALID \<Rightarrow> Option.bind (fetchDiff (int k) env s) (\<lambda>w. on_return w (\<lambda>(_, t, env').
        Some (Returned (Resumed (make_readable (int k) t) env')))))"
  using assms by (simp add: segv_handler_def Let_def map_conv_bind_option comp_def split: pagestate_t.split)

lemma segv_handler_exits:
  assumes "fault_page a = int k" "k < MAX_PAGE_NUM"
  shows "segv_handler a env s = Some (Returned Exited) \<longleftrightarrow> p_state (pageArray s k) = UNMAP"
  unfolding segv_handler_page [OF assms]
  by (auto simp: bind_eq_Some_conv on_return_def split: pagestate_t.split wait.splits)

text \<open>C15: Among the addresses below \<open>START_ADDRESS + 2^43\<close> the fault handler ends the program exactly for
  those outside the pages handed out so far; the pages of the region that are not handed out yet end it
  too. An address in page \<open>k\<close> of those handed out is served for that page, whatever its offset: a readable
  page becomes writable, a missing or invalid one is fetched and made readable (the handler waits as long
  as the fetch does), a writable one is left alone, and the program resumes. The page number is cut off to
  32 bits, so that addresses \<open>2^44\<close> bytes apart are treated alike: a wild access far above the region is
  taken for an access to a shared page and never ends the program.\<close>

theorem fault_address:
  assumes "0 \<le> a" "a < int START_ADDRESS + 2 ^ 43" "alloc_ok s"
  shows "(segv_handler a env s = Some (Returned Exited) \<longleftrightarrow>
      \<not> (int START_ADDRESS \<le> a \<and> a < int START_ADDRESS + pagenum s * int PAGESIZE)) \<and>
    (\<forall>k off. a = page_addr k + int off \<and> off < PAGESIZE \<and> int k < pagenum s \<longrightarrow>
      fault_page a = int k \<and>
      segv_handler a env s = (case p_state (pageArray s k) of
          UNMAP \<Rightarrow> Some (Returned Exited)
        | WRITE \<Rightarrow> Some (Returned (Resumed s env))
        | RDONLY \<Rightarrow> map_option (\<lambda>t. Returned (Resumed t env)) (write_fault (int k) s)
        | MISS \<Rightarrow> Option.bind (fetchPage (int k) env s) (\<lambda>w. on_return w (\<lambda>(_, t, env').
            Some (Returned (Resumed (make_readable (int k) t) env'))))
        | INVALID \<Rightarrow> Option.bind (fetchDiff (int k) env s) (\<lambda>w. on_return w (\<lambda>(_, t, env').
            Some (Returned (Resumed (make_readable (int k) t) env')))))) \<and>
    segv_handler (a + 2 ^ 44) env s = segv_handler a env s"
proof -
  let ?q = "(a - int START_ADDRESS) div int PAGESIZE"
  note fp = fault_page_near [OF assms(1,2)]
  have far: "segv_handler (a + 2 ^ 44) env s = segv_handler a env s"
    unfolding segv_handler_def Let_def fault_page_far [OF assms(1)] ..
  have pn: "0 \<le> pagenum s" "pagenum s \<le> int MAX_PAGE_NUM"
    and unmap: "\<And>k. k < MAX_PAGE_NUM \<Longrightarrow> p_state (pageArray s k) = UNMAP \<longleftrightarrow> pagenum s \<le> int k"
    using assms(3) by (auto simp: alloc_ok_def)
  have region: "int START_ADDRESS \<le> a \<and> a < int START_ADDRESS + pagenum s * int PAGESIZE \<longleftrightarrow>
      0 \<le> ?q \<and> ?q < pagenum s"
    by (auto simp: size_consts)
  have "segv_handler a env s = Some (Returned Exited) \<longleftrightarrow> \<not> (0 \<le> ?q \<and> ?q < pagenum s)"
  proof (cases "0 \<le> ?q \<and> ?q < int MAX_PAGE_NUM")
    case True
    then obtain k where k: "?q = int k" "k < MAX_PAGE_NUM" using zero_le_imp_eq_int [of ?q] by auto
    with segv_handler_exits [OF _ k(2), of a env s] unmap [OF k(2)] show ?thesis by (auto simp: fp)
  next
    case False
    then have "segv_handler a env s = Some (Returned Exited)"
      by (auto simp: segv_handler_def Let_def fp)
    with False pn show ?thesis by auto
  qed
  moreover have "fault_page a = int k" if "a = page_addr k + int off" "off < PAGESIZE" "int k < pagenum s" for k off
    using fault_page_eq [of k off] that pn by simp
  ultimately show ?thesis
    using far region segv_handler_page [of a _ env s] pn by (auto simp del: of_nat_less_iff intro!: segv_handler_page)
qed

theorem fault_address_witness:
  "segv_handler 4096 [] sample = Some (Returned Exited) \<and>
    segv_handler (page_addr 0 + 12) [] sample = map_option (\<lambda>t. Returned (Resumed t [])) (write_fault 0 sample) \<and>
    segv_handler (page_addr 1) [] sample = Some (Returned Exited) \<and>
    segv_handler (4096 + 2 ^ 44) [] sample = segv_handler 4096 [] sample"
proof -
  have s: "alloc_ok sample" "p_state (pageArray sample 0) = RDONLY" using sample_ok by simp_all
  have p: "pagenum sample = 1" using sample_ok by simp
  have "segv_handler 4096 [] sample = Some (Returned Exited) \<and>
      segv_handler (4096 + 2 ^ 44) [] sample = segv_handler 4096 [] sample"
    using fault_address [of 4096 sample "[]"] s by (simp add: size_consts)
  moreover have "segv_handler (page_addr 1) [] sample = Some (Returned Exited)"
    using fault_address [of "page_addr 1" sample "[]"] s p by (simp add: size_consts page_addr_def)
  moreover have "segv_handler (page_addr 0 + 12) [] sample =
      map_option (\<lambda>t. Returned (Resumed t [])) (write_fault 0 sample)"
    using fault_address [of "page_addr 0 + 12" sample "[]"] s p
    by (auto simp: size_consts page_addr_def dest: spec [of _ 0] spec [of _ 12])
  ultimately show ?thesis by blast
qed

end
