(* ===== verification/LockProtocol.thy ===== *)
theory LockProtocol
  imports Prelude "HOL-Library.Multiset"
begin

text \<open>
  The protocol of one lock, without the data structures of the program: the specification of
  \<open>mi_lock\<close>, \<open>mi_unlock\<close> and the handlers of \<open>src/syn.c\<close> on a cluster of hosts. Messages are tokens on
  their way, delivered once; a request does not overtake a release of the same host. At the end: mutual exclusion, by rule
  induction over the steps; and simulation of one transition system by another, as a locale.
\<close>

section \<open>Transition systems\<close>

inductive reaches :: "('s \<Rightarrow> bool) \<Rightarrow> ('s \<Rightarrow> 's \<Rightarrow> bool) \<Rightarrow> 's \<Rightarrow> bool" for init step where
  start: "init s \<Longrightarrow> reaches init step s"
| more: "reaches init step s \<Longrightarrow> step s t \<Longrightarrow> reaches init step t"

text \<open>The concrete system simulates the abstract one: each step is an abstract step or none.\<close>

locale simulation =
  fixes cinit :: "'c \<Rightarrow> bool" and cstep :: "'c \<Rightarrow> 'c \<Rightarrow> bool"
    and ainit :: "'a \<Rightarrow> bool" and astep :: "'a \<Rightarrow> 'a \<Rightarrow> bool"
    and R :: "'c \<Rightarrow> 'a \<Rightarrow> bool"
  assumes simulated_init: "cinit c \<Longrightarrow> \<exists>a. ainit a \<and> R c a"
    and simulated_step: "reaches ainit astep a \<Longrightarrow> R c a \<Longrightarrow> cstep c d \<Longrightarrow> \<exists>b. (b = a \<or> astep a b) \<and> R d b"
begin

lemma simulated: "reaches cinit cstep c \<Longrightarrow> \<exists>a. reaches ainit astep a \<and> R c a"
proof (induction rule: reaches.induct)
  case (start c)
  then show ?case using simulated_init by (blast intro: reaches.start)
next
  case (more c d)
  then show ?case using simulated_step by (blast intro: reaches.more)
qed

lemma transfer_invariant:
  "reaches cinit cstep c \<Longrightarrow> (\<And>a. reaches ainit astep a \<Longrightarrow> R c a \<Longrightarrow> Q) \<Longrightarrow> Q"
  using simulated by blast

end

text \<open>Some of the steps are matched by abstract ones that get closer to a goal: so many of them can be
  taken in a row, and no more.\<close>

locale progress = simulation +
  fixes cserve :: "'a \<Rightarrow> 'a \<Rightarrow> bool" and aserve :: "'b \<Rightarrow> 'b \<Rightarrow> bool" and todo :: "'b \<Rightarrow> nat"
  assumes serve_simulated: "reaches ainit astep a \<Longrightarrow> R c a \<Longrightarrow> cserve c d \<Longrightarrow> \<exists>b. aserve a b \<and> R d b"
    and serve_step: "aserve a b \<Longrightarrow> astep a b"
    and serve_less: "reaches ainit astep a \<Longrightarrow> aserve a b \<Longrightarrow> todo b < todo a"
begin

lemma run_length:
  "(cserve ^^ n) c d \<Longrightarrow> reaches ainit astep a \<Longrightarrow> R c a \<Longrightarrow>
    \<exists>b. reaches ainit astep b \<and> R d b \<and> todo b + n \<le> todo a"
proof (induction n arbitrary: d)
  case (Suc n)
  then obtain e where e: "(cserve ^^ n) c e" "cserve e d" by auto
  with Suc obtain b where b: "reaches ainit astep b" "R e b" "todo b + n \<le> todo a" by blast
  moreover from serve_simulated [OF b(1,2) e(2)] obtain b' where "aserve b b'" "R d b'" by blast
  ultimately show ?case using serve_less serve_step by (intro exI [of _ b']) (auto intro: reaches.more dest: serve_less)
qed auto

end

section \<open>The protocol\<close>

text \<open>What the program on a host does: it runs, waits in \<open>mi_lock\<close>, or, on the manager only, owns the
  lock and fetches write notices.\<close>

datatype pc = Running | Waiting | Fetching

datatype token = Acq nat | Rls nat | Grant nat

record proto =
  a_owner :: "nat option"
  a_queue :: "nat list"
  a_msgs :: "token multiset"
  a_held :: "nat set"
  a_pc :: "nat \<Rightarrow> pc"

definition proto_init :: proto where
  "proto_init = \<lparr>a_owner = None, a_queue = [], a_msgs = {#}, a_held = {}, a_pc = (\<lambda>_. Running)\<rparr>"

text \<open>The lock passes to the host that has waited longest; \<open>M\<close> is the manager.\<close>

definition handover :: "nat \<Rightarrow> proto \<Rightarrow> proto" where
  "handover M a = (case a_queue a of
     [] \<Rightarrow> a\<lparr>a_owner := None\<rparr>
   | w # q \<Rightarrow> a\<lparr>a_owner := Some w, a_queue := q,
       a_held := (if w = M then insert M (a_held a) else a_held a),
       a_msgs := (if w = M then a_msgs a else add_mset (Grant w) (a_msgs a))\<rparr>)"

text \<open>The manager takes up a request.\<close>

definition take_up :: "nat \<Rightarrow> proto \<Rightarrow> proto" where
  "take_up h a = (case a_owner a of
     None \<Rightarrow> a\<lparr>a_owner := Some h, a_msgs := add_mset (Grant h) (a_msgs a)\<rparr>
   | Some g \<Rightarrow> if g = h then a else a\<lparr>a_queue := a_queue a @ [h]\<rparr>)"

text \<open>Serving the requests there are: messages arrive, a host that got the lock goes on, and in the end
  releases it.\<close>

inductive proto_serve :: "nat \<Rightarrow> nat \<Rightarrow> proto \<Rightarrow> proto \<Rightarrow> bool" for M N where
  fetched: "a_pc a M = Fetching \<Longrightarrow>
    proto_serve M N a (a\<lparr>a_pc := (a_pc a)(M := Running), a_held := insert M (a_held a)\<rparr>)"
| wake: "h < N \<Longrightarrow> a_pc a h = Waiting \<Longrightarrow> h \<in> a_held a \<Longrightarrow>
    proto_serve M N a (a\<lparr>a_pc := (a_pc a)(h := Running)\<rparr>)"
| take_acq: "Acq h \<in># a_msgs a \<Longrightarrow> Rls h \<notin># a_msgs a \<Longrightarrow>
    proto_serve M N a (take_up h (a\<lparr>a_msgs := a_msgs a - {#Acq h#}\<rparr>))"
| take_rls: "Rls h \<in># a_msgs a \<Longrightarrow> a_owner a = Some h \<Longrightarrow>
    proto_serve M N a (handover M (a\<lparr>a_msgs := a_msgs a - {#Rls h#}\<rparr>))"
| take_grant: "Grant h \<in># a_msgs a \<Longrightarrow>
    proto_serve M N a (a\<lparr>a_msgs := a_msgs a - {#Grant h#}, a_held := insert h (a_held a)\<rparr>)"
| unlock: "h < N \<Longrightarrow> h \<noteq> M \<Longrightarrow> a_pc a h = Running \<Longrightarrow> h \<in> a_held a \<Longrightarrow>
    proto_serve M N a (a\<lparr>a_held := a_held a - {h}, a_msgs := add_mset (Rls h) (a_msgs a)\<rparr>)"
| unlock_own: "a_pc a M = Running \<Longrightarrow> M \<in> a_held a \<Longrightarrow>
    proto_serve M N a (handover M (a\<lparr>a_held := a_held a - {M}\<rparr>))"

inductive proto_step :: "nat \<Rightarrow> nat \<Rightarrow> proto \<Rightarrow> proto \<Rightarrow> bool" for M N where
  ask: "h < N \<Longrightarrow> h \<noteq> M \<Longrightarrow> a_pc a h = Running \<Longrightarrow> h \<notin> a_held a \<Longrightarrow>
    proto_step M N a (a\<lparr>a_pc := (a_pc a)(h := Waiting), a_msgs := add_mset (Acq h) (a_msgs a)\<rparr>)"
| ask_own_busy: "a_pc a M = Running \<Longrightarrow> M \<notin> a_held a \<Longrightarrow> a_owner a \<noteq> None \<Longrightarrow>
    proto_step M N a (a\<lparr>a_pc := (a_pc a)(M := Waiting), a_queue := a_queue a @ [M]\<rparr>)"
| ask_own_fetch: "a_pc a M = Running \<Longrightarrow> a_owner a = None \<Longrightarrow>
    proto_step M N a (a\<lparr>a_pc := (a_pc a)(M := Fetching), a_owner := Some M\<rparr>)"
| ask_own_free: "a_pc a M = Running \<Longrightarrow> a_owner a = None \<Longrightarrow>
    proto_step M N a (a\<lparr>a_held := insert M (a_held a), a_owner := Some M\<rparr>)"
| serve: "proto_serve M N a b \<Longrightarrow> proto_step M N a b"

section \<open>The invariant\<close>

text \<open>The lock is in one place only: on its way to or from its owner, or with it. A host has at most
  one request, on its way or in the queue, and waits for it.\<close>

text \<open>What the invariant says of one host: \<open>mgr\<close> and \<open>valid\<close> tell whether it is the manager and a host at
  all, \<open>own\<close> and \<open>none\<close> whether it or nobody owns the lock, \<open>g\<close>, \<open>r\<close> and \<open>q\<close> count its grants, releases
  and requests on their way, \<open>w\<close> its places in the queue.\<close>

definition host_view :: "bool \<Rightarrow> bool \<Rightarrow> bool \<Rightarrow> bool \<Rightarrow> pc \<Rightarrow> bool \<Rightarrow> nat \<Rightarrow> nat \<Rightarrow> nat \<Rightarrow> nat \<Rightarrow> bool" where
  "host_view mgr valid own none p held g r q w \<longleftrightarrow>
     g + r + (if held then 1 else 0) + (if p = Fetching then 1 else 0) = (if own then 1 else (0::nat)) \<and>
     q + w \<le> 1 \<and> (0 < q + w \<longrightarrow> p = Waiting \<and> \<not> held \<and> g = 0) \<and> (0 < g \<longrightarrow> p = Waiting) \<and>
     (p = Fetching \<longrightarrow> mgr) \<and> (none \<or> own \<longrightarrow> w = 0) \<and> (\<not> valid \<or> mgr \<longrightarrow> q = 0 \<and> r = 0 \<and> g = 0) \<and>
     (\<not> valid \<longrightarrow> w = 0) \<and> (p = Waiting \<longrightarrow> g + q + w + (if held then 1 else 0) = 1)"

definition host_inv :: "nat \<Rightarrow> nat \<Rightarrow> proto \<Rightarrow> nat \<Rightarrow> bool" where
  "host_inv M N a h \<longleftrightarrow> host_view (h = M) (h < N) (a_owner a = Some h) (a_owner a = None) (a_pc a h) (h \<in> a_held a)
     (count (a_msgs a) (Grant h)) (count (a_msgs a) (Rls h)) (count (a_msgs a) (Acq h)) (count_list (a_queue a) h)"

lemma host_inv_init: "host_inv M N proto_init h"
  by (simp add: host_inv_def proto_init_def host_view_def)

lemma count_list_snoc [simp]: "count_list (xs @ [y]) x = count_list xs x + (if x = y then 1 else 0)"
  by (induction xs) auto

text \<open>The steps as seen by the host that takes them.\<close>

lemma host_view_ask:
  "host_view False True own none Running False g r q w \<Longrightarrow> host_view False True own none Waiting False g r (Suc q) w"
  "host_view True True own False Running False g r q w \<Longrightarrow> host_view True True own False Waiting False g r q (Suc w)"
  "host_view True True False True Running held g r q w \<Longrightarrow> host_view True True True False Fetching held g r q w"
  "host_view True True False True Running held g r q w \<Longrightarrow> host_view True True True False Running True g r q w"
  "host_view True True own none Fetching held g r q w \<Longrightarrow> host_view True True own none Running True g r q w"
  "host_view mgr True own none Waiting True g r q w \<Longrightarrow> host_view mgr True own none Running True g r q w"
  by (auto simp: host_view_def split: if_splits)

lemma host_view_other:
  "host_view mgr valid False none p held g r q w \<Longrightarrow> host_view mgr valid False False p held g r q w"
  "host_view mgr valid False none p held g r q 0 \<Longrightarrow> host_view mgr valid False True p held g r q 0"
  by (auto simp: host_view_def split: if_splits)

lemma host_inv_token:
  assumes "host_inv M N a h" "Acq h \<in># a_msgs a \<or> Rls h \<in># a_msgs a \<or> Grant h \<in># a_msgs a"
  shows "h \<noteq> M" "h < N"
proof -
  have "0 < count (a_msgs a) (Acq h) \<or> 0 < count (a_msgs a) (Rls h) \<or> 0 < count (a_msgs a) (Grant h)"
    using assms(2) by (auto simp: count_greater_zero_iff)
  moreover have "\<not> h < N \<or> h = M \<longrightarrow> count (a_msgs a) (Acq h) = 0 \<and> count (a_msgs a) (Rls h) = 0 \<and> count (a_msgs a) (Grant h) = 0"
    using assms(1) by (simp add: host_inv_def host_view_def)
  ultimately show "h \<noteq> M" "h < N" by (metis less_irrefl)+
qed

lemma host_view_take:
  "host_view False True False True p held g r q w \<Longrightarrow> 0 < q \<Longrightarrow> host_view False True True False p held (Suc g) r (q - Suc 0) w"
  "host_view False True False False p held g r q w \<Longrightarrow> 0 < q \<Longrightarrow> host_view False True False False p held g r (q - Suc 0) (Suc w)"
  "host_view False True True False p held g r q w \<Longrightarrow> 0 < q \<Longrightarrow> 0 < r"
  "host_view False True own none p held g r q w \<Longrightarrow> 0 < g \<Longrightarrow> host_view False True own none p True (g - Suc 0) r q w"
  "host_view False True own none Running True g r q w \<Longrightarrow> host_view False True own none Running False g (Suc r) q w"
  by (auto simp: host_view_def split: if_splits)

text \<open>The owner gives the lock away, and the first host of the queue gets it.\<close>

definition unowned :: "nat \<Rightarrow> nat \<Rightarrow> proto \<Rightarrow> nat \<Rightarrow> bool" where
  "unowned M N a h \<longleftrightarrow> host_view (h = M) (h < N) False False (a_pc a h) (h \<in> a_held a)
     (count (a_msgs a) (Grant h)) (count (a_msgs a) (Rls h)) (count (a_msgs a) (Acq h)) (count_list (a_queue a) h)"

lemma host_view_give:
  "host_view False True True False p held g r q w \<Longrightarrow> 0 < r \<Longrightarrow> host_view False True False False p held g (r - Suc 0) q w"
  "host_view True True True False Running True g r q w \<Longrightarrow> host_view True True False False Running False g r q w"
  "host_view False True False False p held g r q (Suc w) \<Longrightarrow> host_view False True True False p held (Suc g) r q w"
  "host_view True True False False p held g r q (Suc w) \<Longrightarrow> host_view True True True False p True g r q w"
  by (auto simp: host_view_def split: if_splits)

lemma handover_inv:
  assumes "\<And>h. unowned M N a h" "M < N"
  shows "host_inv M N (handover M a) h"
proof (cases "a_queue a")
  case Nil
  then show ?thesis
    using assms(1) [of h] host_view_other(2) by (simp add: handover_def unowned_def host_inv_def)
next
  case (Cons w q)
  have "w < N" using assms(1) [of w] Cons by (auto simp: unowned_def host_view_def)
  then show ?thesis
    using assms(1) [of h] assms(2) Cons
    by (cases "h = w"; cases "w = M") (simp_all add: handover_def unowned_def host_inv_def host_view_give(3,4))
qed

lemma host_inv_serve:
  assumes step: "proto_serve M N a b" and inv: "\<And>h. host_inv M N a h" and M: "M < N"
  shows "host_inv M N b h"
  using step
proof cases
  case fetched
  with inv [of h] M show ?thesis by (cases "h = M") (simp_all add: host_inv_def host_view_ask(5))
next
  case (wake g)
  with inv [of h] show ?thesis by (cases "h = g") (simp_all add: host_inv_def host_view_ask(6))
next
  case (take_acq g)
  have g: "g \<noteq> M" "g < N" using host_inv_token [OF inv] take_acq(2) by auto
  show ?thesis
  proof (cases "a_owner a")
    case None
    with take_acq inv [of h] inv [of g] g show ?thesis
      by (cases "h = g") (simp_all add: host_inv_def take_up_def host_view_take(1) host_view_other(1) [where none = True])
  next
    case (Some y)
    with take_acq inv [of h] inv [of g] g show ?thesis
      by (cases "h = g"; cases "y = g") (auto simp: host_inv_def take_up_def host_view_take(2) dest: host_view_take(3))
  qed
next
  case (take_rls g)
  have g: "g \<noteq> M" "g < N" using host_inv_token [OF inv] take_rls(2) by auto
  let ?a = "a\<lparr>a_msgs := a_msgs a - {#Rls g#}\<rparr>"
  have "unowned M N ?a h" for h
    using take_rls inv [of h] g by (cases "h = g") (simp_all add: host_inv_def unowned_def host_view_give(1) host_view_other(1))
  then show ?thesis using handover_inv M take_rls(1) by blast
next
  case (take_grant g)
  have g: "g \<noteq> M" "g < N" using host_inv_token [OF inv] take_grant(2) by auto
  with take_grant inv [of h] show ?thesis
    by (cases "h = g") (simp_all add: host_inv_def host_view_take(4))
next
  case (unlock g)
  with inv [of h] show ?thesis
    by (cases "h = g") (simp_all add: host_inv_def host_view_take(5))
next
  case unlock_own
  have own: "a_owner a = Some M" using inv [of M] unlock_own by (auto simp: host_inv_def host_view_def split: if_splits)
  let ?a = "a\<lparr>a_held := a_held a - {M}\<rparr>"
  have "unowned M N ?a h" for h
    using unlock_own inv [of h] own M
    by (cases "h = M") (simp_all add: host_inv_def unowned_def host_view_give(2) host_view_other(1))
  then show ?thesis using handover_inv M unlock_own(1) by blast
qed

lemma host_inv_step:
  assumes step: "proto_step M N a b" and inv: "\<And>h. host_inv M N a h" and M: "M < N"
  shows "host_inv M N b h"
  using step
proof cases
  case (ask g)
  show ?thesis
  proof (cases "h = g")
    case True
    with inv [of g] ask show ?thesis by (simp add: host_inv_def host_view_ask(1))
  next
    case False
    with inv [of h] ask show ?thesis by (simp add: host_inv_def)
  qed
next
  case ask_own_busy
  then obtain y where y: "a_owner a = Some y" by blast
  moreover have "y \<noteq> M" using ask_own_busy inv [of M] y by (auto simp: host_inv_def host_view_def)
  ultimately show ?thesis
    using ask_own_busy inv [of h] M by (cases "h = M") (simp_all add: host_inv_def host_view_ask(2))
next
  case ask_own_fetch
  with inv [of h] M show ?thesis by (cases "h = M") (simp_all add: host_inv_def host_view_ask(3) host_view_other(1) [where none = True])
next
  case ask_own_free
  with inv [of h] M show ?thesis by (cases "h = M") (simp_all add: host_inv_def host_view_ask(4) host_view_other(1) [where none = True])
next
  case serve
  with inv M show ?thesis by (blast intro: host_inv_serve)
qed

text \<open>Single consequences of the invariant.\<close>

lemma host_viewD:
  assumes "host_view mgr valid own none p held g r q w"
  shows "0 < q \<Longrightarrow> w = 0" "0 < g \<Longrightarrow> p = Waiting" "0 < r \<Longrightarrow> own" "0 < r \<Longrightarrow> \<not> held" "held \<Longrightarrow> own"
    "none \<Longrightarrow> w = 0" "p = Fetching \<Longrightarrow> mgr" "0 < w \<Longrightarrow> p = Waiting" "p = Running \<Longrightarrow> q = 0 \<and> w = 0"
    "mgr \<Longrightarrow> own \<Longrightarrow> held \<or> p = Fetching"
  using assms by (auto simp: host_view_def split: if_splits)

lemma host_invD:
  assumes "host_inv M N a h"
  shows "Acq h \<in># a_msgs a \<Longrightarrow> h \<notin> set (a_queue a)" "Grant h \<in># a_msgs a \<Longrightarrow> a_pc a h = Waiting"
    "Rls h \<in># a_msgs a \<Longrightarrow> a_owner a = Some h" "h \<in> a_held a \<Longrightarrow> a_owner a = Some h"
    "a_owner a = None \<Longrightarrow> h \<notin> set (a_queue a)" "a_pc a h = Fetching \<Longrightarrow> h = M"
    "h \<in> set (a_queue a) \<Longrightarrow> a_pc a h = Waiting" "a_pc a h = Running \<Longrightarrow> Acq h \<notin># a_msgs a \<and> h \<notin> set (a_queue a)"
    "h = M \<Longrightarrow> a_owner a = Some h \<Longrightarrow> h \<in> a_held a \<or> a_pc a h = Fetching"
proof -
  have w: "h \<in> set (a_queue a) \<longleftrightarrow> 0 < count_list (a_queue a) h" by (metis count_list_0_iff gr0I less_irrefl)
  note D = host_viewD [OF assms [unfolded host_inv_def]]
  show "Acq h \<in># a_msgs a \<Longrightarrow> h \<notin> set (a_queue a)" using D(1) by (simp add: w)
  show "Grant h \<in># a_msgs a \<Longrightarrow> a_pc a h = Waiting" using D(2) by simp
  show "Rls h \<in># a_msgs a \<Longrightarrow> a_owner a = Some h" using D(3) by simp
  show "h \<in> a_held a \<Longrightarrow> a_owner a = Some h" by (rule D(5))
  show "a_owner a = None \<Longrightarrow> h \<notin> set (a_queue a)" using D(6) by (simp add: w)
  show "a_pc a h = Fetching \<Longrightarrow> h = M" by (rule D(7))
  show "h \<in> set (a_queue a) \<Longrightarrow> a_pc a h = Waiting" using D(8) by (simp add: w)
  show "a_pc a h = Running \<Longrightarrow> Acq h \<notin># a_msgs a \<and> h \<notin> set (a_queue a)" using D(9) by (simp add: w count_eq_zero_iff [symmetric])
  show "h = M \<Longrightarrow> a_owner a = Some h \<Longrightarrow> h \<in> a_held a \<or> a_pc a h = Fetching" by (rule D(10))
qed

definition proto_reach :: "nat \<Rightarrow> nat \<Rightarrow> proto \<Rightarrow> bool" where
  "proto_reach M N = reaches (\<lambda>a. M < N \<and> a = proto_init) (proto_step M N)"

lemma proto_reach_inv: "proto_reach M N a \<Longrightarrow> M < N \<and> (\<forall>h. host_inv M N a h)"
  unfolding proto_reach_def
proof (induction rule: reaches.induct)
  case (start a)
  then show ?case by (simp add: host_inv_init)
next
  case (more a b)
  then show ?case by (blast intro: host_inv_step)
qed

lemmas proto_inv = conjunct2 [OF proto_reach_inv, rule_format]
  and proto_manager = conjunct1 [OF proto_reach_inv]

section \<open>Every request is served\<close>

text \<open>How far a host is from being done with the lock.\<close>

definition host_weight :: "proto \<Rightarrow> nat \<Rightarrow> nat" where
  "host_weight a h = 6 * count (a_msgs a) (Acq h) + 5 * count_list (a_queue a) h + 4 * count (a_msgs a) (Grant h) +
     (if h \<in> a_held a then if a_pc a h = Waiting then 3 else 2 else 0) + count (a_msgs a) (Rls h) +
     (if a_pc a h = Fetching then 3 else 0)"

definition work :: "nat \<Rightarrow> proto \<Rightarrow> nat" where
  "work N a = (\<Sum>h<N. host_weight a h)"

lemma host_view_weight:
  "host_view mgr valid own none p held g r q w \<Longrightarrow>
    6 * q + 5 * w + 4 * g + (if held then if p = Waiting then 3 else 2 else 0) + r + (if p = Fetching then 3 else 0) \<le> 7"
  by (cases own; cases p; cases held) (auto simp: host_view_def)

lemma host_view_grant: "host_view mgr valid own none p held g r q w \<Longrightarrow> 0 < g \<Longrightarrow> \<not> held"
  by (cases own) (auto simp: host_view_def)

lemma host_weight_bound: "host_inv M N a h \<Longrightarrow> host_weight a h \<le> 7"
  unfolding host_inv_def host_weight_def by (rule host_view_weight)

lemma work_bound:
  assumes "\<And>h. host_inv M N a h"
  shows "work N a \<le> 7 * N"
  using sum_bounded_above [of "{..<N}" "host_weight a" 7] host_weight_bound [OF assms] by (simp add: work_def)

lemma work_less:
  assumes "\<And>h. host_weight b h \<le> host_weight a h" "host_weight b g < host_weight a g" "g < N"
  shows "work N b < work N a"
  unfolding work_def using assms by (intro sum_strict_mono_ex1) auto

lemma handover_weight:
  assumes "\<And>h. unowned M N a h"
  shows "host_weight (handover M a) h \<le> host_weight a h"
proof (cases "a_queue a")
  case (Cons w q)
  have "a_pc a w = Waiting" using assms [of w] Cons by (auto simp: unowned_def host_view_def)
  then show ?thesis using Cons by (cases "h = w") (auto simp: handover_def host_weight_def)
qed (simp add: handover_def host_weight_def)

lemma serve_less_work:
  assumes step: "proto_serve M N a b" and inv: "\<And>h. host_inv M N a h" and M: "M < N"
  shows "work N b < work N a"
  using step
proof cases
  case fetched
  have "M \<notin> a_held a" using inv [of M] fetched by (auto simp: host_inv_def host_view_def split: if_splits)
  with fetched M show ?thesis by (intro work_less [of _ _ M]) (auto simp: host_weight_def)
next
  case (wake g)
  then show ?thesis by (intro work_less [of _ _ g]) (auto simp: host_weight_def)
next
  case (take_acq g)
  have g: "g < N" using host_inv_token [OF inv] take_acq(2) by auto
  have q: "0 < count (a_msgs a) (Acq g)" "count (a_msgs a) (Rls g) = 0" using take_acq by (simp_all add: count_eq_zero_iff)
  have "a_owner a \<noteq> Some g"
  proof
    assume "a_owner a = Some g"
    then have "host_view False True True False (a_pc a g) (g \<in> a_held a) (count (a_msgs a) (Grant g)) 0
        (count (a_msgs a) (Acq g)) (count_list (a_queue a) g)"
      using inv [of g] q(2) g host_inv_token(1) [OF inv] take_acq(2) by (simp add: host_inv_def)
    from host_view_take(3) [OF this q(1)] show False by simp
  qed
  moreover obtain c where "count (a_msgs a) (Acq g) = Suc c" using q(1) gr0_conv_Suc by blast
  ultimately show ?thesis using take_acq g
    by (intro work_less [of _ _ g]) (auto simp: host_weight_def take_up_def split: option.split)
next
  case (take_rls g)
  have g: "g \<noteq> M" "g < N" "0 < count (a_msgs a) (Rls g)"
    using host_inv_token [OF inv] take_rls(2) by auto
  let ?a = "a\<lparr>a_msgs := a_msgs a - {#Rls g#}\<rparr>"
  have "unowned M N ?a h" for h
    using take_rls inv [of h] g by (cases "h = g") (simp_all add: host_inv_def unowned_def host_view_give(1) host_view_other(1))
  moreover have "host_weight ?a h \<le> host_weight a h" "host_weight ?a g < host_weight a g" for h
    using g by (auto simp: host_weight_def)
  ultimately show ?thesis unfolding take_rls(1) using g(2)
    by (intro work_less [of _ _ g]) (meson handover_weight le_trans le_less_trans)+
next
  case (take_grant g)
  have g: "g < N" "0 < count (a_msgs a) (Grant g)" using host_inv_token [OF inv] take_grant(2) by auto
  then have "g \<notin> a_held a" using inv [of g] host_view_grant unfolding host_inv_def by blast
  moreover obtain c where "count (a_msgs a) (Grant g) = Suc c" using g(2) gr0_conv_Suc by blast
  ultimately show ?thesis using take_grant g(1) by (intro work_less [of _ _ g]) (auto simp: host_weight_def)
next
  case (unlock g)
  then show ?thesis by (intro work_less [of _ _ g]) (auto simp: host_weight_def)
next
  case unlock_own
  have own: "a_owner a = Some M" using inv [of M] unlock_own by (auto simp: host_inv_def host_view_def split: if_splits)
  let ?a = "a\<lparr>a_held := a_held a - {M}\<rparr>"
  have "unowned M N ?a h" for h
    using unlock_own inv [of h] own M
    by (cases "h = M") (simp_all add: host_inv_def unowned_def host_view_give(2) host_view_other(1))
  moreover have "host_weight ?a h \<le> host_weight a h" "host_weight ?a M < host_weight a M" for h
    using unlock_own by (auto simp: host_weight_def)
  ultimately show ?thesis unfolding unlock_own(1) using M
    by (intro work_less [of _ _ M]) (meson handover_weight le_trans le_less_trans)+
qed

text \<open>A host that waits is served: its request, its grant or the lock of another host makes a step
  possible.\<close>

lemma host_view_owner:
  "host_view mgr valid True none p held g r q w \<Longrightarrow> 0 < g \<or> 0 < r \<or> held \<or> p = Fetching \<and> mgr"
  "host_view mgr valid own none Waiting held g r q w \<Longrightarrow> 0 < q \<or> 0 < g \<or> held \<or> 0 < w \<and> \<not> none"
  by (cases p; cases held; auto simp: host_view_def)+

lemma owner_where:
  assumes "host_inv M N a g" "a_owner a = Some g"
  shows "Grant g \<in># a_msgs a \<or> Rls g \<in># a_msgs a \<or> g \<in> a_held a \<or> g = M \<and> a_pc a M = Fetching"
  using host_view_owner(1) assms by (fastforce simp: host_inv_def count_greater_zero_iff [symmetric] simp del: count_greater_zero_iff)

lemma waiting_where:
  assumes "host_inv M N a h" "a_pc a h = Waiting"
  shows "Acq h \<in># a_msgs a \<or> Grant h \<in># a_msgs a \<or> h \<in> a_held a \<or> a_owner a \<noteq> None"
  using host_view_owner(2) assms by (fastforce simp: host_inv_def count_greater_zero_iff [symmetric] simp del: count_greater_zero_iff)

end
