(* ===== verification/LockSteps.thy ===== *)
theory LockSteps
  imports Addresses LockProtocol
begin

text \<open>
  What \<open>mi_lock\<close>, \<open>mi_unlock\<close> and the lock handlers of \<open>src/syn.c\<close> do to the state of one host of a
  cluster, in the terms of the protocol: the owner and the queue in the manager's table, the lock
  messages sent, whether the host holds the lock.
\<close>

section \<open>Hosts and messages\<close>

definition healthy :: "mem_st \<Rightarrow> bool" where
  "healthy s \<longleftrightarrow> quiet s \<and> (\<exists>L W P. mem_ok L W P s)"

definition member :: "nat \<Rightarrow> nat \<Rightarrow> nat \<Rightarrow> mem_st \<Rightarrow> bool" where
  "member k N h s \<longleftrightarrow> healthy s \<and> hostnum s = int N \<and> myhostid s = int h \<and> myLocks s k \<in> {0, 1}"

text \<open>The datagrams a step has put on the wire, retransmissions counted once.\<close>

definition mail :: "mem_st \<Rightarrow> mem_st \<Rightarrow> datagram list" where
  "mail s t = remdups (drop (length (wire s)) (wire t))"

fun token_of :: "nat \<Rightarrow> datagram \<Rightarrow> token option" where
  "token_of k (h, port, m) =
     (if m_command m = cmd_code ACQ_LOCK \<and> msg_lockno m = Some (int k) then Some (Acq (nat (m_from m)))
      else if m_command m = cmd_code RLS_LOCK \<and> msg_lockno m = Some (int k) then Some (Rls (nat (m_from m)))
      else if m_command m = cmd_code GRANT_LOCK \<and> peek_int (m_data m) 0 = int k then Some (Grant h)
      else None)"

definition tokens :: "nat \<Rightarrow> datagram list \<Rightarrow> token multiset" where
  "tokens k ds = mset (List.map_filter (token_of k) ds)"

lemma tokens_simps [simp]:
  "tokens k [] = {#}" "tokens k (as @ bs) = tokens k as + tokens k bs"
  "tokens k (d # ds) = (case token_of k d of None \<Rightarrow> tokens k ds | Some x \<Rightarrow> add_mset x (tokens k ds))"
  by (simp_all add: tokens_def List.map_filter_def split: option.split)

lemma remdups_replicate: "0 < n \<Longrightarrow> remdups (replicate n x) = [x]"
proof (induction n)
  case (Suc n)
  then show ?case by (cases n) simp_all
qed simp

lemma mail_sent: "sent (wire s) (wire t) [d] \<Longrightarrow> mail s t = [d]"
  by (auto simp: mail_def sent_single remdups_replicate)

lemma mail_none: "wire t = wire s \<Longrightarrow> mail s t = []"
  by (simp add: mail_def)

text \<open>The lock messages by what they say.\<close>

lemma token_request:
  assumes "k < LOCK_NUM" "cmd = ACQ_LOCK \<or> cmd = RLS_LOCK"
  shows "token_of k (sent_msg s to cmd no_ts (lock_text (int k) s)) =
      Some ((if cmd = ACQ_LOCK then Acq else Rls) (nat (myhostid s)))"
    "fst (sent_msg s to cmd no_ts (lock_text (int k) s)) = nat to"
    "m_from (snd (snd (sent_msg s to cmd no_ts (lock_text (int k) s)))) = myhostid s"
  using assms lock_msg_read [OF assms(1) sent_msg_snd, of s to cmd] by (auto simp: sent_msg_def)

lemma token_grant:
  assumes "k < LOCK_NUM" "0 \<le> to"
  shows "token_of k (sent_msg s to GRANT_LOCK no_ts (int_bytes (int k) @ int_bytes l)) = Some (Grant (nat to))"
proof -
  have "in32 (int k)" using assms(1) by (simp add: in32_def LOCK_NUM_def)
  then show ?thesis by (simp add: sent_msg_def peek_int_packed)
qed

lemma token_other:
  assumes "cmd \<notin> {ACQ_LOCK, RLS_LOCK, GRANT_LOCK}"
  shows "token_of k (sent_msg s to cmd ts bs) = None"
  using assms by (cases cmd) (simp_all add: sent_msg_def)

declare token_of.simps [simp del]

lemma member_same:
  assumes "member k N h s" "same_mem s t" "quiet t" "myLocks t k \<in> {0, 1}"
  shows "member k N h t"
  using assms mem_ok_same_mem [OF assms(2)] by (simp add: member_def healthy_def same_mem_def)

section \<open>Asking for the lock\<close>

lemma mi_lock_split:
  assumes "k < LOCK_NUM" "hostnum s = int N" "0 < N"
  shows "mi_lock (int k) early env s =
    (if myLocks s k = 1 then Some (Returned (- 2, s, env))
     else if int (k mod N) = myhostid s then lock_local (int k) early env s
     else lock_remote (int (k mod N)) (int k) env s)"
  using assms by (simp add: mi_lock_def crem_nonneg zmod_int)

lemma request_blocks:
  assumes m: "member k N h s" and k: "k < LOCK_NUM" "h \<noteq> k mod N" "0 < N" and n: "myLocks s k \<noteq> 1"
  shows "\<exists>t. mi_lock (int k) [] [] s = Some (Blocked t)"
proof -
  let ?M = "int (k mod N)"
  obtain L W P where ok: "mem_ok L W P s" "quiet s" "hostnum s = int N" "myhostid s = int h"
    using m by (auto simp: member_def healthy_def)
  have mgr: "0 \<le> ?M" "?M < hostnum s" "?M \<noteq> myhostid s" using k ok(3,4) by simp_all
  obtain u where u: "\<And>env. lock_remote ?M (int k) env s = Option.bind (await waitFlag env u) (\<lambda>w.
        on_return w (\<lambda>(s, env). do {
          w \<leftarrow> fetch_from_last True env s;
          on_return w (\<lambda>(s, env). Some (Returned (0, s, env))) }))"
    "net_frame (s\<lparr>waitFlag := 1\<rparr>) u"
    using lock_remote_sends [OF ok(1,2) mgr(1,2)] by blast
  have "waitFlag u = 1" using net_frame_locks [OF u(2)] by simp
  then show ?thesis using n mgr(3) by (simp add: mi_lock_split [OF k(1) ok(3) k(3)] u(1))
qed

lemma request_remote:
  assumes m: "member k N h s" and k: "k < LOCK_NUM" "h \<noteq> k mod N" "0 < N"
    and run: "mi_lock (int k) [] [] s = Some (Blocked t)"
  shows "member k N h t" "myLocks s k \<noteq> 1" "myLocks t = myLocks s" "waitFlag t = 1" "locks t = locks s"
    "\<exists>port m. mail s t = [(k mod N, port, m)] \<and> token_of k (k mod N, port, m) = Some (Acq h) \<and> m_from m = int h"
proof -
  let ?M = "int (k mod N)"
  obtain L W P where ok: "mem_ok L W P s" "quiet s" "hostnum s = int N" "myhostid s = int h"
    using m by (auto simp: member_def healthy_def)
  have mgr: "0 \<le> ?M" "?M < hostnum s" "?M \<noteq> myhostid s" using k ok(3,4) by simp_all
  show n: "myLocks s k \<noteq> 1" using run mi_lock_split [OF k(1) ok(3) k(3)] by auto
  obtain u where u: "\<And>env. lock_remote ?M (int k) env s = Option.bind (await waitFlag env u) (\<lambda>w.
        on_return w (\<lambda>(s, env). do {
          w \<leftarrow> fetch_from_last True env s;
          on_return w (\<lambda>(s, env). Some (Returned (0, s, env))) }))"
    "quiet u" "net_frame (s\<lparr>waitFlag := 1\<rparr>) u"
    "sent (wire s) (wire u) [sent_msg s ?M ACQ_LOCK no_ts (lock_text (int k) s)]"
    using lock_remote_sends [OF ok(1,2) mgr(1,2)] by blast
  note f = net_frame_locks [OF u(3)]
  have t: "t = u"
    using run n mgr(3) f by (simp add: mi_lock_split [OF k(1) ok(3) k(3)] u(1))
  show "myLocks t = myLocks s" "waitFlag t = 1" "locks t = locks s" using f by (simp_all add: t)
  have "same_mem s t" unfolding t using same_mem_trans [OF same_mem_flags(4) same_mem_net_frame [OF u(3)]] .
  then show "member k N h t" using m u(2) f by (intro member_same [OF m]) (simp_all add: t member_def)
  show "\<exists>port m. mail s t = [(k mod N, port, m)] \<and> token_of k (k mod N, port, m) = Some (Acq h) \<and> m_from m = int h"
    using mail_sent [OF u(4)] token_request [OF k(1), of ACQ_LOCK s ?M] ok(4)
    by (cases "sent_msg s ?M ACQ_LOCK no_ts (lock_text (int k) s)") (auto simp: t)
qed

text \<open>The manager asks for the lock itself.\<close>

lemma own_lock:
  assumes "member k N (k mod N) s" "k < LOCK_NUM" "0 < N" "myLocks s k \<noteq> 1"
  shows "mi_lock (int k) early env s = lock_local (int k) early env s" "is_host (myhostid s) s"
    "myhostid s = int (k mod N)"
  using assms mi_lock_split [OF assms(2), of s N early env] by (simp_all add: member_def is_host_def)

lemma request_own_busy:
  assumes m: "member k N (k mod N) s" and k: "k < LOCK_NUM" "0 < N" "myLocks s k \<noteq> 1" and mg: "managed k s"
    and o: "lock_owner (locks s k) = Some g" "g \<noteq> myhostid s" "myhostid s \<notin> set (lock_queue (locks s k))"
  shows "\<exists>t. mi_lock (int k) [] [] s = Some (Blocked t) \<and> member k N (k mod N) t \<and> managed k t \<and>
    lock_owner (locks t k) = Some g \<and> lock_queue (locks t k) = lock_queue (locks s k) @ [myhostid s] \<and>
    myLocks t = myLocks s \<and> waitFlag t = 1 \<and> wire t = wire s"
proof -
  note own = own_lock [OF m k]
  obtain u where u: "graspLock (int k) (myhostid s) s = Some (- 3, u)" "managed k u"
    "lock_owner (locks u k) = Some g" "lock_queue (locks u k) = lock_queue (locks s k) @ [myhostid s]"
    using lm.grasp_busy [OF mg own(2) o(1) o(2) [symmetric] o(3)] by blast
  then obtain l where l: "u = s\<lparr>locks := l\<rparr>"
    using graspLock_busy [OF mg own(2) o(1) o(2) [symmetric]] by auto
  let ?t = "u\<lparr>waitFlag := 1\<rparr>"
  have "mi_lock (int k) [] [] s = Some (Blocked ?t)" unfolding own(1) by (simp add: lock_local_def u(1))
  moreover have "member k N (k mod N) ?t" using m by (intro member_same [OF m]) (simp_all add: l member_def healthy_def same_mem_def)
  moreover have "managed k ?t" using u(2) by (simp add: managed_def)
  ultimately show ?thesis using u(3,4) by (intro exI [of _ ?t]) (simp add: l)
qed

lemma request_own_again:
  assumes m: "member k N (k mod N) s" and k: "k < LOCK_NUM" "0 < N" "myLocks s k \<noteq> 1" and mg: "managed k s"
    and o: "lock_owner (locks s k) = Some (myhostid s)"
  shows "mi_lock (int k) [] [] s = Some (Returned (stack_int s, s, []))"
proof -
  note own = own_lock [OF m k]
  have "graspLock (int k) (myhostid s) s = Some (- 4, s)"
    using mg own(2) o by (simp add: graspLock_def managed_crem [OF mg] is_host_def Let_def lock_owner_iffs) (simp add: managed_def)
  then show ?thesis unfolding own(1) by (simp add: lock_local_def)
qed

lemma request_own_idle:
  assumes m: "member k N (k mod N) s" and k: "k < LOCK_NUM" "0 < N" "myLocks s k \<noteq> 1" and mg: "managed k s"
    and o: "lock_owner (locks s k) = None"
  shows "\<exists>t r. (mi_lock (int k) [] [] s = Some (Returned (r, t, [])) \<and> myLocks t = (myLocks s)(k := 1) \<or>
      mi_lock (int k) [] [] s = Some (Blocked t) \<and> myLocks t = myLocks s) \<and>
    member k N (k mod N) t \<and> managed k t \<and> lock_owner (locks t k) = Some (myhostid s) \<and>
    lock_queue (locks t k) = [] \<and> waitFlag t = waitFlag s \<and> tokens k (mail s t) = {#} \<and>
    (\<forall>d\<in>set (mail s t). token_of k d = None)"
proof -
  note own = own_lock [OF m k]
  obtain L W P where ok: "mem_ok L W P s" "quiet s" using m by (auto simp: member_def healthy_def)
  let ?l = "(locks s k)\<lparr>l_state := LOCKED, l_owner := myhostid s\<rparr>" and ?last = "l_lasthostid (locks s k)"
  let ?u = "s\<lparr>locks := (locks s)(k := ?l)\<rparr>"
  have g: "graspLock (int k) (myhostid s) s = Some (?last, ?u)" by (rule graspLock_idle [OF mg own(2) o])
  then have u: "managed k ?u" "lock_owner (locks ?u k) = Some (myhostid s)" "lock_queue (locks ?u k) = []"
    using lm.grasp_idle [OF mg own(2) o] by auto
  have uok: "mem_ok L W P ?u" "quiet ?u" using ok mem_ok_same_mem [OF same_mem_flags(7)] by simp_all
  have last: "- 1 \<le> ?last" "?last < hostnum s" using mg by (simp_all add: managed_def lock_ok_def)
  show ?thesis
  proof (cases "?last = - 1 \<or> ?last = myhostid s")
    case True
    obtain v L' W' where v: "addNewInterval ?u = Some v" "interval_frame ?u v" "mem_ok L' W' P v"
      using addNewInterval_runs [OF uok(1)] by blast
    note f = interval_frame_fields [OF v(2)]
    let ?t = "v\<lparr>myLocks := (myLocks s)(k := 1)\<rparr>"
    have "mi_lock (int k) [] [] s = Some (Returned (stack_int v, ?t, []))"
      unfolding own(1) using True last f(6) v(1) by (auto simp: lock_local_def g)
    moreover have "member k N (k mod N) ?t"
      using m f(1,8,9) uok(2) v(3) mem_ok_same_mem [OF same_mem_flags(6)] by (auto simp: member_def healthy_def)
    moreover have "managed k ?t" using u(1) f(4,8,9) by (simp add: managed_def)
    moreover have "mail s ?t = []" using f(3) by (simp add: mail_none)
    ultimately show ?thesis using u(2,3) f(4,5) by (intro exI [of _ ?t] exI [of _ "stack_int v"]) simp
  next
    case False
    have h: "0 \<le> ?last" "?last < hostnum ?u" "?last \<noteq> myhostid ?u" using False last by auto
    obtain i where i: "intervalNow ?u = Some i" using uok(1) by (auto simp: mem_ok_def)
    obtain v where v: "\<And>env. fetchWritenoticeAndInterval ?last env ?u = Option.bind (await fetchWNIWaitFlag env v)
        (\<lambda>w. on_return w (\<lambda>(s, env). Some (Returned (0, s, env))))" "quiet v" "net_frame (?u\<lparr>fetchWNIWaitFlag := 1\<rparr>) v"
      "sent (wire ?u) (wire v) [sent_msg ?u ?last FETCH_WN_I no_ts (ints_bytes (i_timestamp (ivals ?u ! i)))]"
      using fetchWNI_sends [OF uok h i] by blast
    note n = net_frame_locks [OF v(3)]
    have flag: "fetchWNIWaitFlag v = 1" using v(3) by (cases v) (simp add: net_frame_def)
    have "mi_lock (int k) [] [] s = Some (Blocked v)"
      unfolding own(1) using False last flag by (simp add: lock_local_def g v(1))
    moreover have sm: "same_mem ?u v" using same_mem_trans [OF same_mem_flags(3) same_mem_net_frame [OF v(3)]] .
    have "member k N (k mod N) v"
      using m n v(2) uok(1) mem_ok_same_mem [OF sm] by (auto simp: member_def healthy_def)
    moreover have "managed k v" using u(1) n by (simp add: managed_def)
    moreover have "mail s v = [sent_msg ?u ?last FETCH_WN_I no_ts (ints_bytes (i_timestamp (ivals ?u ! i)))]"
      using mail_sent [of s v] v(4) by simp
    ultimately show ?thesis using u(2,3) n by (intro exI [of _ v]) (simp add: token_other)
  qed
qed

section \<open>The handlers of the manager\<close>

lemma lock_frame:
  assumes "net_frame (s\<lparr>locks := l\<rparr>) t" "member k N h s" "quiet t"
  shows "member k N h t" "myLocks t = myLocks s" "waitFlag t = waitFlag s"
proof -
  note n = net_frame_locks [OF assms(1)]
  have "same_mem s t" using same_mem_trans [OF same_mem_flags(7) same_mem_net_frame [OF assms(1)]] .
  then show "member k N h t" using assms(2,3) n by (intro member_same [OF assms(2)]) (simp_all add: member_def)
  show "myLocks t = myLocks s" "waitFlag t = waitFlag s" using n by simp_all
qed

text \<open>A request that arrives at the manager.\<close>

lemma acquire_step:
  assumes m: "member k N (k mod N) s" and mg: "managed k s" and k: "k < LOCK_NUM"
    and c: "m_command m = cmd_code ACQ_LOCK" "msg_lockno m = Some (int k)" "m_from m = int h" "h < N" "h \<noteq> k mod N"
    and q: "int h \<notin> set (lock_queue (locks s k))"
  shows "\<exists>t. dispatchMsg (Some m) s = Some t \<and> member k N (k mod N) t \<and> managed k t \<and> myLocks t = myLocks s \<and>
    waitFlag t = waitFlag s \<and>
    (case lock_owner (locks s k) of
       None \<Rightarrow> lock_owner (locks t k) = Some (int h) \<and> lock_queue (locks t k) = [] \<and>
         (\<exists>d. mail s t = [d] \<and> token_of k d = Some (Grant h))
     | Some g \<Rightarrow> lock_owner (locks t k) = Some g \<and> mail s t = [] \<and>
         lock_queue (locks t k) = (if g = int h then lock_queue (locks s k) else lock_queue (locks s k) @ [int h]))"
proof -
  have d: "dispatchMsg (Some m) s = handleAcquireMsg m s" by (rule dispatch_cmd(1) [OF c(1)])
  have h: "is_host (int h) s" "int h \<noteq> myhostid s" "quiet s"
    using m c(4,5) by (simp_all add: is_host_def member_def healthy_def)
  show ?thesis
  proof (cases "lock_owner (locks s k)")
    case None
    obtain t where t: "handleAcquireMsg m s = Some t" "managed k t" "quiet t" "lock_owner (locks t k) = Some (int h)"
      "lock_queue (locks t k) = []" "net_frame (s\<lparr>locks := locks t\<rparr>) t"
      "sent (wire s) (wire t) [sent_msg s (int h) GRANT_LOCK no_ts (int_bytes (int k) @ int_bytes (l_lasthostid (locks s k)))]"
      using handleAcquire_idle [OF mg h(3,1,2) c(2,3) None] by blast
    have "\<exists>d. mail s t = [d] \<and> token_of k d = Some (Grant h)"
      using mail_sent [OF t(7)] token_grant [OF k, of "int h"] by (metis nat_int of_nat_0_le_iff)
    then show ?thesis
      using None d t(1,2,4,5) lock_frame [OF t(6) m t(3)] by (intro exI [of _ t]) simp
  next
    case (Some g)
    show ?thesis
    proof (cases "g = int h")
      case True
      have "graspLock (int k) (int h) s = Some (- 4, s)"
        using mg h(1) Some True by (simp add: graspLock_def managed_crem [OF mg] is_host_def Let_def lock_owner_iffs)
          (simp add: managed_def)
      then have "handleAcquireMsg m s = Some s"
        using c(2,3) k by (simp add: handleAcquireMsg_def)
      then show ?thesis using d Some True m mg by (intro exI [of _ s]) (simp add: mail_none)
    next
      case False
      then obtain t where t: "handleAcquireMsg m s = Some t" "managed k t" "lock_owner (locks t k) = Some g"
        "lock_queue (locks t k) = lock_queue (locks s k) @ [int h]" "t = s\<lparr>locks := locks t\<rparr>" "wire t = wire s"
        using handleAcquire_busy [OF mg h(1) c(2,3) Some] q by metis
      obtain l where l: "t = s\<lparr>locks := l\<rparr>" using t(5) by blast
      have f: "net_frame (s\<lparr>locks := l\<rparr>) t" "quiet t" using h(3) by (simp_all add: l)
      show ?thesis using Some False d t(1-4) lock_frame [OF f(1) m f(2)] mail_none [OF t(6)] by auto
    qed
  qed
qed

text \<open>What a release leads to: the next host of the queue is the owner and is told so.\<close>

definition passed_on :: "nat \<Rightarrow> mem_st \<Rightarrow> mem_st \<Rightarrow> bool" where
  "passed_on k s t \<longleftrightarrow> managed k t \<and> (case lock_queue (locks s k) of
     [] \<Rightarrow> lock_owner (locks t k) = None \<and> lock_queue (locks t k) = [] \<and> mail s t = []
   | w # q \<Rightarrow> lock_owner (locks t k) = Some w \<and> lock_queue (locks t k) = q \<and>
       (if w = myhostid s then mail s t = []
        else \<exists>d. mail s t = [d] \<and> token_of k d = Some (Grant (nat w))))"

lemma release_step:
  assumes m: "member k N (k mod N) s" and mg: "managed k s" and k: "k < LOCK_NUM"
    and c: "m_command m = cmd_code RLS_LOCK" "msg_lockno m = Some (int k)" "m_from m = int h"
    and o: "lock_owner (locks s k) = Some (int h)"
  shows "\<exists>t. dispatchMsg (Some m) s = Some t \<and> member k N (k mod N) t \<and> passed_on k s t \<and>
    (if lock_queue (locks s k) \<noteq> [] \<and> hd (lock_queue (locks s k)) = myhostid s
     then myLocks t = (myLocks s)(k := 1) \<and> waitFlag t = 0 else myLocks t = myLocks s \<and> waitFlag t = waitFlag s)"
proof -
  have d: "dispatchMsg (Some m) s = handleReleaseMsg m s" by (rule dispatch_cmd(2) [OF c(1)])
  have h: "is_host (int h) s" "quiet s" using lm.owner_valid [OF mg o] m by (simp_all add: member_def healthy_def)
  show ?thesis
  proof (cases "lock_queue (locks s k)")
    case Nil
    let ?t = "s\<lparr>locks := (locks s)(k := (locks s k)\<lparr>l_state := FREE, l_owner := - 1, l_lasthostid := int h\<rparr>)\<rparr>"
    have f: "freeLock (int k) (int h) s = Some (- 5, ?t)" by (rule freeLock_last [OF mg h(1) o Nil])
    then have "managed k ?t" "lock_owner (locks ?t k) = None" "lock_queue (locks ?t k) = []"
      using lm.release_last [OF mg o Nil] by auto
    moreover have "handleReleaseMsg m s = Some ?t" using c(2,3) k f by (simp add: handleReleaseMsg_def)
    moreover have "quiet ?t" "wire ?t = wire s" using h(2) by simp_all
    ultimately show ?thesis
      using Nil d lock_frame [OF net_frame_refl m] by (intro exI [of _ ?t]) (simp add: passed_on_def mail_none)
  next
    case (Cons w q)
    obtain t where t: "handleReleaseMsg m s = Some t" "managed k t" "quiet t" "lock_owner (locks t k) = Some w"
      "lock_queue (locks t k) = q"
      "if w = myhostid s
       then wire t = wire s \<and> waitFlag t = 0 \<and> lasthostid t = int h \<and> myLocks t k = 1 \<and>
         t = s\<lparr>locks := locks t, lasthostid := int h, waitFlag := 0, myLocks := (myLocks s)(k := 1)\<rparr>
       else waitFlag t = waitFlag s \<and> sent (wire s) (wire t)
         [sent_msg s w GRANT_LOCK no_ts (int_bytes (int k) @ int_bytes (int h))] \<and> net_frame (s\<lparr>locks := locks t\<rparr>) t"
      using handleRelease_next [OF mg h(2) c(2,3) o Cons] by blast
    have w: "0 \<le> w" using lm.owner_valid [OF t(2,4)] by (simp add: is_host_def)
    show ?thesis
    proof (cases "w = myhostid s")
      case True
      then have e: "t = s\<lparr>locks := locks t, lasthostid := int h, waitFlag := 0, myLocks := (myLocks s)(k := 1)\<rparr>"
        and e': "wire t = wire s" "waitFlag t = 0"
        using t(6) by auto
      have sm: "same_mem s t" by (subst e) (simp add: same_mem_def)
      have "myLocks t = (myLocks s)(k := 1)" by (subst e) simp
      moreover from this have "member k N (k mod N) t" by (intro member_same [OF m sm t(3)]) simp
      ultimately show ?thesis
        using d t(1,2,4,5) Cons True e'(2) mail_none [OF e'(1)] by (intro exI [of _ t]) (simp add: passed_on_def)
    next
      case False
      then have e: "sent (wire s) (wire t) [sent_msg s w GRANT_LOCK no_ts (int_bytes (int k) @ int_bytes (int h))]"
        "net_frame (s\<lparr>locks := locks t\<rparr>) t"
        using t(6) by auto
      show ?thesis
        using d t(1,2,4,5) Cons False lock_frame [OF e(2) m t(3)] mail_sent [OF e(1)] token_grant [OF k w]
        by (intro exI [of _ t]) (simp add: passed_on_def)
    qed
  qed
qed

text \<open>A grant.\<close>

lemma grant_step:
  assumes m: "member k N h s" and k: "k < LOCK_NUM"
    and c: "m_command m = cmd_code GRANT_LOCK" "peek_int (m_data m) 0 = int k"
  shows "\<exists>t. dispatchMsg (Some m) s = Some t \<and> member k N h t \<and> myLocks t = (myLocks s)(k := 1) \<and>
    locks t = locks s \<and> wire t = wire s \<and> waitFlag t = 0"
proof -
  let ?t = "s\<lparr>lasthostid := peek_int (m_data m) 4, myLocks := (myLocks s)(k := 1), waitFlag := 0\<rparr>"
  have "dispatchMsg (Some m) s = Some ?t"
    using k c(2) by (simp add: dispatch_cmd(3) [OF c(1)] handleGrantMsg_def)
  moreover have "member k N h ?t"
    using m by (intro member_same [OF m]) (simp_all add: same_mem_def member_def healthy_def)
  ultimately show ?thesis by (intro exI [of _ ?t]) simp
qed

section \<open>Releasing the lock\<close>

lemma unlock_remote:
  assumes m: "member k N h s" and k: "k < LOCK_NUM" "h \<noteq> k mod N" "0 < N" and held: "myLocks s k = 1"
  shows "\<exists>t. mi_unlock (int k) s = Some (0, t) \<and> member k N h t \<and> myLocks t = (myLocks s)(k := 0) \<and>
    waitFlag t = waitFlag s \<and> locks t = locks s \<and>
    (\<exists>port m. mail s t = [(k mod N, port, m)] \<and> token_of k (k mod N, port, m) = Some (Rls h) \<and> m_from m = int h)"
proof -
  obtain L W P where ok: "mem_ok L W P s" "quiet s" "hostnum s = int N" "myhostid s = int h"
    using m by (auto simp: member_def healthy_def)
  let ?M = "int (k mod N)"
  have mgr: "int k mod hostnum s = ?M" using ok(3) by (simp add: zmod_int)
  have mgr': "?M \<noteq> myhostid s" using k(2) ok(4) by simp
  have h: "myLocks s k \<noteq> 0" using held by simp
  obtain t L' W' where t: "mi_unlock (int k) s = Some (0, t)" "myLocks t = (myLocks s)(k := 0)" "quiet t"
    "waitFlag t = waitFlag s" "locks t = locks s" "hostnum t = hostnum s" "myhostid t = myhostid s" "mem_ok L' W' P t"
    "sent (wire s) (wire t) [sent_msg s ?M RLS_LOCK no_ts (lock_text (int k) s)]"
    using unlock_remote_ok [OF ok(1,2) k(1) h mgr mgr'] by auto
  have "\<exists>port m. mail s t = [(k mod N, port, m)] \<and> token_of k (k mod N, port, m) = Some (Rls h) \<and> m_from m = int h"
    using mail_sent [OF t(9)] token_request [OF k(1), of RLS_LOCK s ?M] ok(4)
    by (cases "sent_msg s ?M RLS_LOCK no_ts (lock_text (int k) s)") auto
  then show ?thesis using t(1-8) ok by (intro exI [of _ t]) (auto simp: member_def healthy_def)
qed

lemma unlock_own:
  assumes m: "member k N (k mod N) s" and mg: "managed k s" and k: "k < LOCK_NUM" "0 < N" and held: "myLocks s k = 1"
    and o: "lock_owner (locks s k) = Some (myhostid s)"
  shows "\<exists>t r. mi_unlock (int k) s = Some (r, t) \<and> member k N (k mod N) t \<and> passed_on k s t \<and>
    myLocks t = (myLocks s)(k := 0) \<and> waitFlag t = waitFlag s"
proof -
  obtain L W P where ok: "mem_ok L W P s" "quiet s" "hostnum s = int N" "myhostid s = int (k mod N)"
    using m by (auto simp: member_def healthy_def)
  obtain u L' W' where u: "addNewInterval s = Some u" "interval_frame s u" "mem_ok L' W' P u"
    using addNewInterval_runs [OF ok(1)] by blast
  note f = interval_frame_fields [OF u(2)]
  let ?u = "u\<lparr>myLocks := (myLocks s)(k := 0)\<rparr>"
  have uk: "member k N (k mod N) ?u" "managed k ?u" "lock_owner (locks ?u k) = Some (myhostid s)"
    "lock_queue (locks ?u k) = lock_queue (locks s k)" "is_host (myhostid s) ?u" "quiet ?u"
    using m mg o f ok u(3) mem_ok_same_mem [OF same_mem_flags(6)] k
    by (auto simp: member_def healthy_def managed_def is_host_def)
  have run: "mi_unlock (int k) s = do {
      (result, s') \<leftarrow> freeLock (int k) (myhostid s) ?u;
      s' \<leftarrow> (if result \<noteq> - 5 \<and> result \<ge> 0 \<and> result \<noteq> myhostid s' then grantLock (int k) result s' else Some s');
      Some (stack_int s', s') }"
    using k held u(1) f(6,8,9) managed_crem [OF mg] by (simp add: mi_unlock_def)
  have noM: "w \<noteq> myhostid s" if "w \<in> set (lock_queue (locks s k))" for w
    using lm.queue_distinct [OF mg o] that by auto
  show ?thesis
  proof (cases "lock_queue (locks s k)")
    case Nil
    let ?t = "?u\<lparr>locks := (locks ?u)(k := (locks ?u k)\<lparr>l_state := FREE, l_owner := - 1, l_lasthostid := myhostid s\<rparr>)\<rparr>"
    have nil: "lock_queue (locks ?u k) = []" using uk(4) Nil by simp
    have g: "freeLock (int k) (myhostid s) ?u = Some (- 5, ?t)" by (rule freeLock_last [OF uk(2,5,3) nil])
    then have "managed k ?t" "lock_owner (locks ?t k) = None" "lock_queue (locks ?t k) = []"
      using lm.release_last [OF uk(2,3) nil] by auto
    moreover have "mi_unlock (int k) s = Some (stack_int ?t, ?t)" unfolding run by (simp add: g)
    moreover have "mail s ?t = []" using f(3) by (simp add: mail_none)
    ultimately show ?thesis
      using Nil uk(6) f(5) lock_frame(1) [OF net_frame_refl uk(1)] by (intro exI [of _ ?t] exI [of _ "stack_int ?t"]) (simp add: passed_on_def)
  next
    case (Cons w q)
    have cons: "lock_queue (locks ?u k) = w # q" using uk(4) Cons by simp
    let ?v = "?u\<lparr>locks := (locks ?u)(k := next_lock (myhostid s) (locks ?u k))\<rparr>"
    have g: "freeLock (int k) (myhostid s) ?u = Some (w, ?v)" by (rule freeLock_next [OF uk(2,5,3) cons])
    then have v: "managed k ?v" "lock_owner (locks ?v k) = Some w" "lock_queue (locks ?v k) = q"
      using lm.release_next [OF uk(2,3) cons] by auto
    have w: "is_host w ?v" "w \<noteq> myhostid ?v" "0 \<le> w"
      using lm.owner_valid [OF v(1,2)] noM Cons f(9) by (auto simp: is_host_def)
    obtain t where t: "grantLock (int k) w ?v = Some t" "quiet t" "net_frame ?v t"
      "sent (wire ?v) (wire t) [sent_msg ?v w GRANT_LOCK no_ts (int_bytes (int k) @ int_bytes (l_lasthostid (locks ?v k)))]"
      using grantLock_sends [OF v(1) _ w(1,2)] uk(6) by auto
    have "mi_unlock (int k) s = Some (stack_int t, t)" unfolding run using w t(1) by (simp add: g)
    moreover have "managed k t" "locks t = locks ?v" using v(1) managed_frame [OF t(3)] net_frame_locks [OF t(3)] by simp_all
    moreover have "mail s t = [sent_msg ?v w GRANT_LOCK no_ts (int_bytes (int k) @ int_bytes (l_lasthostid (locks ?v k)))]"
      using mail_sent [of s t] t(4) f(3) by simp
    ultimately show ?thesis
      using Cons v(2,3) w(2) f(5,9) lock_frame [OF t(3) uk(1) t(2)] token_grant [OF k(1) w(3)]
      by (intro exI [of _ t] exI [of _ "stack_int t"]) (simp add: passed_on_def)
  qed
qed

end
