(* ===== verification/Cluster.thy ===== *)
theory Cluster
  imports LockSteps
begin

text \<open>
  The hosts together: one lock of \<open>src/syn.c\<close> on a cluster. A step is a call of \<open>mi_lock\<close> or \<open>mi_unlock\<close>
  on a host, the delivery of a lock message to its handler, or anything else that leaves the lock
  alone. The cluster simulates the protocol, so that no two hosts ever hold the lock, and every host
  that waits for it gets it.
\<close>

section \<open>Steps of the cluster\<close>

record cluster =
  node :: "nat \<Rightarrow> mem_st"
  pcs :: "nat \<Rightarrow> pc"
  flight :: "datagram list"

definition lock_mail :: "nat \<Rightarrow> datagram list \<Rightarrow> datagram list" where
  "lock_mail k = filter (\<lambda>d. token_of k d \<noteq> None)"

definition same_link :: "datagram \<Rightarrow> datagram \<Rightarrow> bool" where
  "same_link d e \<longleftrightarrow> fst d = fst e \<and> m_from (snd (snd d)) = m_from (snd (snd e))"

text \<open>What host \<open>h\<close> does next: its new state, what its program does then, what it has sent.\<close>

definition moves :: "nat \<Rightarrow> mem_st \<Rightarrow> pc \<Rightarrow> datagram list \<Rightarrow> cluster \<Rightarrow> cluster" where
  "moves h t p ds \<sigma> = \<sigma>\<lparr>node := (node \<sigma>)(h := t), pcs := (pcs \<sigma>)(h := p), flight := ds\<rparr>"

text \<open>The steps that serve requests: the end of the wait for write notices (then \<open>mi_lock\<close> sets the flag
  of the lock), the end of the wait for the grant, a lock message, \<open>mi_unlock\<close>. A message does not overtake
  one on the same way: the sender waits for the acknowledgement before it sends the next one.\<close>

inductive serve_step :: "nat \<Rightarrow> nat \<Rightarrow> cluster \<Rightarrow> cluster \<Rightarrow> bool" for k N where
  fetched: "h < N \<Longrightarrow> pcs \<sigma> h = Fetching \<Longrightarrow>
    serve_step k N \<sigma> (moves h ((node \<sigma> h)\<lparr>myLocks := (myLocks (node \<sigma> h))(k := 1)\<rparr>) Running (flight \<sigma>) \<sigma>)"
| wake: "h < N \<Longrightarrow> pcs \<sigma> h = Waiting \<Longrightarrow> waitFlag (node \<sigma> h) = 0 \<Longrightarrow>
    serve_step k N \<sigma> (moves h (node \<sigma> h) Running (flight \<sigma>) \<sigma>)"
| deliver: "flight \<sigma> = as @ (h, port, m) # bs \<Longrightarrow> token_of k (h, port, m) \<noteq> None \<Longrightarrow>
    (\<And>d. d \<in> set as \<Longrightarrow> token_of k d \<noteq> None \<Longrightarrow> \<not> same_link d (h, port, m)) \<Longrightarrow>
    dispatchMsg (Some m) (node \<sigma> h) = Some t \<Longrightarrow>
    serve_step k N \<sigma> (moves h t (pcs \<sigma> h) (as @ bs @ mail (node \<sigma> h) t) \<sigma>)"
| release: "h < N \<Longrightarrow> pcs \<sigma> h = Running \<Longrightarrow> myLocks (node \<sigma> h) k = 1 \<Longrightarrow>
    mi_unlock (int k) (node \<sigma> h) = Some (r, t) \<Longrightarrow>
    serve_step k N \<sigma> (moves h t Running (flight \<sigma> @ mail (node \<sigma> h) t) \<sigma>)"

text \<open>What the rest of a host does to lock \<open>k\<close>: nothing, but for the end of a barrier, after which the
  manager does not know any more who held it last.\<close>

definition lock_kept :: "nat \<Rightarrow> mem_st \<Rightarrow> mem_st \<Rightarrow> bool" where
  "lock_kept k s t \<longleftrightarrow> hostnum t = hostnum s \<and> myhostid t = myhostid s \<and> myLocks t k = myLocks s k \<and>
     (locks t k = locks s k \<or> locks t k = (locks s k)\<lparr>l_lasthostid := - 1\<rparr>)"

text \<open>All the steps: also \<open>mi_lock\<close>, which returns or blocks, and whatever else a host does, which leaves
  the locks alone.\<close>

inductive cluster_step :: "nat \<Rightarrow> nat \<Rightarrow> cluster \<Rightarrow> cluster \<Rightarrow> bool" for k N where
  request: "h < N \<Longrightarrow> pcs \<sigma> h = Running \<Longrightarrow> mi_lock (int k) [] [] (node \<sigma> h) = Some (Blocked t) \<Longrightarrow>
    p = (if h = k mod N \<and> lock_owner (locks (node \<sigma> h) k) = None then Fetching else Waiting) \<Longrightarrow>
    cluster_step k N \<sigma> (moves h t p (flight \<sigma> @ mail (node \<sigma> h) t) \<sigma>)"
| request_done: "h < N \<Longrightarrow> pcs \<sigma> h = Running \<Longrightarrow> mi_lock (int k) [] [] (node \<sigma> h) = Some (Returned (r, t, env)) \<Longrightarrow>
    cluster_step k N \<sigma> (moves h t Running (flight \<sigma> @ mail (node \<sigma> h) t) \<sigma>)"
| serve: "serve_step k N \<sigma> \<tau> \<Longrightarrow> cluster_step k N \<sigma> \<tau>"
| other: "h < N \<Longrightarrow> healthy t \<Longrightarrow> lock_kept k (node \<sigma> h) t \<Longrightarrow>
    (pcs \<sigma> h = Waiting \<longrightarrow> waitFlag t = waitFlag (node \<sigma> h)) \<Longrightarrow> lock_mail k ds = lock_mail k (flight \<sigma>) \<Longrightarrow>
    cluster_step k N \<sigma> (moves h t (pcs \<sigma> h) ds \<sigma>)"

definition cluster_start :: "nat \<Rightarrow> cluster" where
  "cluster_start N = \<lparr>node = (\<lambda>h. boot (int h) (int N)), pcs = (\<lambda>_. Running), flight = []\<rparr>"

definition cluster_init :: "nat \<Rightarrow> nat \<Rightarrow> cluster \<Rightarrow> bool" where
  "cluster_init k N \<sigma> \<longleftrightarrow> k < LOCK_NUM \<and> 0 < N \<and> N \<le> MAX_HOST_NUM \<and> \<sigma> = cluster_start N"

section \<open>The protocol the cluster follows\<close>

text \<open>A request or a release goes to the manager and tells its sender.\<close>

definition routed :: "nat \<Rightarrow> nat \<Rightarrow> datagram \<Rightarrow> bool" where
  "routed k M d \<longleftrightarrow> (\<forall>g. token_of k d = Some (Acq g) \<or> token_of k d = Some (Rls g) \<longrightarrow>
     fst d = M \<and> m_from (snd (snd d)) = int g)"

fun in_order :: "nat \<Rightarrow> datagram list \<Rightarrow> bool" where
  "in_order k [] \<longleftrightarrow> True"
| "in_order k (d # ds) \<longleftrightarrow> (\<forall>g. token_of k d = Some (Acq g) \<longrightarrow> Rls g \<notin># tokens k ds) \<and> in_order k ds"

definition mail_rel :: "nat \<Rightarrow> nat \<Rightarrow> datagram list \<Rightarrow> token multiset \<Rightarrow> bool" where
  "mail_rel k M ds ms \<longleftrightarrow> ms = tokens k ds \<and> (\<forall>d\<in>set ds. routed k M d) \<and> in_order k ds"

definition table_rel :: "nat \<Rightarrow> mem_st \<Rightarrow> proto \<Rightarrow> bool" where
  "table_rel k s a \<longleftrightarrow> managed k s \<and> lock_owner (locks s k) = map_option int (a_owner a) \<and>
     lock_queue (locks s k) = map int (a_queue a)"

definition host_rel :: "nat \<Rightarrow> nat \<Rightarrow> nat \<Rightarrow> mem_st \<Rightarrow> pc \<Rightarrow> proto \<Rightarrow> bool" where
  "host_rel k N h s p a \<longleftrightarrow> member k N h s \<and> (h \<in> a_held a \<longleftrightarrow> myLocks s k = 1) \<and>
     a_pc a h = p \<and> (p = Waiting \<longrightarrow> (waitFlag s = 0 \<longleftrightarrow> myLocks s k = 1))"

definition cluster_rel :: "nat \<Rightarrow> nat \<Rightarrow> cluster \<Rightarrow> proto \<Rightarrow> bool" where
  "cluster_rel k N \<sigma> a \<longleftrightarrow> (\<forall>h<N. host_rel k N h (node \<sigma> h) (pcs \<sigma> h) a) \<and> table_rel k (node \<sigma> (k mod N)) a \<and>
     mail_rel k (k mod N) (flight \<sigma>) (a_msgs a)"

lemma moves_simps [simp]:
  "node (moves h t p ds \<sigma>) = (node \<sigma>)(h := t)" "pcs (moves h t p ds \<sigma>) = (pcs \<sigma>)(h := p)"
  "flight (moves h t p ds \<sigma>) = ds"
  by (simp_all add: moves_def)

lemma lock_mail_simps [simp]:
  "lock_mail k [] = []" "lock_mail k (d # ds) = (if token_of k d = None then lock_mail k ds else d # lock_mail k ds)"
  by (simp_all add: lock_mail_def)

lemma tokens_lock_mail: "tokens k (lock_mail k ds) = tokens k ds"
  by (induction ds) auto

lemma routed_None: "token_of k d = None \<Longrightarrow> routed k M d"
  by (simp add: routed_def)

lemma routed_lock_mail: "(\<forall>d\<in>set (lock_mail k ds). routed k M d) \<longleftrightarrow> (\<forall>d\<in>set ds. routed k M d)"
  by (induction ds) (simp_all add: routed_None)

lemma in_order_lock_mail: "in_order k (lock_mail k ds) \<longleftrightarrow> in_order k ds"
  by (induction ds) (simp_all add: tokens_lock_mail)

lemma mail_rel_other: "mail_rel k M ds ms \<Longrightarrow> lock_mail k es = lock_mail k ds \<Longrightarrow> mail_rel k M es ms"
  by (metis mail_rel_def tokens_lock_mail routed_lock_mail in_order_lock_mail)

lemma in_order_append:
  "in_order k (as @ bs) \<longleftrightarrow> in_order k as \<and> in_order k bs \<and> (\<forall>g. Acq g \<in># tokens k as \<longrightarrow> Rls g \<notin># tokens k bs)"
  by (induction as) (auto split: option.splits)

lemma tokens_iff: "x \<in># tokens k ds \<longleftrightarrow> (\<exists>d\<in>set ds. token_of k d = Some x)"
  by (induction ds) (auto split: option.splits)

lemma mail_rel_none: "mail_rel k M ds ms \<Longrightarrow> tokens k es = {#} \<Longrightarrow> (\<forall>d\<in>set es. token_of k d = None) \<Longrightarrow> mail_rel k M (ds @ es) ms"
  by (rule mail_rel_other) (simp_all add: lock_mail_def filter_empty_conv)

lemma mail_rel_send:
  assumes "mail_rel k M ds ms" "token_of k d = Some x" "routed k M d" "\<And>g. x = Rls g \<Longrightarrow> Acq g \<notin># ms"
  shows "mail_rel k M (ds @ [d]) (add_mset x ms)"
  using assms by (cases x) (auto simp: mail_rel_def in_order_append)

lemma mail_rel_take:
  assumes "mail_rel k M (as @ d # bs) ms" "token_of k d = Some x"
  shows "mail_rel k M (as @ bs) (ms - {#x#})" "x \<in># ms"
  using assms by (auto simp: mail_rel_def in_order_append)

lemma mail_rel_first:
  assumes "mail_rel k M (as @ d # bs) ms" "token_of k d = Some (Acq g)"
    and first: "\<And>e. e \<in> set as \<Longrightarrow> token_of k e \<noteq> None \<Longrightarrow> \<not> same_link e d"
  shows "Rls g \<notin># ms"
proof -
  have "token_of k e \<noteq> Some (Rls g)" if "e \<in> set as" for e
    using first [OF that] assms(1,2) that by (auto simp: mail_rel_def routed_def same_link_def)
  then have "Rls g \<notin># tokens k as" by (simp add: tokens_iff)
  then show ?thesis using assms(1,2) by (auto simp: mail_rel_def in_order_append)
qed

text \<open>One host moves.\<close>

lemma cluster_rel_moves:
  assumes "cluster_rel k N \<sigma> a" "host_rel k N h t p b" "\<And>g. g \<noteq> h \<Longrightarrow> (g \<in> a_held b \<longleftrightarrow> g \<in> a_held a) \<and> a_pc b g = a_pc a g"
    and "if h = k mod N then table_rel k t b else a_owner b = a_owner a \<and> a_queue b = a_queue a"
    and "mail_rel k (k mod N) ds (a_msgs b)"
  shows "cluster_rel k N (moves h t p ds \<sigma>) b"
  using assms by (auto simp: cluster_rel_def table_rel_def host_rel_def)

lemma cluster_rel_host:
  assumes "cluster_rel k N \<sigma> a" "h < N"
  shows "member k N h (node \<sigma> h)" "h \<in> a_held a \<longleftrightarrow> myLocks (node \<sigma> h) k = 1" "a_pc a h = pcs \<sigma> h"
    "pcs \<sigma> h = Waiting \<Longrightarrow> waitFlag (node \<sigma> h) = 0 \<longleftrightarrow> myLocks (node \<sigma> h) k = 1"
  using assms by (auto simp: cluster_rel_def host_rel_def)

lemma cluster_rel_table:
  assumes "cluster_rel k N \<sigma> a"
  shows "managed k (node \<sigma> (k mod N))" "lock_owner (locks (node \<sigma> (k mod N)) k) = map_option int (a_owner a)"
    "lock_queue (locks (node \<sigma> (k mod N)) k) = map int (a_queue a)" "mail_rel k (k mod N) (flight \<sigma>) (a_msgs a)"
  using assms by (auto simp: cluster_rel_def table_rel_def)

section \<open>Simulation\<close>

lemma cluster_rel_start:
  assumes "k < LOCK_NUM" "0 < N" "N \<le> MAX_HOST_NUM"
  shows "cluster_rel k N (cluster_start N) proto_init"
proof -
  have "host_rel k N h (boot (int h) (int N)) Running proto_init" if "h < N" for h
    using boot_ok [of "int h" "int N"] boot_fields [of "int h" "int N"] that assms
    by (auto simp: host_rel_def member_def healthy_def proto_init_def)
  moreover have "table_rel k (boot (int (k mod N)) (int N)) proto_init"
    using boot_ok [of "int (k mod N)" "int N"] assms
    by (simp add: table_rel_def managed_def proto_init_def zmod_int lock_ok_free)
      (simp add: lock_owner_def lock_queue_def free_lock_def)
  moreover have "mail_rel k (k mod N) [] (a_msgs proto_init)" by (simp add: mail_rel_def proto_init_def)
  ultimately show ?thesis by (simp add: cluster_rel_def cluster_start_def)
qed

lemma member_flag: "member k N h s \<Longrightarrow> c \<in> {0, 1} \<Longrightarrow> member k N h (s\<lparr>myLocks := (myLocks s)(k := c)\<rparr>)"
  by (rule member_same) (auto simp: same_mem_def member_def healthy_def)

lemma fetched_simulates:
  assumes R: "cluster_rel k N \<sigma> a" and inv: "host_inv (k mod N) N a h" and h: "h < N" "pcs \<sigma> h = Fetching"
  shows "\<exists>b. proto_serve (k mod N) N a b \<and>
    cluster_rel k N (moves h ((node \<sigma> h)\<lparr>myLocks := (myLocks (node \<sigma> h))(k := 1)\<rparr>) Running (flight \<sigma>) \<sigma>) b"
proof -
  note f = cluster_rel_host [OF R h(1)]
  have M: "h = k mod N" using inv h f(3) by (auto simp: host_inv_def host_view_def)
  let ?b = "a\<lparr>a_pc := (a_pc a)(k mod N := Running), a_held := insert (k mod N) (a_held a)\<rparr>"
  have "proto_serve (k mod N) N a ?b" using f(3) h M by (intro proto_serve.fetched) simp
  moreover have "cluster_rel k N (moves h ((node \<sigma> h)\<lparr>myLocks := (myLocks (node \<sigma> h))(k := 1)\<rparr>) Running (flight \<sigma>) \<sigma>) ?b"
    using cluster_rel_table [OF R] member_flag [OF f(1), of 1] M
    by (intro cluster_rel_moves [OF R]) (simp_all add: host_rel_def table_rel_def managed_def)
  ultimately show ?thesis by blast
qed

lemma wake_simulates:
  assumes R: "cluster_rel k N \<sigma> a" and h: "h < N" "pcs \<sigma> h = Waiting" "waitFlag (node \<sigma> h) = 0"
  shows "\<exists>b. proto_serve (k mod N) N a b \<and> cluster_rel k N (moves h (node \<sigma> h) Running (flight \<sigma>) \<sigma>) b"
proof -
  note f = cluster_rel_host [OF R h(1)]
  let ?b = "a\<lparr>a_pc := (a_pc a)(h := Running)\<rparr>"
  have "proto_serve (k mod N) N a ?b" using f h by (intro proto_serve.wake) simp_all
  moreover have "cluster_rel k N (moves h (node \<sigma> h) Running (flight \<sigma>) \<sigma>) ?b"
    using cluster_rel_table [OF R] f by (intro cluster_rel_moves [OF R]) (simp_all add: host_rel_def table_rel_def)
  ultimately show ?thesis by blast
qed

text \<open>The next host gets the lock.\<close>

lemma handover_simulates:
  assumes R: "cluster_rel k N \<sigma> a" and M: "h = k mod N" "h < N" and t: "member k N h t" "passed_on k s t"
    and s: "lock_queue (locks s k) = map int (a_queue a')" "myhostid s = int h"
    and q: "h \<in> set (a_queue a') \<Longrightarrow> p = Waiting"
    and a': "a_pc a' = a_pc a" "\<And>g. g \<noteq> h \<Longrightarrow> g \<in> a_held a' \<longleftrightarrow> g \<in> a_held a" "a_pc a h = p"
    and held: "h \<in> a_held (handover (k mod N) a') \<longleftrightarrow> myLocks t k = 1"
      "p = Waiting \<Longrightarrow> waitFlag t = 0 \<longleftrightarrow> myLocks t k = 1"
    and ds: "mail_rel k (k mod N) ds (a_msgs a')"
  shows "cluster_rel k N (moves h t p (ds @ mail s t) \<sigma>) (handover (k mod N) a')"
proof (rule cluster_rel_moves [OF R])
  show "host_rel k N h t p (handover (k mod N) a')"
    using t(1) held a' by (simp add: host_rel_def handover_def split: list.split)
  show "(g \<in> a_held (handover (k mod N) a') \<longleftrightarrow> g \<in> a_held a) \<and> a_pc (handover (k mod N) a') g = a_pc a g" if "g \<noteq> h" for g
    using a' M that by (simp add: handover_def split: list.split)
  show "if h = k mod N then table_rel k t (handover (k mod N) a')
    else a_owner (handover (k mod N) a') = a_owner a \<and> a_queue (handover (k mod N) a') = a_queue a"
    using t(2) s M(1) by (auto simp: passed_on_def table_rel_def handover_def split: list.splits)
  show "mail_rel k (k mod N) (ds @ mail s t) (a_msgs (handover (k mod N) a'))"
  proof (cases "a_queue a'")
    case Nil
    then show ?thesis using t(2) s ds by (simp add: passed_on_def handover_def)
  next
    case (Cons w q)
    then show ?thesis using t(2) s ds M(1)
      by (auto simp: passed_on_def handover_def routed_def intro!: mail_rel_send)
  qed
qed

text \<open>The lock messages.\<close>

lemma token_ofD:
  "token_of k (h, port, m) = Some (Acq g) \<Longrightarrow> m_command m = cmd_code ACQ_LOCK \<and> msg_lockno m = Some (int k)"
  "token_of k (h, port, m) = Some (Rls g) \<Longrightarrow> m_command m = cmd_code RLS_LOCK \<and> msg_lockno m = Some (int k)"
  "token_of k (h, port, m) = Some (Grant g) \<Longrightarrow> m_command m = cmd_code GRANT_LOCK \<and> peek_int (m_data m) 0 = int k \<and> g = h"
  by (auto simp: token_of.simps split: if_splits)

lemma acquire_simulates:
  assumes R: "cluster_rel k N \<sigma> a" and inv: "\<And>h. host_inv (k mod N) N a h" and k: "k < LOCK_NUM" "0 < N"
    and fl: "flight \<sigma> = as @ (h, port, m) # bs" "token_of k (h, port, m) = Some (Acq g)"
    and first: "\<And>d. d \<in> set as \<Longrightarrow> token_of k d \<noteq> None \<Longrightarrow> \<not> same_link d (h, port, m)"
    and run: "dispatchMsg (Some m) (node \<sigma> h) = Some t"
  shows "\<exists>b. proto_serve (k mod N) N a b \<and> cluster_rel k N (moves h t (pcs \<sigma> h) (as @ bs @ mail (node \<sigma> h) t) \<sigma>) b"
proof -
  have mr: "mail_rel k (k mod N) (as @ (h, port, m) # bs) (a_msgs a)" using cluster_rel_table(4) [OF R] fl(1) by simp
  note acq = mail_rel_take [OF mr fl(2)] mail_rel_first [OF mr fl(2) first]
  note g = host_inv_token [OF inv disjI1 [OF acq(2)]] host_invD(1) [OF inv acq(2)]
  have h: "h = k mod N" "m_from m = int g" using mr fl(2) by (auto simp: mail_rel_def routed_def)
  have h': "h < N" using h k by simp
  note T = cluster_rel_table [OF R, folded h(1)] and f = cluster_rel_host [OF R h']
  let ?s = "node \<sigma> h" and ?a = "a\<lparr>a_msgs := a_msgs a - {#Acq g#}\<rparr>"
  have nq: "int g \<notin> set (lock_queue (locks ?s k))" using T(3) g(3) by auto
  obtain t' where t': "dispatchMsg (Some m) ?s = Some t'" "member k N (k mod N) t'" "managed k t'" "myLocks t' = myLocks ?s"
    "waitFlag t' = waitFlag ?s"
    "case lock_owner (locks ?s k) of
       None \<Rightarrow> lock_owner (locks t' k) = Some (int g) \<and> lock_queue (locks t' k) = [] \<and>
         (\<exists>d. mail ?s t' = [d] \<and> token_of k d = Some (Grant g))
     | Some y \<Rightarrow> lock_owner (locks t' k) = Some y \<and> mail ?s t' = [] \<and>
         lock_queue (locks t' k) = (if y = int g then lock_queue (locks ?s k) else lock_queue (locks ?s k) @ [int g])"
    using acquire_step [OF f(1) [unfolded h(1)] T(1) [unfolded h(1)] k(1), folded h(1), of m g] token_ofD(1) [OF fl(2)] h g acq(2) nq
    by blast
  then have tt: "t' = t" using run by simp
  have empty: "a_queue a = []" if "a_owner a = None"
    using host_invD(5) [OF inv that] by (metis last_in_set)
  have "proto_serve (k mod N) N a (take_up g ?a)" using acq by (intro proto_serve.take_acq) auto
  moreover have "cluster_rel k N (moves h t (pcs \<sigma> h) ((as @ bs) @ mail ?s t) \<sigma>) (take_up g ?a)"
  proof (rule cluster_rel_moves [OF R])
    show "host_rel k N h t (pcs \<sigma> h) (take_up g ?a)"
      using f t'(2,4,5) h(1) tt by (simp add: host_rel_def take_up_def split: option.split)
    show "if h = k mod N then table_rel k t (take_up g ?a)
      else a_owner (take_up g ?a) = a_owner a \<and> a_queue (take_up g ?a) = a_queue a"
      using h(1) t'(3,6) T(2,3) tt empty by (cases "a_owner a") (auto simp: table_rel_def take_up_def)
    show "mail_rel k (k mod N) ((as @ bs) @ mail ?s t) (a_msgs (take_up g ?a))"
    proof (cases "a_owner a")
      case None
      then obtain d where "mail ?s t = [d]" "token_of k d = Some (Grant g)" using t'(6) T(2) tt by auto
      then show ?thesis using mail_rel_send [OF acq(1), of d "Grant g"] None by (simp add: take_up_def routed_def)
    next
      case (Some y)
      then show ?thesis using acq(1) t'(6) T(2) tt by (simp add: take_up_def)
    qed
  qed (simp add: take_up_def split: option.split)
  ultimately show ?thesis by auto
qed

lemma grant_simulates:
  assumes R: "cluster_rel k N \<sigma> a" and inv: "host_inv (k mod N) N a g" and k: "k < LOCK_NUM"
    and fl: "flight \<sigma> = as @ (h, port, m) # bs" "token_of k (h, port, m) = Some (Grant g)"
    and run: "dispatchMsg (Some m) (node \<sigma> h) = Some t"
  shows "\<exists>b. proto_serve (k mod N) N a b \<and> cluster_rel k N (moves h t (pcs \<sigma> h) (as @ bs @ mail (node \<sigma> h) t) \<sigma>) b"
proof -
  have mr: "mail_rel k (k mod N) (as @ (h, port, m) # bs) (a_msgs a)" using cluster_rel_table(4) [OF R] fl(1) by simp
  note tk = mail_rel_take [OF mr fl(2)] and d = token_ofD(3) [OF fl(2)]
  have h: "h \<noteq> k mod N" "h < N" using host_inv_token [OF inv] tk(2) d by auto
  note f = cluster_rel_host [OF R h(2)]
  have w: "pcs \<sigma> h = Waiting"
    using host_invD(2) [OF inv] tk(2) d f(3) by simp
  let ?s = "node \<sigma> h" and ?b = "a\<lparr>a_msgs := a_msgs a - {#Grant h#}, a_held := insert h (a_held a)\<rparr>"
  obtain t' where "dispatchMsg (Some m) ?s = Some t'" "member k N h t'" "myLocks t' = (myLocks ?s)(k := 1)" "wire t' = wire ?s"
    "waitFlag t' = 0"
    using grant_step [OF f(1) k] d by blast
  with run have t: "member k N h t" "myLocks t = (myLocks ?s)(k := 1)" "mail ?s t = []" "waitFlag t = 0"
    by (simp_all add: mail_none)
  have "proto_serve (k mod N) N a ?b" using tk(2) d by (intro proto_serve.take_grant) simp
  moreover have "cluster_rel k N (moves h t (pcs \<sigma> h) (as @ bs @ mail ?s t) \<sigma>) ?b"
    using h t f tk(1) d by (intro cluster_rel_moves [OF R]) (auto simp: host_rel_def)
  ultimately show ?thesis by blast
qed

lemma release_simulates:
  assumes R: "cluster_rel k N \<sigma> a" and inv: "\<And>h. host_inv (k mod N) N a h" and k: "k < LOCK_NUM" "0 < N"
    and fl: "flight \<sigma> = as @ (h, port, m) # bs" "token_of k (h, port, m) = Some (Rls g)"
    and run: "dispatchMsg (Some m) (node \<sigma> h) = Some t"
  shows "\<exists>b. proto_serve (k mod N) N a b \<and> cluster_rel k N (moves h t (pcs \<sigma> h) (as @ bs @ mail (node \<sigma> h) t) \<sigma>) b"
proof -
  have mr: "mail_rel k (k mod N) (as @ (h, port, m) # bs) (a_msgs a)" using cluster_rel_table(4) [OF R] fl(1) by simp
  note tk = mail_rel_take [OF mr fl(2)]
  have h: "h = k mod N" "m_from m = int g" using mr fl(2) by (auto simp: mail_rel_def routed_def)
  have h': "h < N" using h k by simp
  have o: "a_owner a = Some g" by (rule host_invD(3) [OF inv tk(2)])
  note T = cluster_rel_table [OF R, folded h(1)] and f = cluster_rel_host [OF R h']
  let ?s = "node \<sigma> h" and ?a = "a\<lparr>a_msgs := a_msgs a - {#Rls g#}\<rparr>"
  have me: "myhostid ?s = int h" using f(1) by (simp add: member_def)
  obtain t' where "dispatchMsg (Some m) ?s = Some t'" "member k N h t'" "passed_on k ?s t'"
    "if lock_queue (locks ?s k) \<noteq> [] \<and> hd (lock_queue (locks ?s k)) = myhostid ?s
     then myLocks t' = (myLocks ?s)(k := 1) \<and> waitFlag t' = 0 else myLocks t' = myLocks ?s \<and> waitFlag t' = waitFlag ?s"
    using release_step [OF f(1) [unfolded h(1)] T(1) [unfolded h(1)] k(1), folded h(1), of m g] token_ofD(2) [OF fl(2)] h T(2) o
    by auto
  with run have t: "member k N h t" "passed_on k ?s t"
    "if a_queue a \<noteq> [] \<and> hd (a_queue a) = h
     then myLocks t = (myLocks ?s)(k := 1) \<and> waitFlag t = 0 else myLocks t = myLocks ?s \<and> waitFlag t = waitFlag ?s"
    using T(3) me by (auto simp: hd_map split: if_splits)
  have "proto_serve (k mod N) N a (handover (k mod N) ?a)" using tk(2) o by (intro proto_serve.take_rls)
  moreover have "cluster_rel k N (moves h t (pcs \<sigma> h) ((as @ bs) @ mail ?s t) \<sigma>) (handover (k mod N) ?a)"
    using host_invD(7) [OF inv, of h] t(3) f T(3) tk(1) h(1)
    by (intro handover_simulates [OF R h(1) h' t(1,2) _ me]) (auto simp: handover_def split: list.split if_splits)
  ultimately show ?thesis by auto
qed

lemma unlock_simulates:
  assumes R: "cluster_rel k N \<sigma> a" and inv: "\<And>h. host_inv (k mod N) N a h" and k: "k < LOCK_NUM" "0 < N"
    and h: "h < N" "pcs \<sigma> h = Running" "myLocks (node \<sigma> h) k = 1"
    and run: "mi_unlock (int k) (node \<sigma> h) = Some (r, t)"
  shows "\<exists>b. proto_serve (k mod N) N a b \<and> cluster_rel k N (moves h t Running (flight \<sigma> @ mail (node \<sigma> h) t) \<sigma>) b"
proof (cases "h = k mod N")
  case True
  note T = cluster_rel_table [OF R, folded True] and f = cluster_rel_host [OF R h(1)]
  let ?s = "node \<sigma> h" and ?a = "a\<lparr>a_held := a_held a - {k mod N}\<rparr>"
  have me: "myhostid ?s = int h" using f(1) by (simp add: member_def)
  have o: "h \<in> a_held a" "a_owner a = Some h" using f h host_invD(4) [OF inv] by simp_all
  have nq: "h \<notin> set (a_queue a)" using host_invD(8) [OF inv] f h by simp
  have t: "member k N h t" "passed_on k ?s t" "myLocks t = (myLocks ?s)(k := 0)"
    using unlock_own [OF f(1) [unfolded True] T(1) [unfolded True] k, folded True] h(3) T(2) o(2) me run by auto
  have "proto_serve (k mod N) N a (handover (k mod N) ?a)" using f h o True by (intro proto_serve.unlock_own) simp_all
  moreover have "cluster_rel k N (moves h t Running (flight \<sigma> @ mail ?s t) \<sigma>) (handover (k mod N) ?a)"
    using t(3) f h T(3,4) nq True
    by (intro handover_simulates [OF R True h(1) t(1,2) _ me]) (auto simp: handover_def split: list.split if_splits)
  ultimately show ?thesis by blast
next
  case False
  note T = cluster_rel_table [OF R] and f = cluster_rel_host [OF R h(1)]
  let ?s = "node \<sigma> h" and ?b = "a\<lparr>a_held := a_held a - {h}, a_msgs := add_mset (Rls h) (a_msgs a)\<rparr>"
  obtain port m where t: "member k N h t" "myLocks t = (myLocks ?s)(k := 0)" "mail ?s t = [(k mod N, port, m)]"
    "token_of k (k mod N, port, m) = Some (Rls h)" "m_from m = int h"
    using unlock_remote [OF f(1) k(1) False k(2) h(3)] run by auto
  have "proto_serve (k mod N) N a ?b" using f h False by (intro proto_serve.unlock) simp_all
  moreover have "mail_rel k (k mod N) (flight \<sigma> @ [(k mod N, port, m)]) (add_mset (Rls h) (a_msgs a))"
    using t(4,5) host_invD(8) [OF inv] f h by (intro mail_rel_send [OF T(4)]) (auto simp: routed_def)
  then have "cluster_rel k N (moves h t Running (flight \<sigma> @ mail ?s t) \<sigma>) ?b"
    using t f h False by (intro cluster_rel_moves [OF R]) (auto simp: host_rel_def)
  ultimately show ?thesis by blast
qed

text \<open>A host asks for the lock.\<close>

lemma request_own_simulates:
  assumes R: "cluster_rel k N \<sigma> a" and inv: "\<And>h. host_inv (k mod N) N a h" and k: "k < LOCK_NUM" "0 < N"
    and h: "h = k mod N" "pcs \<sigma> h = Running" "myLocks (node \<sigma> h) k \<noteq> 1"
  shows "(mi_lock (int k) [] [] (node \<sigma> h) = Some (Blocked t) \<and>
      p = (if lock_owner (locks (node \<sigma> h) k) = None then Fetching else Waiting) \<longrightarrow>
      (\<exists>b. proto_step (k mod N) N a b \<and> cluster_rel k N (moves h t p (flight \<sigma> @ mail (node \<sigma> h) t) \<sigma>) b)) \<and>
    (mi_lock (int k) [] [] (node \<sigma> h) = Some (Returned (r, t, env)) \<longrightarrow>
      (\<exists>b. proto_step (k mod N) N a b \<and> cluster_rel k N (moves h t Running (flight \<sigma> @ mail (node \<sigma> h) t) \<sigma>) b))"
proof -
  have h': "h < N" using h k by simp
  note T = cluster_rel_table [OF R, folded h(1)] and f = cluster_rel_host [OF R h']
  let ?s = "node \<sigma> h"
  have me: "myhostid ?s = int h" using f(1) by (simp add: member_def)
  have nq: "h \<notin> set (a_queue a)" "h \<notin> a_held a" using host_invD(8) [OF inv] f h by simp_all
  show ?thesis
  proof (cases "a_owner a")
    case None
    have nil: "a_queue a = []" using host_invD(5) [OF inv None] by (metis last_in_set)
    let ?x = "a\<lparr>a_pc := (a_pc a)(k mod N := Fetching), a_owner := Some (k mod N)\<rparr>"
    let ?y = "a\<lparr>a_held := insert (k mod N) (a_held a), a_owner := Some (k mod N)\<rparr>"
    have o: "lock_owner (locks ?s k) = None" using T(2) None by simp
    obtain u v where u: "mi_lock (int k) [] [] ?s = Some (Returned (v, u, [])) \<and> myLocks u = (myLocks ?s)(k := 1) \<or>
        mi_lock (int k) [] [] ?s = Some (Blocked u) \<and> myLocks u = myLocks ?s"
      "member k N h u" "managed k u" "lock_owner (locks u k) = Some (int h)" "lock_queue (locks u k) = []"
      "waitFlag u = waitFlag ?s" "tokens k (mail ?s u) = {#}" "\<forall>d\<in>set (mail ?s u). token_of k d = None"
      using request_own_idle [OF f(1) [unfolded h(1)] k _ T(1) [unfolded h(1)], folded h(1)] h(3) o me by (auto simp: me)
    note mr = mail_rel_none [OF T(4) u(7,8)]
    have x: "proto_step (k mod N) N a ?x" "proto_step (k mod N) N a ?y"
      using None f h by (auto intro: proto_step.ask_own_fetch proto_step.ask_own_free)
    have "cluster_rel k N (moves h u Fetching (flight \<sigma> @ mail ?s u) \<sigma>) ?x" if "myLocks u = myLocks ?s"
      using u h f nil nq mr that by (intro cluster_rel_moves [OF R]) (auto simp: host_rel_def table_rel_def)
    moreover have "cluster_rel k N (moves h u Running (flight \<sigma> @ mail ?s u) \<sigma>) ?y" if "myLocks u = (myLocks ?s)(k := 1)"
      using u h f nil nq mr that by (intro cluster_rel_moves [OF R]) (auto simp: host_rel_def table_rel_def)
    ultimately show ?thesis using u(1) x o by auto
  next
    case (Some g)
    have g: "g \<noteq> h" using host_invD(9) [OF inv h(1)] Some nq f h by auto
    let ?x = "a\<lparr>a_pc := (a_pc a)(k mod N := Waiting), a_queue := a_queue a @ [k mod N]\<rparr>"
    have o: "lock_owner (locks ?s k) = Some (int g)" "int g \<noteq> myhostid ?s" "myhostid ?s \<notin> set (lock_queue (locks ?s k))"
      using T(2,3) Some me g nq by auto
    obtain u where u: "mi_lock (int k) [] [] ?s = Some (Blocked u)" "member k N h u" "managed k u"
      "lock_owner (locks u k) = Some (int g)" "lock_queue (locks u k) = lock_queue (locks ?s k) @ [int h]"
      "myLocks u = myLocks ?s" "waitFlag u = 1" "wire u = wire ?s"
      using request_own_busy [OF f(1) [unfolded h(1)] k _ T(1) [unfolded h(1)], folded h(1), OF h(3) o] me by auto
    have "proto_step (k mod N) N a ?x" using Some f h nq by (intro proto_step.ask_own_busy) auto
    moreover have "cluster_rel k N (moves h u Waiting (flight \<sigma> @ mail ?s u) \<sigma>) ?x"
      using u h f T(3,4) Some nq by (intro cluster_rel_moves [OF R]) (auto simp: host_rel_def table_rel_def mail_none)
    ultimately show ?thesis using u(1) o(1) by auto
  qed
qed

lemma request_remote_simulates:
  assumes R: "cluster_rel k N \<sigma> a" and inv: "\<And>h. host_inv (k mod N) N a h" and k: "k < LOCK_NUM" "0 < N"
    and h: "h < N" "h \<noteq> k mod N" "pcs \<sigma> h = Running" and run: "mi_lock (int k) [] [] (node \<sigma> h) = Some (Blocked t)"
  shows "\<exists>b. proto_step (k mod N) N a b \<and> cluster_rel k N (moves h t Waiting (flight \<sigma> @ mail (node \<sigma> h) t) \<sigma>) b"
proof -
  note T = cluster_rel_table [OF R] and f = cluster_rel_host [OF R h(1)]
  note t = request_remote [OF f(1) k(1) h(2) k(2) run]
  let ?s = "node \<sigma> h" and ?b = "a\<lparr>a_pc := (a_pc a)(h := Waiting), a_msgs := add_mset (Acq h) (a_msgs a)\<rparr>"
  obtain port m where m: "mail ?s t = [(k mod N, port, m)]" "token_of k (k mod N, port, m) = Some (Acq h)" "m_from m = int h"
    using t(6) by blast
  have "proto_step (k mod N) N a ?b" using f h t(2) by (intro proto_step.ask) simp_all
  moreover have "mail_rel k (k mod N) (flight \<sigma> @ [(k mod N, port, m)]) (add_mset (Acq h) (a_msgs a))"
    using m by (intro mail_rel_send [OF T(4)]) (auto simp: routed_def)
  then have "cluster_rel k N (moves h t Waiting (flight \<sigma> @ mail ?s t) \<sigma>) ?b"
    using t f h m by (intro cluster_rel_moves [OF R]) (auto simp: host_rel_def)
  ultimately show ?thesis by blast
qed

lemma lock_kept_refl: "lock_kept k s s"
  by (simp add: lock_kept_def)

lemma lock_forget_ok: "lock_ok hn l \<Longrightarrow> lock_ok hn (l\<lparr>l_lasthostid := - 1\<rparr>)"
  by (auto simp: lock_ok_def lock_owner_def lock_queue_def split: option.splits if_splits)

lemma lock_kept_managed:
  assumes "lock_kept k s t" "managed k s"
  shows "managed k t" "lock_owner (locks t k) = lock_owner (locks s k)" "lock_queue (locks t k) = lock_queue (locks s k)"
  using assms by (auto simp: lock_kept_def managed_def lock_forget_ok) (simp_all add: lock_owner_def lock_queue_def)

lemma lock_kept_member: "lock_kept k s t \<Longrightarrow> member k N h s \<Longrightarrow> healthy t \<Longrightarrow> member k N h t"
  by (simp add: lock_kept_def member_def)

lemma idle_simulates:
  assumes R: "cluster_rel k N \<sigma> a" and h: "h < N" and t: "healthy t" "lock_kept k (node \<sigma> h) t"
    "pcs \<sigma> h = Waiting \<longrightarrow> waitFlag t = waitFlag (node \<sigma> h)" "lock_mail k ds = lock_mail k (flight \<sigma>)"
  shows "cluster_rel k N (moves h t (pcs \<sigma> h) ds \<sigma>) a"
proof (rule cluster_rel_moves [OF R])
  note f = cluster_rel_host [OF R h] and T = cluster_rel_table [OF R]
  have "myLocks t k = myLocks (node \<sigma> h) k" using t(2) by (simp add: lock_kept_def)
  then show "host_rel k N h t (pcs \<sigma> h) a" using f t lock_kept_member [OF t(2)] by (auto simp: host_rel_def)
  show "if h = k mod N then table_rel k t a else a_owner a = a_owner a \<and> a_queue a = a_queue a"
    using T(1-3) lock_kept_managed [OF t(2)] by (auto simp: table_rel_def)
  show "mail_rel k (k mod N) ds (a_msgs a)" by (rule mail_rel_other [OF T(4) t(4)])
qed simp

text \<open>For example, handling any message that is not about locks is such a step.\<close>

lemma other_message:
  assumes "h < N" "healthy t" "dispatchMsg (Some m) (node \<sigma> h) = Some t"
    and "m_command m \<notin> cmd_code ` {ACQ_LOCK, RLS_LOCK, GRANT_LOCK}"
    and "pcs \<sigma> h = Waiting \<longrightarrow> waitFlag t = waitFlag (node \<sigma> h)" "lock_mail k ds = lock_mail k (flight \<sigma>)"
  shows "cluster_step k N \<sigma> (moves h t (pcs \<sigma> h) ds \<sigma>)"
proof -
  have "lock_kept k (node \<sigma> h) t"
    using locks_kept_dispatch [OF assms(3,4)] by (auto simp: locks_kept_def recv_frame_def lock_kept_def)
  then show ?thesis using assms by (intro cluster_step.other) auto
qed

text \<open>All the steps.\<close>

lemma serve_simulates:
  assumes R: "cluster_rel k N \<sigma> a" and inv: "\<And>h. host_inv (k mod N) N a h" and k: "k < LOCK_NUM" "0 < N"
    and step: "serve_step k N \<sigma> \<tau>"
  shows "\<exists>b. proto_serve (k mod N) N a b \<and> cluster_rel k N \<tau> b"
  using step
proof cases
  case (fetched h)
  then show ?thesis using fetched_simulates [OF R inv] by blast
next
  case (wake h)
  then show ?thesis using wake_simulates [OF R] by blast
next
  case (deliver as h port m bs t)
  obtain x where x: "token_of k (h, port, m) = Some x" using deliver(3) by blast
  show ?thesis
  proof (cases x)
    case (Acq g)
    show ?thesis using acquire_simulates [OF R inv k deliver(2) x [unfolded Acq] deliver(4,5)] deliver(1) by blast
  next
    case (Rls g)
    show ?thesis using release_simulates [OF R inv k deliver(2) x [unfolded Rls] deliver(5)] deliver(1) by blast
  next
    case (Grant g)
    show ?thesis using grant_simulates [OF R inv k(1) deliver(2) x [unfolded Grant] deliver(5)] deliver(1) by blast
  qed
next
  case (release h r t)
  then show ?thesis using unlock_simulates [OF R inv k] by blast
qed

lemma step_simulates:
  assumes R: "cluster_rel k N \<sigma> a" and inv: "\<And>h. host_inv (k mod N) N a h" and k: "k < LOCK_NUM" "0 < N"
    and step: "cluster_step k N \<sigma> \<tau>"
  shows "\<exists>b. (b = a \<or> proto_step (k mod N) N a b) \<and> cluster_rel k N \<tau> b"
  using step
proof cases
  case (request h t p)
  show ?thesis
  proof (cases "h = k mod N")
    case True
    have "myLocks (node \<sigma> h) k \<noteq> 1"
      using request(4) mi_lock_split [OF k(1)] cluster_rel_host(1) [OF R request(2)] k by (auto simp: member_def)
    from mp [OF conjunct1 [OF request_own_simulates [OF R inv k True request(3) this]]] request(4,5) True
    obtain b where "proto_step (k mod N) N a b" "cluster_rel k N (moves h t p (flight \<sigma> @ mail (node \<sigma> h) t) \<sigma>) b"
      by auto
    then show ?thesis using request(1) by blast
  next
    case False
    then show ?thesis using request_remote_simulates [OF R inv k request(2) False request(3,4)] request by auto
  qed
next
  case (request_done h r t env)
  note f = cluster_rel_host [OF R request_done(2)]
  show ?thesis
  proof (cases "myLocks (node \<sigma> h) k = 1")
    case True
    then have "t = node \<sigma> h"
      using request_done(4) mi_lock_split [OF k(1)] f(1) k by (auto simp: member_def)
    then show ?thesis using idle_simulates [OF R request_done(2), of t "flight \<sigma>"] request_done f(1)
      by (intro exI [of _ a]) (auto simp: member_def mail_none lock_kept_refl)
  next
    case False
    show ?thesis
    proof (cases "h = k mod N")
      case True
      from mp [OF conjunct2 [OF request_own_simulates [OF R inv k True request_done(3) False]] request_done(4)]
      show ?thesis using request_done(1) by blast
    next
      case neq: False
      show ?thesis using request_blocks [OF f(1) k(1) neq k(2) False] request_done(4) by simp
    qed
  qed
next
  case serve
  then show ?thesis using serve_simulates [OF R inv k] by (blast intro: proto_step.serve)
next
  case (other h t ds)
  then show ?thesis using idle_simulates [OF R other(2-6)] by blast
qed

end
