(* ===== verification/Mutex.thy ===== *)
theory Mutex
  imports Cluster
begin

text \<open>
  The lock of the cluster works: at most one host holds it, and whoever waits for it gets it. Both rest
  on the protocol of LockProtocol, which the cluster simulates.
\<close>

definition sized_rel :: "nat \<Rightarrow> nat \<Rightarrow> cluster \<Rightarrow> proto \<Rightarrow> bool" where
  "sized_rel k N \<sigma> a \<longleftrightarrow> k < LOCK_NUM \<and> 0 < N \<and> cluster_rel k N \<sigma> a"

interpretation cl: progress "cluster_init k N" "cluster_step k N" "\<lambda>a. k mod N < N \<and> a = proto_init"
  "proto_step (k mod N) N" "sized_rel k N" "serve_step k N" "proto_serve (k mod N) N" "work N"
  for k N
proof unfold_locales
  fix \<sigma> \<tau> a b
  let ?r = "reaches (\<lambda>a. k mod N < N \<and> a = proto_init) (proto_step (k mod N) N)"
  note inv = proto_inv [unfolded proto_reach_def] and mgr = proto_manager [unfolded proto_reach_def]
  show "\<exists>a. (k mod N < N \<and> a = proto_init) \<and> sized_rel k N \<sigma> a" if "cluster_init k N \<sigma>"
    using that cluster_rel_start by (auto simp: cluster_init_def sized_rel_def)
  show "\<exists>b. (b = a \<or> proto_step (k mod N) N a b) \<and> sized_rel k N \<tau> b"
    if "?r a" "sized_rel k N \<sigma> a" "cluster_step k N \<sigma> \<tau>"
    using step_simulates [OF _ inv [OF that(1)] _ _ that(3)] that(2) by (auto simp: sized_rel_def)
  show "\<exists>b. proto_serve (k mod N) N a b \<and> sized_rel k N \<tau> b"
    if "?r a" "sized_rel k N \<sigma> a" "serve_step k N \<sigma> \<tau>"
    using serve_simulates [OF _ inv [OF that(1)] _ _ that(3)] that(2) by (auto simp: sized_rel_def)
  show "proto_step (k mod N) N a b" if "proto_serve (k mod N) N a b" by (rule proto_step.serve [OF that])
  show "work N b < work N a" if "?r a" "proto_serve (k mod N) N a b"
    by (rule serve_less_work [OF that(2) inv [OF that(1)] mgr [OF that(1)]])
qed

lemma cluster_protocol:
  assumes "reaches (cluster_init k N) (cluster_step k N) \<sigma>"
  obtains a where "proto_reach (k mod N) N a" "cluster_rel k N \<sigma> a" "\<And>h. host_inv (k mod N) N a h" "k < LOCK_NUM" "0 < N"
  using cl.simulated [OF assms] proto_inv unfolding sized_rel_def proto_reach_def by blast

text \<open>C1: No two hosts ever hold a lock: in whatever order the hosts call \<open>mi_lock\<close> and \<open>mi_unlock\<close> and
  their messages arrive, the host whose flag of the lock is set is the one that the manager has
  entered as its owner.\<close>

theorem mutual_exclusion:
  assumes "reaches (cluster_init k N) (cluster_step k N) \<sigma>" "g < N" "h < N"
    and "myLocks (node \<sigma> g) k = 1" "myLocks (node \<sigma> h) k = 1"
  shows "g = h \<and> lock_owner (locks (node \<sigma> (k mod N)) k) = Some (int h)"
proof -
  obtain a where a: "cluster_rel k N \<sigma> a" "\<And>h. host_inv (k mod N) N a h" using cluster_protocol [OF assms(1)] by metis
  have "a_owner a = Some g" "a_owner a = Some h"
    using host_invD(4) [OF a(2)] cluster_rel_host(2) [OF a(1)] assms by simp_all
  then show ?thesis using cluster_rel_table(2) [OF a(1)] by simp
qed

section \<open>Nobody waits in vain\<close>

text \<open>A lock message on its way can be delivered.\<close>

lemma deliver_first:
  assumes "cluster_rel k N \<sigma> a" "\<And>h. host_inv (k mod N) N a h" "k < LOCK_NUM" "0 < N" "a_msgs a \<noteq> {#}"
  shows "\<exists>\<tau>. serve_step k N \<sigma> \<tau>"
proof -
  note R = assms(1) and inv = assms(2) and T = cluster_rel_table [OF R]
  have "lock_mail k (flight \<sigma>) \<noteq> []"
    using T(4) assms(5) by (metis mail_rel_def tokens_lock_mail tokens_simps(1))
  then have "\<exists>d\<in>set (flight \<sigma>). token_of k d \<noteq> None" by (auto simp: lock_mail_def filter_empty_conv)
  then obtain as d bs where d: "flight \<sigma> = as @ d # bs" "token_of k d \<noteq> None" "\<forall>e\<in>set as. \<not> token_of k e \<noteq> None"
    using split_list_first_prop [of "flight \<sigma>" "\<lambda>d. token_of k d \<noteq> None"] by blast
  obtain h port m x where x: "d = (h, port, m)" "token_of k (h, port, m) = Some x" using d(2) by (cases d) auto
  have tk: "x \<in># a_msgs a" using mail_rel_take(2) [OF _ x(2)] T(4) d(1) x(1) by simp
  have rt: "routed k (k mod N) (h, port, m)" using T(4) d(1) x(1) by (simp add: mail_rel_def)
  have M: "k mod N < N" using assms(4) by simp
  note fM = cluster_rel_host [OF R M]
  have "\<exists>t. dispatchMsg (Some m) (node \<sigma> h) = Some t"
  proof (cases x)
    case (Acq g)
    then have h: "h = k mod N" "m_from m = int g" using rt x(2) by (auto simp: routed_def)
    have nq: "int g \<notin> set (lock_queue (locks (node \<sigma> (k mod N)) k))" using T(3) host_invD(1) [OF inv] tk Acq by auto
    show ?thesis
      using acquire_step [OF fM(1) T(1) assms(3), of m g] token_ofD(1) [OF x(2) [unfolded Acq]] h host_inv_token [OF inv] tk Acq nq
      by auto
  next
    case (Rls g)
    then have h: "h = k mod N" "m_from m = int g" using rt x(2) by (auto simp: routed_def)
    have "lock_owner (locks (node \<sigma> (k mod N)) k) = Some (int g)" using T(2) host_invD(3) [OF inv] tk Rls by simp
    then show ?thesis
      using release_step [OF fM(1) T(1) assms(3), of m g] token_ofD(2) [OF x(2) [unfolded Rls]] h by auto
  next
    case (Grant g)
    then have "h < N" using token_ofD(3) [OF x(2) [unfolded Grant]] host_inv_token(2) [OF inv] tk by auto
    then show ?thesis
      using grant_step [OF cluster_rel_host(1) [OF R] assms(3)] token_ofD(3) [OF x(2) [unfolded Grant]] by blast
  qed
  then obtain t where "dispatchMsg (Some m) (node \<sigma> h) = Some t" by blast
  with d x(1) show ?thesis by (intro exI) (rule serve_step.deliver, auto)
qed

text \<open>Whoever holds the lock can go on.\<close>

lemma holder_moves:
  assumes "cluster_rel k N \<sigma> a" "\<And>h. host_inv (k mod N) N a h" "k < LOCK_NUM" "0 < N"
    and g: "g < N" "g \<in> a_held a"
  shows "\<exists>\<tau>. serve_step k N \<sigma> \<tau>"
proof -
  note R = assms(1) and f = cluster_rel_host [OF assms(1) g(1)] and T = cluster_rel_table [OF assms(1)]
  have held: "myLocks (node \<sigma> g) k = 1" using f(2) g(2) by simp
  consider "pcs \<sigma> g = Running" | "pcs \<sigma> g = Waiting" | "pcs \<sigma> g = Fetching" by (cases "pcs \<sigma> g")
  then show ?thesis
  proof cases
    case 1
    have "\<exists>r t. mi_unlock (int k) (node \<sigma> g) = Some (r, t)"
    proof (cases "g = k mod N")
      case True
      have "lock_owner (locks (node \<sigma> g) k) = Some (myhostid (node \<sigma> g))"
        using T(2) host_invD(4) [OF assms(2) g(2)] True f(1) by (simp add: member_def)
      then show ?thesis
        using unlock_own [OF f(1) [unfolded True] T(1) assms(3,4)] held True by blast
    next
      case False
      then show ?thesis using unlock_remote [OF f(1) assms(3) False assms(4) held] by blast
    qed
    then show ?thesis using serve_step.release [OF g(1) 1 held] by blast
  next
    case 2
    then show ?thesis using serve_step.wake [OF g(1) 2] f(4) held by blast
  next
    case 3
    then show ?thesis using serve_step.fetched [OF g(1) 3] by blast
  qed
qed

lemma cluster_stuck:
  assumes "cluster_rel k N \<sigma> a" "\<And>h. host_inv (k mod N) N a h" "k < LOCK_NUM" "0 < N"
    and stuck: "\<nexists>\<tau>. serve_step k N \<sigma> \<tau>"
  shows "a_owner a = None" "h < N \<Longrightarrow> pcs \<sigma> h = Running"
proof -
  note R = assms(1) and inv = assms(2) and T = cluster_rel_table [OF assms(1)]
  have ms: "a_msgs a = {#}" using deliver_first [OF assms(1-4)] stuck by blast
  have held: "g \<notin> a_held a" if "g < N" for g using holder_moves [OF assms(1-4) that] stuck by blast
  have fet: "pcs \<sigma> g \<noteq> Fetching" if "g < N" for g using serve_step.fetched [OF that] stuck by blast
  show none: "a_owner a = None"
  proof (rule ccontr)
    assume "a_owner a \<noteq> None"
    then obtain g where g: "a_owner a = Some g" by blast
    have "int g < hostnum (node \<sigma> (k mod N))" using lm.owner_valid [OF T(1)] T(2) g by (simp add: is_host_def)
    then have "g < N" using cluster_rel_host(1) [OF R, of "k mod N"] assms(4) by (simp add: member_def)
    then show False
      using owner_where [OF inv g] ms held fet cluster_rel_host(3) [OF R] by auto
  qed
  show "pcs \<sigma> h = Running" if "h < N"
    using waiting_where [OF inv, of h] none ms held [OF that] fet [OF that] cluster_rel_host(3) [OF R that]
    by (cases "pcs \<sigma> h") auto
qed

text \<open>C2: Every host that waits in \<open>mi_lock\<close> gets the lock, provided that whoever holds it releases it:
  serving the requests there are takes at most seven steps per host, and when no further step is possible
  every host runs, and the lock is free.\<close>

theorem requests_served:
  assumes "reaches (cluster_init k N) (cluster_step k N) \<sigma>" "(serve_step k N ^^ n) \<sigma> \<tau>"
  shows "n \<le> 7 * N \<and> ((\<exists>\<upsilon>. serve_step k N \<tau> \<upsilon>) \<or>
    (\<forall>h<N. pcs \<tau> h = Running) \<and> lock_owner (locks (node \<tau> (k mod N)) k) = None)"
proof -
  obtain a where a: "proto_reach (k mod N) N a" "cluster_rel k N \<sigma> a" "\<And>h. host_inv (k mod N) N a h" "k < LOCK_NUM" "0 < N"
    using cluster_protocol [OF assms(1)] by metis
  have "sized_rel k N \<sigma> a" using a by (simp add: sized_rel_def)
  then obtain b where b: "proto_reach (k mod N) N b" "sized_rel k N \<tau> b" "work N b + n \<le> work N a"
    using cl.run_length [OF assms(2)] a(1) unfolding proto_reach_def by blast
  have "n \<le> 7 * N" using b(3) work_bound [OF a(3)] by (meson add_leD2 le_trans)
  moreover have R: "cluster_rel k N \<tau> b" using b(2) by (simp add: sized_rel_def)
  note stuck = cluster_stuck [OF R proto_inv [OF b(1)] a(4,5)]
  then have "(\<forall>h<N. pcs \<tau> h = Running) \<and> lock_owner (locks (node \<tau> (k mod N)) k) = None" if "\<nexists>\<upsilon>. serve_step k N \<tau> \<upsilon>"
    using cluster_rel_table(2) [OF R] that by auto
  ultimately show ?thesis by blast
qed

text \<open>A run of two hosts: the manager has the lock, the other one waits for it.\<close>

lemma contended:
  "\<exists>\<sigma>. reaches (cluster_init 0 2) (cluster_step 0 2) \<sigma> \<and> myLocks (node \<sigma> 0) 0 = 1 \<and> pcs \<sigma> 1 = Waiting"
proof -
  let ?go = "reaches (cluster_init 0 2) (cluster_step 0 2)" and ?\<sigma> = "cluster_start 2"
  have k: "0 < LOCK_NUM" "2 \<le> MAX_HOST_NUM" by (simp_all add: LOCK_NUM_def MAX_HOST_NUM_def)
  have 0: "?go ?\<sigma>" using k by (intro reaches.start) (simp add: cluster_init_def)
  obtain a where R: "cluster_rel 0 2 ?\<sigma> a" using cluster_protocol [OF 0] by metis
  let ?s = "node ?\<sigma> 0"
  have s: "?s = boot 0 2" by (simp add: cluster_start_def)
  have "lock_owner (locks ?s 0) = None" using boot_ok(12) [of 0 2 0] k by (simp add: s lock_owner_def free_lock_def)
  moreover have "myLocks ?s 0 \<noteq> 1" using boot_fields(3) [of 0 2 0] k by (simp add: s)
  ultimately obtain t r where t: "mi_lock 0 [] [] ?s = Some (Returned (r, t, [])) \<and> myLocks t 0 = 1 \<or>
      mi_lock 0 [] [] ?s = Some (Blocked t)"
    using request_own_idle [of 0 2 ?s] cluster_rel_host(1) [OF R, of 0] cluster_rel_table(1) [OF R] k by auto
  obtain \<sigma> where 1: "?go \<sigma>" "myLocks (node \<sigma> 0) 0 = 1" "pcs \<sigma> 1 = Running"
  proof (cases "mi_lock 0 [] [] ?s = Some (Blocked t)")
    case True
    let ?\<tau> = "moves 0 t Fetching (flight ?\<sigma> @ mail ?s t) ?\<sigma>"
    have "cluster_step 0 2 ?\<sigma> ?\<tau>"
      using True \<open>lock_owner (locks ?s 0) = None\<close> by (intro cluster_step.request) (simp_all add: cluster_start_def)
    moreover have "cluster_step 0 2 ?\<tau> (moves 0 ((node ?\<tau> 0)\<lparr>myLocks := (myLocks (node ?\<tau> 0))(0 := 1)\<rparr>) Running (flight ?\<tau>) ?\<tau>)"
      (is "cluster_step _ _ _ ?\<upsilon>") by (intro cluster_step.serve serve_step.fetched) simp_all
    ultimately have "?go ?\<upsilon>" by (rule reaches.more [OF reaches.more [OF 0]])
    then show ?thesis by (rule that) (simp_all add: cluster_start_def)
  next
    case False
    have "cluster_step 0 2 ?\<sigma> (moves 0 t Running (flight ?\<sigma> @ mail ?s t) ?\<sigma>)"
      (is "cluster_step _ _ _ ?\<upsilon>") using t False by (intro cluster_step.request_done) (auto simp: cluster_start_def)
    then have "?go ?\<upsilon>" by (rule reaches.more [OF 0])
    then show ?thesis by (rule that) (use t False in \<open>simp_all add: cluster_start_def\<close>)
  qed
  obtain b where b: "cluster_rel 0 2 \<sigma> b" "\<And>h. host_inv (0 mod 2) 2 b h" using cluster_protocol [OF 1(1)] by metis
  have "1 \<notin> b_held" if "b_held = a_held b" for b_held
    using host_invD(4) [OF b(2), of 0] host_invD(4) [OF b(2), of 1] cluster_rel_host(2) [OF b(1), of 0] 1(2) that by auto
  then have free: "myLocks (node \<sigma> 1) 0 \<noteq> 1" using cluster_rel_host(2) [OF b(1), of 1] by auto
  obtain u where "mi_lock 0 [] [] (node \<sigma> 1) = Some (Blocked u)"
    using request_blocks [OF cluster_rel_host(1) [OF b(1), of 1] k(1)] free by auto
  then have "cluster_step 0 2 \<sigma> (moves 1 u Waiting (flight \<sigma> @ mail (node \<sigma> 1) u) \<sigma>)"
    using 1(3) by (intro cluster_step.request) simp_all
  then show ?thesis using 1 by (intro exI [of _ "moves 1 u Waiting (flight \<sigma> @ mail (node \<sigma> 1) u) \<sigma>"]) (auto intro: reaches.more)
qed

theorem mutual_exclusion_witness:
  "\<exists>\<sigma>. reaches (cluster_init 0 2) (cluster_step 0 2) \<sigma> \<and> pcs \<sigma> 1 = Waiting \<and> myLocks (node \<sigma> 0) 0 = 1 \<and>
    lock_owner (locks (node \<sigma> 0) 0) = Some 0 \<and> myLocks (node \<sigma> 1) 0 \<noteq> 1"
proof -
  obtain \<sigma> where s: "reaches (cluster_init 0 2) (cluster_step 0 2) \<sigma>" "myLocks (node \<sigma> 0) 0 = 1" "pcs \<sigma> 1 = Waiting"
    using contended by blast
  have "lock_owner (locks (node \<sigma> 0) 0) = Some 0" using mutual_exclusion [OF s(1), of 0 0] s(2) by simp
  moreover have "myLocks (node \<sigma> 1) 0 \<noteq> 1" using mutual_exclusion [OF s(1), of 0 1] s(2) by auto
  ultimately show ?thesis using s by blast
qed

text \<open>Served to the end, the other host is done, too.\<close>

theorem requests_served_witness:
  "\<exists>\<sigma> n \<tau>. reaches (cluster_init 0 2) (cluster_step 0 2) \<sigma> \<and> pcs \<sigma> 1 = Waiting \<and> myLocks (node \<sigma> 0) 0 = 1 \<and>
    (serve_step 0 2 ^^ n) \<sigma> \<tau> \<and> n \<le> 14 \<and> pcs \<tau> 0 = Running \<and> pcs \<tau> 1 = Running \<and> lock_owner (locks (node \<tau> 0) 0) = None"
proof -
  obtain \<sigma> where s: "reaches (cluster_init 0 2) (cluster_step 0 2) \<sigma>" "myLocks (node \<sigma> 0) 0 = 1" "pcs \<sigma> 1 = Waiting"
    using contended by blast
  let ?L = "\<lambda>n. \<exists>\<tau>. (serve_step 0 2 ^^ n) \<sigma> \<tau>"
  have b: "n \<le> 14" if "?L n" for n using that requests_served [OF s(1), of n] by auto
  have "?L 0" by auto
  from GreatestI_nat [of ?L, OF this b] obtain \<tau> where t: "(serve_step 0 2 ^^ (GREATEST n. ?L n)) \<sigma> \<tau>" by blast
  let ?n = "GREATEST n. ?L n"
  have "\<nexists>\<upsilon>. serve_step 0 2 \<tau> \<upsilon>"
  proof
    assume "\<exists>\<upsilon>. serve_step 0 2 \<tau> \<upsilon>"
    then have "?L (Suc ?n)" using t by auto
    from Greatest_le_nat [of ?L, OF this b] show False by simp
  qed
  then have "\<forall>h<2. pcs \<tau> h = Running" "lock_owner (locks (node \<tau> 0) 0) = None" using requests_served [OF s(1) t] by auto
  then show ?thesis using s t b [of ?n] by (intro exI [of _ \<sigma>] exI [of _ ?n] exI [of _ \<tau>]) auto
qed

end
