(* ===== verification/Startup.thy ===== *)
theory Startup
  imports Mutex
begin

text \<open>
  Start-up as a whole: \<open>initLocalEnv\<close> of \<open>src/init.c\<close> reads the host table, finds this host and
  initializes the network, the locks and the memory, one after the other. The state it leaves is well
  formed in the sense of all components.
\<close>

section \<open>The state after start-up\<close>

text \<open>The invariants of the components: sending queue, intervals, write notices and pages, allocation,
  receiving queue, and the locks this host manages.\<close>

definition well_formed :: "mem_st \<Rightarrow> bool" where
  "well_formed s \<longleftrightarrow> healthy s \<and> alloc_ok s \<and> receptive s \<and> isSigioDisabled s = 0 \<and>
     (\<forall>k<LOCK_NUM. myLocks s k = 0 \<and> (int k mod hostnum s = myhostid s \<longrightarrow> managed k s))"

lemma start_modules:
  assumes "ivals s = []" "wns s = []" "0 \<le> myhostid s" "myhostid s < hostnum s" "hostnum s \<le> int MAX_HOST_NUM"
    "isSigioDisabled s = 0" "isSendingMsg s = 0"
  shows "\<exists>t u. initnet data_fds ack_fds s = Some t \<and> initmem (initsyn t) = Some u \<and> well_formed u \<and>
    hostnum u = hostnum s \<and> myhostid u = myhostid s \<and> hosts u = hosts s"
proof -
  have h: "aidx (myhostid s) MAX_HOST_NUM = Some (nat (myhostid s))" using assms by (simp add: aidx_def)
  obtain t where t: "initnet data_fds ack_fds s = Some t" "ivals t = []" "wns t = []" "hostnum t = hostnum s"
    "myhostid t = myhostid s" "quiet t" "recv_ok t" "recvQueueSize t = 0" "isSigioDisabled t = 0" "hosts t = hosts s"
    using h assms by (simp add: initnet_def quiet_def snd_ok_def recv_ok_def ring_ok_def MAX_QUEUE_SIZE_def)
  have i: "host_ok (initsyn t)" "ivals (initsyn t) = []" "wns (initsyn t) = []" "quiet (initsyn t)"
    using assms t by (auto simp: host_ok_def initsyn_def quiet_def snd_ok_def)
  obtain u where u: "initmem (initsyn t) = Some u" "mem_ok (first_lists (initsyn t)) (\<lambda>_. []) (\<lambda>_ _. []) u" "alloc_ok u"
    "hostnum u = hostnum s" "myhostid u = myhostid s" "locks u = locks (initsyn t)" "quiet u"
    using initmem_ok [OF i(1-3)] i(4) t(4,5) by (auto simp: initsyn_def)
  have "myLocks u = myLocks (initsyn t)" "recv_ok u \<and> recvQueueSize u = 0 \<and> isSigioDisabled u = 0 \<and> hosts u = hosts s"
    using u(1) t(7-10) by (auto simp: initmem_def set_intervalList_def Let_def initsyn_def recv_ok_def elim!: bindE split: if_split_asm)
  moreover have "lock_ok (hostnum s) free_lock" using assms by (intro lock_ok_free) simp
  ultimately have "well_formed u"
    using assms u by (auto simp: well_formed_def healthy_def receptive_def in_hosts_def initsyn_def managed_def)
  with t u \<open>recv_ok u \<and> _\<close> show ?thesis by blast
qed

lemma sigio_globals: "isSigioDisabled mem_globals = 0"
  by (simp add: mem_globals_def syn_globals_def net_globals_def init_globals_def init_st.defs net_st.defs syn_st.defs mem_st.defs)

text \<open>C26: Start-up establishes the invariants of all components: on a file with up to \<open>MAX_HOST_NUM\<close> lines,
  each an address and a user name, \<open>initLocalEnv\<close> makes this host the first one in the file with the name of the
  user, and leaves a well formed state; if the user is not in the file, the id -1 is used as an index.\<close>

theorem initLocalEnv_well_formed:
  assumes "list_all host_line lines" "length lines \<le> MAX_HOST_NUM"
  shows "if \<exists>l\<in>set lines. segments l ! 1 = name
    then \<exists>s h. initLocalEnv (Some lines) name data_fds ack_fds mem_globals = Some s \<and> well_formed s \<and>
      hostnum s = int (length lines) \<and> myhostid s = int h \<and> h < length lines \<and>
      segments (lines ! h) ! 1 = name \<and> (\<forall>i<h. segments (lines ! i) ! 1 \<noteq> name) \<and>
      (\<forall>i<length lines. [address (hosts s i), username (hosts s i)] = segments (lines ! i))
    else initLocalEnv (Some lines) name data_fds ack_fds mem_globals = None"
proof -
  let ?g = "mem_globals\<lparr>hosts := host_rows 0 lines (hosts mem_globals), hostnum := int (length lines)\<rparr>"
  have g: "readHosts (Some lines) mem_globals = Some ?g"
    using read_lines_eq [OF assms(1), of 0 mem_globals] assms(2) by (simp add: readHosts_def)
  have user: "username (hosts ?g i) = segments (lines ! i) ! 1" if "i < length lines" for i
    using that by (simp add: host_rows_def host_of_def)
  have row: "[address (hosts ?g i), username (hosts ?g i)] = segments (lines ! i)" if "i < length lines" for i
    using that assms(1) by (auto simp: host_rows_def host_of_def list_all_length host_line_def)
  have find: "findHostIdByName (Some name) ?g = Some (case find (\<lambda>k. username (hosts ?g k) = name) [0..<length lines] of
      None \<Rightarrow> - 1 | Some k \<Rightarrow> int k)"
    using findHost_loop_eq [of ?g name 0] assms(2) by (simp add: findHostIdByName_def)
  show ?thesis
  proof (cases "find (\<lambda>k. username (hosts ?g k) = name) [0..<length lines]")
    case None
    then have "\<forall>i<length lines. segments (lines ! i) ! 1 \<noteq> name" using user by (auto simp: find_None_iff)
    then have "\<not> (\<exists>l\<in>set lines. segments l ! 1 = name)" by (auto simp: in_set_conv_nth)
    moreover have "initLocalEnv (Some lines) name data_fds ack_fds mem_globals = None"
      using find None by (simp add: initLocalEnv_def g initnet_def aidx_def)
    ultimately show ?thesis by auto
  next
    case (Some h)
    then have h: "h < length lines" "segments (lines ! h) ! 1 = name" "\<forall>i<h. segments (lines ! i) ! 1 \<noteq> name"
      using user by (auto simp: find_Some_iff)
    obtain t u where u: "initnet data_fds ack_fds (?g\<lparr>myhostid := int h\<rparr>) = Some t" "initmem (initsyn t) = Some u"
      "well_formed u" "hostnum u = int (length lines)" "myhostid u = int h" "hosts u = hosts ?g"
      using start_modules [of "?g\<lparr>myhostid := int h\<rparr>" data_fds ack_fds] h(1) assms(2) sigio_globals by auto
    have "initLocalEnv (Some lines) name data_fds ack_fds mem_globals = Some u"
      using find Some u(1,2) by (simp add: initLocalEnv_def g)
    then show ?thesis using u(3-6) h row by (auto intro!: exI [of _ h])
  qed
qed

theorem initLocalEnv_well_formed_witness:
  "\<exists>s. initLocalEnv (Some [''1.2 u'', ''1.3 v'']) ''v'' [] [] mem_globals = Some s \<and> well_formed s \<and>
    hostnum s = 2 \<and> myhostid s = 1"
proof -
  have s: "segments ''1.2 u'' = [''1.2'', ''u'']" "segments ''1.3 v'' = [''1.3'', ''v'']"
    by (simp_all add: segments.simps [of "''1.2 u''"] segments.simps [of "'' u''"]
        segments.simps [of "''1.3 v''"] segments.simps [of "'' v''"]
        segments.simps [of "''''"] is_blank_def is_end_def in_seg_def c_at_def)
  have "list_all host_line [''1.2 u'', ''1.3 v'']" by (simp add: host_line_def s WORDSIZE_def)
  from initLocalEnv_well_formed [OF this, of "''v''" "[]" "[]"] obtain t h where
    "initLocalEnv (Some [''1.2 u'', ''1.3 v'']) ''v'' [] [] mem_globals = Some t" "well_formed t" "hostnum t = 2"
    "myhostid t = int h" "segments ([''1.2 u'', ''1.3 v''] ! h) ! 1 = ''v''" "h < 2"
    by (auto simp: s MAX_HOST_NUM_def)
  moreover from this have "h = 1" by (cases h) (auto simp: s)
  ultimately show ?thesis by simp
qed

end
