(* ===== verification/Refresh.thy ===== *)
theory Refresh
  imports Startup
begin

text \<open>
  A read fault on an invalid page: \<open>fetchDiff\<close> of \<open>src/mem.c\<close> asks the other hosts, one after the other,
  for the diffs of the write notices it has received for the page, each answer is added to the page
  while the program waits, and the page is readable again.
\<close>

section \<open>The diffs that are asked for\<close>

text \<open>Is the interval of the notice \<open>w\<close> later than the one the page was fetched in?\<close>

definition newer :: "mem_st \<Rightarrow> ptr \<Rightarrow> nat \<Rightarrow> bool" where
  "newer s start w \<longleftrightarrow> (case start of None \<Rightarrow> True
     | Some j \<Rightarrow> ts_after (nat (hostnum s)) (notice_ts s w) (i_timestamp (ivals s ! j)))"

text \<open>Of the notices of a host, newest first, those before the first one whose diff is present.\<close>

definition wanted :: "mem_st \<Rightarrow> ptr \<Rightarrow> nat list \<Rightarrow> nat list" where
  "wanted s start ws = filter (newer s start) (takeWhile (\<lambda>w. w_diffAddress (wns s ! w) = None) ws)"

definition missing_diffs :: "(nat \<Rightarrow> nat \<Rightarrow> nat list) \<Rightarrow> nat \<Rightarrow> mem_st \<Rightarrow> nat list \<Rightarrow> (nat \<times> nat) list" where
  "missing_diffs P k s is = concat (map (\<lambda>i. if int i = myhostid s then []
     else map (Pair i) (wanted s (p_startInterval (pageArray s k)) (P k i))) is)"

text \<open>The request for a diff, and the answer of the writer with the diff \<open>d\<close>.\<close>

definition asks :: "nat \<Rightarrow> mem_st \<Rightarrow> nat \<times> nat \<Rightarrow> datagram \<Rightarrow> bool" where
  "asks k s x d \<longleftrightarrow> (case (x, d) of ((h, w), (to, port, m)) \<Rightarrow> to = h \<and> m_command m = cmd_code FETCH_DIFF \<and>
     m_from m = myhostid s \<and> m_data m = poke (\<lambda>_. 0) 0 (int_bytes (int k) @ ints_bytes (notice_ts s w)))"

definition answers :: "nat \<Rightarrow> mem_st \<Rightarrow> nat \<times> nat \<Rightarrow> mimsg_t \<Rightarrow> byte list \<Rightarrow> bool" where
  "answers k s x m d \<longleftrightarrow> (case x of (h, w) \<Rightarrow> m_command m = cmd_code GRANT_DIFF \<and> m_from m = int h \<and>
     length d = PAGESIZE \<and> m_data m = poke (\<lambda>_. 0) 0 (ints_bytes (notice_ts s w) @ int_bytes (int k) @ d))"

section \<open>One diff\<close>

lemma request_diff_sends:
  assumes ok: "mem_ok L W P s" and q: "quiet s" and h: "int h < hostnum s" and ts: "ts_ok ts"
  shows "\<exists>t. (\<forall>env. request_diff (int h) (int k) ts env s = await fetchDiffWaitFlag env t) \<and>
    quiet t \<and> net_frame (s\<lparr>fetchDiffWaitFlag := 1\<rparr>) t \<and>
    sent (wire s) (wire t) [sent_msg s (int h) FETCH_DIFF no_ts (int_bytes (int k) @ ints_bytes ts)]"
proof -
  have host: "host_ok s" using ok by (simp add: mem_ok_def)
  let ?s = "s\<lparr>fetchDiffWaitFlag := 1\<rparr>" and ?bs = "int_bytes (int k) @ ints_bytes ts"
  have len: "length (ints_bytes ts) = 4 * MAX_HOST_NUM" using ts by (simp add: ts_ok_def)
  obtain t where t: "sendMsg (Some (SndSlot (sndTail s))) (fill ?s (packed (myhostid s) (int h) FETCH_DIFF no_ts ?bs)) = Some (0, t)"
    "quiet t" "net_frame ?s t" "sent (wire s) (wire t) [sent_msg ?s (int h) FETCH_DIFF no_ts ?bs]"
    using send_fill [of ?s "int h" ?bs FETCH_DIFF no_ts] q in_hosts_host [OF host _ h] in_hosts_me [OF host] len
    by (auto simp: size_consts)
  have "apendMsgData (Some (SndSlot (sndTail s))) (Some (ints_bytes ts)) (int (4 * MAX_HOST_NUM))
      (fill s (packed (myhostid s) (int h) FETCH_DIFF no_ts (int_bytes (int k)))) =
    Some (0, fill s (packed (myhostid s) (int h) FETCH_DIFF no_ts ?bs))"
    by (subst append_fill) (use len in \<open>simp_all add: size_consts\<close>)
  moreover have "apendMsgData (Some (SndSlot (sndTail s))) (Some (int_bytes (int k))) 4
      (fill s (packed (myhostid s) (int h) FETCH_DIFF no_ts [])) =
    Some (0, fill s (packed (myhostid s) (int h) FETCH_DIFF no_ts (int_bytes (int k))))"
    using append_fill_int [of "[]" s] by (simp add: size_consts)
  ultimately have "request_diff (int h) (int k) ts env s = await fetchDiffWaitFlag env t" for env
    by (simp add: request_diff_def new_msg_fill [OF q] fill_flags t(1))
  moreover have "sent_msg ?s (int h) FETCH_DIFF no_ts ?bs = sent_msg s (int h) FETCH_DIFF no_ts ?bs"
    by (simp add: sent_msg_def)
  ultimately show ?thesis using t(2-4) by auto
qed

lemma notice_ts_cong: "ivals t = ivals s \<Longrightarrow> wns t = wns s \<Longrightarrow> notice_ts t = notice_ts s"
  by (simp add: notice_ts_def fun_eq_iff)

lemma diff_applied_net:
  "quiet (diff_applied k w bs d s) = quiet s" "wire (diff_applied k w bs d s) = wire s"
  "dataPorts (diff_applied k w bs d s) = dataPorts s"
  by (simp_all add: diff_applied_def quiet_def snd_ok_def)

text \<open>The answer arrives while the program waits.\<close>

lemma diff_arrives:
  assumes ok: "mem_ok L W P s" and q: "quiet s" and r: "receptive s" and k: "k < MAX_PAGE_NUM"
    and st: "p_state (pageArray s k) = INVALID" and page: "vm s (page_addr k) = Some (PROT_NONE, bs)"
    and flag: "fetchDiffWaitFlag s \<noteq> 0" and h: "int h < hostnum s" "int h \<noteq> myhostid s"
    and w: "find (\<lambda>v. notice_ts s v = notice_ts s w) (P k h) = Some w" and m: "answers k s (h, w) m d"
  shows "\<exists>t. (\<forall>env. await fetchDiffWaitFlag (deliver h m # env) s = Some (Returned (t, env))) \<and> receptive t \<and> quiet t \<and>
    wire t = wire s \<and> mem_ok L W P t \<and> same_mem (diff_applied k w bs d s) t"
proof -
  have host: "host_ok s" using ok by (simp add: mem_ok_def)
  then have i: "h < MAX_HOST_NUM" "h \<noteq> me s" using h by (auto simp: host_ok_def me_def)
  have c: "m_command m = cmd_code GRANT_DIFF" "m_from m = int h" "length d = PAGESIZE"
    "m_data m = poke (\<lambda>_. 0) 0 (ints_bytes (notice_ts s w) @ int_bytes (int k) @ d)"
    using m by (simp_all add: answers_def del: cmd_code.simps)
  have "in_hosts (m_from m)" using c(2) i(1) by (simp add: in_hosts_def)
  then obtain u where u: "idle_frame s u" "\<And>t. dispatchMsg (Some m) u = Some t \<Longrightarrow>
      sigio_handler (deliver h m) s = Some (settled t) \<and> receptive (settled t)"
    using sigio_deliver [OF r i(1) h(2)] by blast
  note f = idle_frame_fields [OF u(1)]
  have nt: "notice_ts u = notice_ts s" "me u = me s" using f(1) by (auto simp: same_mem_def me_def intro!: notice_ts_cong)
  let ?t = "diff_applied k w bs d u"
  have uk: "mem_ok L W P u" "p_state (pageArray u k) = INVALID" "vm u (page_addr k) = Some (PROT_NONE, bs)"
    using ok st page mem_ok_same_mem [OF f(1)] f(1) by (simp_all add: same_mem_def)
  have "find (\<lambda>v. notice_ts u v = notice_ts s w) (P k h) = Some w" "h \<noteq> me u" using w i(2) nt by simp_all
  note run = handleGrantDiff_ok [OF uk(1) k i(1) this(2) uk(2,3) this(1) c(3,2,4)]
  have d: "dispatchMsg (Some m) u = Some ?t" using run(1) by (simp add: dispatch_cmd(7) [OF c(1)])
  have s': "idle_frame ?t (settled ?t)" by simp
  note g = idle_frame_fields [OF s']
  have "same_mem (diff_applied k w bs d s) (settled ?t)"
    using f(1) g(1) by (auto simp: same_mem_def diff_applied_def)
  moreover have "mem_ok L W P (settled ?t)" using run(2) mem_ok_same_mem [OF g(1)] by simp
  moreover have "quiet (settled ?t)" "wire (settled ?t) = wire s"
    using f(2,3) g(2,3) q diff_applied_net [of k w bs d u] by simp_all
  moreover have "await fetchDiffWaitFlag (deliver h m # env) s = Some (Returned (settled ?t, env))" for env
    by (rule await_deliver [where flag = fetchDiffWaitFlag, OF conjunct1 [OF u(2) [OF d]] flag])
      (simp add: g(10), simp add: diff_applied_def)
  ultimately show ?thesis using u(2) [OF d] by blast
qed

section \<open>All the diffs of a host\<close>

definition stale ::
    "(nat \<Rightarrow> nat list) \<Rightarrow> (nat \<Rightarrow> nat list) \<Rightarrow> (nat \<Rightarrow> nat \<Rightarrow> nat list) \<Rightarrow> nat \<Rightarrow> byte list \<Rightarrow> mem_st \<Rightarrow> bool" where
  "stale L W P k bs s \<longleftrightarrow> mem_ok L W P s \<and> quiet s \<and> receptive s \<and> p_state (pageArray s k) = INVALID \<and>
     vm s (page_addr k) = Some (PROT_NONE, bs)"

text \<open>From \<open>s\<close> to \<open>t\<close> the notices \<open>ws\<close> have got their diffs \<open>d\<close>, and nothing else but the page has changed.\<close>

definition took :: "nat \<Rightarrow> (nat \<Rightarrow> byte list) \<Rightarrow> nat list \<Rightarrow> mem_st \<Rightarrow> mem_st \<Rightarrow> bool" where
  "took k d ws s t \<longleftrightarrow> pageArray t = pageArray s \<and> ivals t = ivals s \<and> hostnum t = hostnum s \<and>
     myhostid t = myhostid s \<and> length (wns t) = length (wns s) \<and>
     (\<forall>v. w_interval (wns t ! v) = w_interval (wns s ! v) \<and> w_nextInPage (wns t ! v) = w_nextInPage (wns s ! v) \<and>
       w_diffAddress (wns t ! v) = (if v \<in> set ws then Some (d v) else w_diffAddress (wns s ! v)))"

lemma took_Nil: "same_mem s t \<Longrightarrow> took k d [] s t"
  by (simp add: took_def same_mem_def)

lemma took_trans: "took k d ws s t \<Longrightarrow> took k d vs t u \<Longrightarrow> took k d (ws @ vs) s u"
  by (auto simp: took_def)

lemma took_reads:
  assumes "took k d ws s t"
  shows "notice_ts t = notice_ts s" "nextInPage t = nextInPage s" "asks k t = asks k s" "answers k t = answers k s"
    "newer t = newer s"
proof -
  show nt: "notice_ts t = notice_ts s" using assms by (simp add: took_def notice_ts_def fun_eq_iff)
  show "nextInPage t = nextInPage s" using assms by (simp add: took_def nextInPage_eq fun_eq_iff)
  show "asks k t = asks k s" "answers k t = answers k s" "newer t = newer s"
    using assms by (auto simp: asks_def answers_def newer_def nt took_def fun_eq_iff split: option.split)
qed

lemma took_wanted: "took k d ws s t \<Longrightarrow> set vs \<inter> set ws = {} \<Longrightarrow> wanted t start vs = wanted s start vs"
  using took_reads(5) [of k d ws s t] unfolding wanted_def
  by (intro arg_cong2 [of _ _ _ _ filter] takeWhile_cong) (auto simp: took_def)

lemma took_applied:
  assumes "same_mem (diff_applied k w bs (d w) u) v" "same_mem s u" "w < length (wns s)" "w_diffAddress (wns s ! w) = None"
  shows "took k d [w] s v"
  using assms by (auto simp: took_def same_mem_def diff_applied_def nth_list_update)

lemma find_inj: "inj_on f (set xs) \<Longrightarrow> w \<in> set xs \<Longrightarrow> find (\<lambda>v. f v = f w) xs = Some w"
  by (induction xs) (auto simp: inj_on_def)

lemma receptive_flag: "receptive (s\<lparr>fetchDiffWaitFlag := x\<rparr>) = receptive s"
  by (simp add: receptive_def recv_ok_def)

lemma one_diff:
  assumes st: "stale L W P k bs s" and k: "k < MAX_PAGE_NUM" and h: "int h < hostnum s" "int h \<noteq> myhostid s"
    and w: "w \<in> set (P k h)" "w_diffAddress (wns s ! w) = None" and inj: "inj_on (notice_ts s) (set (P k h))"
    and m: "answers k s (h, w) m (d w)"
  shows "\<exists>t x. (\<forall>env. request_diff (int h) (int k) (notice_ts s w) (deliver h m # env) s = Some (Returned (t, env))) \<and>
    stale L W P k (patch bs (d w)) t \<and> took k d [w] s t \<and> sent (wire s) (wire t) [x] \<and> asks k s (h, w) x"
proof -
  have s: "mem_ok L W P s" "quiet s" "receptive s" "p_state (pageArray s k) = INVALID"
    "vm s (page_addr k) = Some (PROT_NONE, bs)"
    using st by (simp_all add: stale_def)
  have "host_ok s" using s(1) by (simp add: mem_ok_def)
  then have hm: "h < MAX_HOST_NUM" using h by (auto simp: host_ok_def)
  have wl: "w < length (wns s)" "ts_ok (notice_ts s w)" using notice_ts_ok [OF s(1) k hm w(1)] by simp_all
  let ?x = "sent_msg s (int h) FETCH_DIFF no_ts (int_bytes (int k) @ ints_bytes (notice_ts s w))"
  obtain u where u: "\<And>env. request_diff (int h) (int k) (notice_ts s w) env s = await fetchDiffWaitFlag env u" "quiet u"
    "net_frame (s\<lparr>fetchDiffWaitFlag := 1\<rparr>) u" "sent (wire s) (wire u) [?x]"
    using request_diff_sends [OF s(1,2) h(1) wl(2)] by blast
  have sm: "same_mem s u" using same_mem_trans [OF same_mem_flags(2) same_mem_net_frame [OF u(3)]] .
  have flag: "fetchDiffWaitFlag u \<noteq> 0" using u(3) by (cases u) (simp add: net_frame_def)
  have uk: "mem_ok L W P u" "receptive u" "p_state (pageArray u k) = INVALID" "vm u (page_addr k) = Some (PROT_NONE, bs)"
    "int h < hostnum u" "int h \<noteq> myhostid u"
    using s h sm mem_ok_same_mem [OF sm] net_frame_receptive [OF u(3)] receptive_flag by (simp_all add: same_mem_def)
  have nt: "took k d [] s u" by (rule took_Nil [OF sm])
  note r = took_reads [OF nt]
  have f: "find (\<lambda>v. notice_ts u v = notice_ts u w) (P k h) = Some w" using find_inj [OF inj w(1)] r(1) by simp
  have a: "answers k u (h, w) m (d w)" using m r(4) by simp
  obtain t where t: "\<And>env. await fetchDiffWaitFlag (deliver h m # env) u = Some (Returned (t, env))" "receptive t" "quiet t"
    "wire t = wire u" "mem_ok L W P t" "same_mem (diff_applied k w bs (d w) u) t"
    using diff_arrives [OF uk(1) u(2) uk(2) k uk(3,4) flag uk(5,6) f a] by blast
  have "stale L W P k (patch bs (d w)) t"
    using t(2,3,5,6) uk(3) by (simp add: stale_def same_mem_def diff_applied_def)
  moreover have "took k d [w] s t" by (rule took_applied [where d = d, OF t(6) sm wl(1) w(2)])
  moreover have "asks k s (h, w) ?x" by (simp add: asks_def sent_msg_def packed_def)
  ultimately show ?thesis using t(1,4) u(1,4) by (intro exI [of _ t] exI [of _ ?x]) simp
qed

lemma diff_loop_ok:
  assumes "k < MAX_PAGE_NUM" "stale L W P k bs s" "chain (nextInPage s) p ws" "set ws \<subseteq> set (P k h)" "distinct ws"
    "inj_on (notice_ts s) (set (P k h))" "int h < hostnum s" "int h \<noteq> myhostid s"
    "case start of None \<Rightarrow> True | Some j \<Rightarrow> j < length (ivals s)"
    "\<forall>w\<in>set (wanted s start ws). answers k s (h, w) (msg w) (d w)"
  shows "\<exists>t ds. diff_loop (int h) (int k) start p (map (\<lambda>w. deliver h (msg w)) (wanted s start ws) @ env) s =
      Some (Returned (t, env)) \<and> stale L W P k (foldl patch bs (map d (wanted s start ws))) t \<and>
    took k d (wanted s start ws) s t \<and> sent (wire s) (wire t) ds \<and>
    list_all2 (asks k s) (map (Pair h) (wanted s start ws)) ds"
  using assms(2-10)
proof (induction ws arbitrary: s p bs)
  case Nil
  then show ?case by (subst diff_loop.simps) (simp add: wanted_def took_Nil)
next
  case (Cons w ws)
  have ok: "mem_ok L W P s" using Cons.prems(1) by (simp add: stale_def)
  then have host: "host_ok s" by (simp add: mem_ok_def)
  then have hm: "h < MAX_HOST_NUM" using Cons.prems(6) by (auto simp: host_ok_def)
  have wP: "w \<in> set (P k h)" using Cons.prems(3) by simp
  obtain i where i: "i < length (ivals s)" "w_interval (wns s ! w) = Some i" "notice_ts s w = i_timestamp (ivals s ! i)"
    and wl: "w < length (wns s)" and ts: "ts_ok (notice_ts s w)"
    using notice_ts_ok [OF ok assms(1) hm wP] by auto
  let ?q = "w_nextInPage (wns s ! w)"
  have p: "p = Some w" "chain (nextInPage s) ?q ws" using Cons.prems(2) nextInPage_eq [of s w] wl by auto
  have get: "wn_get s (Some w) = Some (wns s ! w)" "iv_get s (Some i) = Some (ivals s ! i)"
    using wl i by (simp_all add: wn_get_def iv_get_def)
  show ?case
  proof (cases "w_diffAddress (wns s ! w) = None")
    case False
    then have "wanted s start (w # ws) = []" by (auto simp: wanted_def)
    then show ?thesis
      using False p get Cons.prems(1) by (subst diff_loop.simps) (auto simp: took_Nil)
  next
    case fresh: True
    have after: "(if start = None then Some 1 else do { st \<leftarrow> iv_get s start;
        isAfterInterval (hostnum s) (Some (i_timestamp (ivals s ! i))) (Some (i_timestamp st)) }) =
      Some (if newer s start w then 1 else 0)"
    proof (cases start)
      case (Some j)
      then have j: "j < length (ivals s)" using Cons.prems(8) by simp
      then have "ts_ok (i_timestamp (ivals s ! j))" using ok by (simp add: mem_ok_def)
      then show ?thesis
        using Some j ts i(3) host by (simp add: iv_get_def isAfterInterval_eq newer_def ts_ok_def host_ok_def)
    qed (simp add: newer_def)
    show ?thesis
    proof (cases "newer s start w")
      case False
      have wt: "wanted s start (w # ws) = wanted s start ws" using fresh False by (simp add: wanted_def)
      have "diff_loop (int h) (int k) start p e s = diff_loop (int h) (int k) start ?q e s" for e
        using p fresh get i after False by (subst diff_loop.simps) simp
      with Cons.IH [of bs s ?q] Cons.prems p(2) show ?thesis unfolding wt by simp
    next
      case True
      have wt: "wanted s start (w # ws) = w # wanted s start ws" using fresh True by (simp add: wanted_def)
      have m: "answers k s (h, w) (msg w) (d w)" using Cons.prems(9) wt by simp
      obtain u x where u: "\<And>e. request_diff (int h) (int k) (notice_ts s w) (deliver h (msg w) # e) s = Some (Returned (u, e))"
        and u': "stale L W P k (patch bs (d w)) u" "took k d [w] s u" "sent (wire s) (wire u) [x]" "asks k s (h, w) x"
        using one_diff [where d = d, OF Cons.prems(1) assms(1) Cons.prems(6,7) wP fresh Cons.prems(5) m] by blast
      note r = took_reads [OF u'(2)]
      have "w \<notin> set ws" using Cons.prems(4) by simp
      then have wu: "wanted u start ws = wanted s start ws" by (intro took_wanted [OF u'(2)]) simp
      have fields: "ivals u = ivals s" "hostnum u = hostnum s" "myhostid u = myhostid s"
        "w_nextInPage (wns u ! w) = ?q" "wn_get u (Some w) = Some (wns u ! w)"
        using u'(2) wl by (simp_all add: took_def wn_get_def)
      have "diff_loop (int h) (int k) start p (deliver h (msg w) # e) s = diff_loop (int h) (int k) start ?q e u" for e
        using p fresh get i after True u [of e] fields(4,5) by (subst diff_loop.simps) simp
      moreover obtain t ds where "diff_loop (int h) (int k) start ?q (map (\<lambda>w. deliver h (msg w)) (wanted s start ws) @ env) u =
          Some (Returned (t, env))"
        "stale L W P k (foldl patch (patch bs (d w)) (map d (wanted s start ws))) t"
        "took k d (wanted s start ws) u t" "sent (wire u) (wire t) ds"
        "list_all2 (asks k s) (map (Pair h) (wanted s start ws)) ds"
        using Cons.IH [OF u'(1), of ?q] p(2) Cons.prems wt unfolding wu r fields by auto
      ultimately show ?thesis unfolding wt
        using sent_trans [OF u'(3)] took_trans [OF u'(2)] u'(4)
        by (intro exI [of _ t] exI [of _ "[x] @ ds"]) auto
    qed
  qed
qed

section \<open>The diffs of all hosts\<close>

lemma notices_disjoint:
  assumes "mem_ok L W P s" "k < MAX_PAGE_NUM" "h < MAX_HOST_NUM" "g < MAX_HOST_NUM" "h \<noteq> g"
  shows "set (P k h) \<inter> set (P k g) = {}"
proof -
  note links = mem_ok_simps(2) [OF assms(1)]
  have dis: "set (L h) \<inter> set (L g) = {}" using links assms by (simp add: links_ok_def interval_lists_def)
  have "False" if "w \<in> set (P k h)" "w \<in> set (P k g)" for w
    using links_page_alloc(3) [OF links assms(2,3) that(1)] links_page_alloc(3) [OF links assms(2,4) that(2)] dis by auto
  then show ?thesis by blast
qed

lemma wanted_subset: "set (wanted s start ws) \<subseteq> set ws"
  by (auto simp: wanted_def dest: set_takeWhileD)

abbreviation deliveries :: "(nat \<Rightarrow> mimsg_t) \<Rightarrow> (nat \<times> nat) list \<Rightarrow> arrivals list" where
  "deliveries msg xs \<equiv> map (\<lambda>x. deliver (fst x) (msg (snd x))) xs"

lemma diff_hosts_ok:
  assumes "k < MAX_PAGE_NUM" "stale L W P k bs s" "\<forall>i\<in>set is. int i < hostnum s" "distinct is"
    "\<forall>i\<in>set is. inj_on (notice_ts s) (set (P k i))"
    "case p_startInterval (pageArray s k) of None \<Rightarrow> True | Some j \<Rightarrow> j < length (ivals s)"
    "\<forall>x\<in>set (missing_diffs P k s is). answers k s x (msg (snd x)) (d (snd x))"
  shows "\<exists>t ds. diff_hosts is (int k) (p_startInterval (pageArray s k)) (deliveries msg (missing_diffs P k s is) @ env) s =
      Some (Returned (t, env)) \<and> stale L W P k (foldl patch bs (map (\<lambda>x. d (snd x)) (missing_diffs P k s is))) t \<and>
    took k d (map snd (missing_diffs P k s is)) s t \<and> sent (wire s) (wire t) ds \<and>
    list_all2 (asks k s) (missing_diffs P k s is) ds"
  using assms(2-7)
proof (induction "is" arbitrary: s bs)
  case Nil
  then show ?case by (auto simp: missing_diffs_def took_Nil intro: sent.sent_Nil)
next
  case (Cons i "is")
  let ?start = "p_startInterval (pageArray s k)"
  show ?case
  proof (cases "int i = myhostid s")
    case True
    then have "missing_diffs P k s (i # is) = missing_diffs P k s is" by (simp add: missing_diffs_def)
    with Cons.IH [OF Cons.prems(1)] Cons.prems True show ?thesis by simp
  next
    case False
    let ?w = "wanted s ?start (P k i)"
    have mi: "missing_diffs P k s (i # is) = map (Pair i) ?w @ missing_diffs P k s is"
      using False by (simp add: missing_diffs_def)
    have ok: "mem_ok L W P s" using Cons.prems(1) by (simp add: stale_def)
    then have host: "host_ok s" by (simp add: mem_ok_def)
    have hosts: "j < MAX_HOST_NUM" if "j \<in> set (i # is)" for j using Cons.prems(2) that host by (force simp: host_ok_def)
    have c: "chain (nextInPage s) (p_notices (pageArray s k) i) (P k i)"
      using links_chain_page [OF mem_ok_simps(2) [OF ok] assms(1) hosts [of i]] by simp
    have ans: "\<forall>w\<in>set ?w. answers k s (i, w) (msg w) (d w)" using Cons.prems(6) mi by (simp add: ball_Un)
    obtain t ds where t: "diff_loop (int i) (int k) ?start (p_notices (pageArray s k) i)
        (map (\<lambda>w. deliver i (msg w)) ?w @ deliveries msg (missing_diffs P k s is) @ env) s =
        Some (Returned (t, deliveries msg (missing_diffs P k s is) @ env))"
      "stale L W P k (foldl patch bs (map d ?w)) t" "took k d ?w s t" "sent (wire s) (wire t) ds"
      "list_all2 (asks k s) (map (Pair i) ?w) ds"
      using diff_loop_ok [where msg = msg and d = d and start = ?start, OF assms(1) Cons.prems(1) c subset_refl chain_distinct [OF c] _ _ False Cons.prems(5) ans]
        Cons.prems(2,4) by (meson list.set_intros(1))
    note r = took_reads [OF t(3)]
    have fields: "pageArray t = pageArray s" "ivals t = ivals s" "hostnum t = hostnum s" "myhostid t = myhostid s"
      using t(3) by (simp_all add: took_def)
    have "wanted t ?start (P k j) = wanted s ?start (P k j)" if "j \<in> set is" for j
    proof (rule took_wanted [OF t(3)])
      have "i \<noteq> j" using Cons.prems(3) that by auto
      then show "set (P k j) \<inter> set ?w = {}"
        using notices_disjoint [OF ok assms(1) hosts hosts, of i j] that wanted_subset by fastforce
    qed
    then have miss: "missing_diffs P k t is = missing_diffs P k s is"
      by (simp add: missing_diffs_def fields cong: map_cong if_cong)
    obtain u es where u: "diff_hosts is (int k) ?start (deliveries msg (missing_diffs P k s is) @ env) t = Some (Returned (u, env))"
      "stale L W P k (foldl patch (foldl patch bs (map d ?w)) (map (\<lambda>x. d (snd x)) (missing_diffs P k s is))) u"
      "took k d (map snd (missing_diffs P k s is)) t u" "sent (wire t) (wire u) es"
      "list_all2 (asks k s) (missing_diffs P k s is) es"
      using Cons.IH [OF t(2)] Cons.prems mi unfolding miss r fields by auto
    have "diff_hosts (i # is) (int k) ?start (deliveries msg (missing_diffs P k s (i # is)) @ env) s = Some (Returned (u, env))"
      using t(1) u(1) False hosts [of i] mi by (simp add: aidx_in_range comp_def)
    then show ?thesis
      using u(2,3) took_trans [OF t(3)] sent_trans [OF t(4) u(4)] list_all2_appendI [OF t(5) u(5)] mi
      by (intro exI [of _ u] exI [of _ "ds @ es"]) (simp add: comp_def)
  qed
qed

text \<open>After that nothing is missing any more.\<close>

lemma wanted_done:
  assumes "took k d ws s t" "set (wanted s start vs) \<subseteq> set ws"
  shows "wanted t start vs = []"
proof -
  have "takeWhile (\<lambda>w. w_diffAddress (wns t ! w) = None) vs = takeWhile (\<lambda>w. w_diffAddress (wns t ! w) = None)
      (takeWhile (\<lambda>w. w_diffAddress (wns s ! w) = None) vs)"
    using assms(1) by (induction vs) (auto simp: took_def split: if_splits)
  moreover have "\<not> newer s start w" if "w \<in> set (takeWhile (\<lambda>w. w_diffAddress (wns s ! w) = None) vs)"
    "w_diffAddress (wns t ! w) = None" for w
  proof
    assume "newer s start w"
    then have "w \<in> set ws" using that(1) assms(2) by (auto simp: wanted_def)
    then show False using assms(1) that(2) by (simp add: took_def)
  qed
  ultimately show ?thesis
    using took_reads(5) [OF assms(1)] by (auto simp: wanted_def filter_empty_conv dest: set_takeWhileD)
qed

lemma readable_again:
  assumes "stale L W P k bs s" "k < MAX_PAGE_NUM"
  shows "mem_ok L W P (make_readable (int k) s)" "p_state (pageArray (make_readable (int k) s) k) = RDONLY"
    "vm (make_readable (int k) s) (page_addr k) = Some (PROT_READ, bs)" "wire (make_readable (int k) s) = wire s"
    "wns (make_readable (int k) s) = wns s" "ivals (make_readable (int k) s) = ivals s"
    "hostnum (make_readable (int k) s) = hostnum s" "myhostid (make_readable (int k) s) = myhostid s"
    "p_startInterval (pageArray (make_readable (int k) s) k) = p_startInterval (pageArray s k)"
proof -
  have s: "mem_ok L W P s" "p_state (pageArray s k) = INVALID" "vm s (page_addr k) = Some (PROT_NONE, bs)"
    using assms(1) by (simp_all add: stale_def)
  have pk: "p_address (pageArray s k) = page_addr k" "p_twinPage (pageArray s k) = None" "length bs = PAGESIZE"
    "list_all (has_diff s) (P k (me s))"
    using mem_ok_simps(3) [OF s(1) assms(2)] s(2,3) by (auto simp: page_ok_def mapped_def Let_def)
  let ?r = "make_readable (int k) s"
  have r: "?r = vm_mprotect (page_addr k) PROT_READ (page_upd k (\<lambda>p. p\<lparr>p_state := RDONLY\<rparr>) s)"
    by (rule make_readable_eq [OF pk(1)])
  show v: "vm ?r (page_addr k) = Some (PROT_READ, bs)" "p_state (pageArray ?r k) = RDONLY" "wire ?r = wire s"
    "wns ?r = wns s" "ivals ?r = ivals s" "hostnum ?r = hostnum s" "myhostid ?r = myhostid s"
    "p_startInterval (pageArray ?r k) = p_startInterval (pageArray s k)"
    using s(3) by (simp_all add: r vm_mprotect_def page_upd_def)
  show "mem_ok L W P ?r"
  proof (rule mem_ok_frame_own [OF s(1) assms(2)])
    show "same_links s ?r" by (simp add: same_links_def r vm_mprotect_def page_upd_def split: option.split)
    show "pages_frame k s ?r" using s(3) by (simp add: pages_frame_def r vm_mprotect_def page_upd_def)
    have "has_diff ?r = has_diff s" "me ?r = me s" "p_address (pageArray ?r k) = page_addr k" "p_twinPage (pageArray ?r k) = None"
      using pk by (simp_all add: has_diff_def fun_eq_iff me_def v) (simp_all add: r vm_mprotect_def page_upd_def s(3))
    then show "page_ok P ?r k" using pk(3,4) v by (simp add: page_ok_def mapped_def)
    show "w_diffAddress (wns ?r ! w) = w_diffAddress (wns s ! w)" for w by (simp add: v)
  qed
qed

section \<open>Properties\<close>

text \<open>C4: A read fault on an invalid page, from the fault to its end. The handler asks the writers, one after
  the other, for the diff of each write notice that is later than the copy of the page and precedes all
  diffs at hand; if the writers answer these requests, each while the program waits for it, the
  handler returns, the page is readable and holds the old bytes with all the diffs added, each notice keeps
  its diff, and no diff is missing any more. The invariant is kept.\<close>

theorem invalid_fault:
  assumes "mem_ok L W P s" "quiet s" "receptive s" "k < MAX_PAGE_NUM" "p_state (pageArray s k) = INVALID" "off < PAGESIZE"
    and "vm s (page_addr k) = Some (PROT_NONE, bs)"
    and "case p_startInterval (pageArray s k) of None \<Rightarrow> True | Some j \<Rightarrow> j < length (ivals s)"
    and "\<forall>i<nat (hostnum s). inj_on (notice_ts s) (set (P k i))"
    and "xs = missing_diffs P k s [0..<nat (hostnum s)]"
    and "\<forall>x\<in>set xs. answers k s x (msg (snd x)) (d (snd x))"
  shows "\<exists>r ds. segv_handler (page_addr k + int off) (deliveries msg xs) s = Some (Returned (Resumed r [])) \<and>
    sent (wire s) (wire r) ds \<and> list_all2 (asks k s) xs ds \<and> p_state (pageArray r k) = RDONLY \<and>
    vm r (page_addr k) = Some (PROT_READ, foldl patch bs (map (\<lambda>x. d (snd x)) xs)) \<and>
    (\<forall>x\<in>set xs. w_diffAddress (wns r ! snd x) = Some (d (snd x))) \<and>
    missing_diffs P k r [0..<nat (hostnum s)] = [] \<and> mem_ok L W P r"
proof -
  let ?is = "[0..<nat (hostnum s)]" and ?start = "p_startInterval (pageArray s k)"
  have hn: "\<forall>i\<in>set ?is. int i < hostnum s" by auto
  have st: "stale L W P k bs s" using assms(1-3,5,7) by (simp add: stale_def)
  obtain t ds where t: "diff_hosts ?is (int k) ?start (deliveries msg xs) s = Some (Returned (t, []))"
    "stale L W P k (foldl patch bs (map (\<lambda>x. d (snd x)) xs)) t" "took k d (map snd xs) s t" "sent (wire s) (wire t) ds"
    "list_all2 (asks k s) xs ds"
    using diff_hosts_ok [where msg = msg and d = d and env = "[]", OF assms(4) st hn distinct_upt _ assms(8)] assms(9,11)
    unfolding assms(10) by (auto simp: atLeast0LessThan)
  let ?r = "make_readable (int k) t"
  note r = readable_again [OF t(2) assms(4)]
  have "fetchDiff (int k) (deliveries msg xs) s = Some (Returned (0, t, []))"
    using t(1) assms(4,5) by (simp add: fetchDiff_def)
  then have "segv_handler (page_addr k + int off) (deliveries msg xs) s = Some (Returned (Resumed ?r []))"
    using assms(4,5) fault_page_eq [OF assms(4,6)] by (simp add: segv_handler_def Let_def)
  moreover have "missing_diffs P k ?r ?is = []"
  proof -
    have "newer ?r = newer t"
      using r(6,7) notice_ts_cong [OF r(6,5)] by (simp add: newer_def fun_eq_iff split: option.split)
    then have "wanted ?r ?start vs = wanted t ?start vs" for vs using r(5) by (simp add: wanted_def)
    moreover have "set (wanted s ?start (P k i)) \<subseteq> set (map snd xs)" if "i < nat (hostnum s)" "int i \<noteq> myhostid s" for i
      using that unfolding assms(10) missing_diffs_def by force
    ultimately have "wanted ?r ?start (P k i) = []" if "i < nat (hostnum s)" "int i \<noteq> myhostid s" for i
      using wanted_done [OF t(3)] that by simp
    then show ?thesis using t(3) r by (auto simp: missing_diffs_def took_def)
  qed
  moreover have "\<forall>x\<in>set xs. w_diffAddress (wns ?r ! snd x) = Some (d (snd x))" using t(3) r(5) by (auto simp: took_def)
  ultimately show ?thesis using t(4,5) r(1-4) by auto
qed

text \<open>Host 0 with the page of \<^const>\<open>sample\<close>, after it has learned that host 1 has written to the page.\<close>

definition late_packet :: wnPacket_t where
  "late_packet = \<lparr>k_hostid = 1, k_timestamp = zero_ts[1 := 1], k_wnCount = 1,
     k_wnArray = 0 # replicate (MAX_WN_NUM - 1) (- 1)\<rparr>"

lemma boot_pages:
  assumes "0 \<le> h" "h < hn" "hn \<le> int MAX_HOST_NUM" "k < MAX_PAGE_NUM"
  shows "p_startInterval (pageArray (boot h hn) k) = None"
  using assms
  by (simp add: boot_def initnet_def initsyn_def initmem_def aidx_in_range Let_def set_intervalList_def empty_page_def)

lemma sample_start: "p_startInterval (pageArray sample 0) = None" "receptive sample"
proof -
  have b: "alloc_ok (boot 0 3)" "pagenum (boot 0 3) = 0" "globalAddress (boot 0 3) = 0"
    using boot_ok [of 0 3] by (simp_all add: MAX_HOST_NUM_def alloc_ok_def)
  obtain r t n where t: "mi_alloc 4096 (boot 0 3) = Some (r, t)" "4096 \<le> int n * int PAGESIZE" "allocated n (boot 0 3) t"
    using mi_alloc_ok [OF boot_sample b(1), of 4096] b by (auto simp: PAGESIZE_def MAX_MEM_SIZE_def)
  then have s: "sample = t" "0 < n" by (simp add: sample_def, cases n, simp_all)
  then obtain f v where fv: "sample = (boot 0 3)\<lparr>pageArray := f, vm := v, pagenum := int n, globalAddress := int n * int PAGESIZE\<rparr>"
    "f 0 = new_page (boot 0 3) 0"
    using t(3) b by (auto simp: allocated_def elim!: allE [of _ 0])
  show "p_startInterval (pageArray sample 0) = None"
    unfolding fv(1) using fv(2) boot_pages [of 0 3 0] by (simp add: new_page_def size_consts)
  show "receptive sample"
    unfolding fv(1) using boot_fields(6,7) [of 0 3] boot_ok(4) [of 0 3]
    by (simp add: receptive_def recv_ok_def in_hosts_def MAX_HOST_NUM_def)
qed

lemma behind_run:
  "\<exists>t. incorporateWnPacket (Some late_packet) sample = Some (0, t) \<and> length (wns t) = 1 \<and>
    w_diffAddress (wns t ! 0) = None \<and> p_startInterval (pageArray t 0) = None \<and> quiet t \<and> receptive t"
proof -
  have links: "links_ok first_L (\<lambda>_. []) (\<lambda>_ _. []) sample" by (rule mem_ok_simps(2) [OF sample_ok(1)])
  have n: "(1::nat) < MAX_HOST_NUM" "(0::nat) < MAX_PAGE_NUM" "aidx 1 MAX_HOST_NUM = Some 1" "aidx 0 MAX_PAGE_NUM = Some 0"
    by (simp_all add: size_consts aidx_def)
  have none: "pr_intervalList (procArray sample 1) = None" "p_notices (pageArray sample 0) 1 = None"
    using links_chain_intervals [OF links n(1)] links_chain_page [OF links n(2,1)] by simp_all
  have addr: "p_address (pageArray sample 0) = page_addr 0"
    using mem_ok_simps(3) [OF sample_ok(1) n(2)] sample_ok(3) by (simp add: page_ok_def Let_def)
  define iv where "iv = empty_interval\<lparr>i_timestamp := zero_ts[1 := 1]\<rparr>"
  define u where "u = set_intervalList 1 (Some 1) (sample\<lparr>ivals := ivals sample @ [iv]\<rparr>)"
  have push: "push_interval 1 iv sample = Some (1, u)"
    using none(1) sample_ok(8) by (simp add: push_interval_def u_def iv_def empty_interval_def)
  have u: "iv_get u (Some 1) = Some iv" "pageArray u = pageArray sample" "wns u = []" "vm u = vm sample"
    "ivals u = ivals sample @ [iv]"
    using sample_ok(8,9) by (simp_all add: u_def iv_get_def set_intervalList_def)
  define v where "v = vm_mprotect (page_addr 0) PROT_NONE (page_upd 0 (\<lambda>p. p\<lparr>p_state := INVALID\<rparr>) u)"
  have inv: "invalidate_page 0 u = Some v"
    using sample_ok(3) addr u(2) by (simp add: invalidate_page_def v_def Let_def)
  have v: "wns v = []" "p_notices (pageArray v 0) 1 = None" "p_startInterval (pageArray v 0) = None"
    "ivals v = ivals sample @ [iv]"
    using u none(2) sample_start(1) by (simp_all add: v_def vm_mprotect_def page_upd_def split: option.split)
  have "\<exists>t. incorporate_notices [0] 1 1 None u = Some t \<and> length (wns t) = 1 \<and>
    w_diffAddress (wns t ! 0) = None \<and> p_startInterval (pageArray t 0) = None"
    using v u(1) n(4) inv sample_ok(8)
    by (simp add: incorporate_notices.simps(2) chain_find.simps iv_def empty_interval_def iv_upd_def page_upd_def Let_def)
  moreover have "incorporateWnPacket (Some late_packet) sample = Option.bind (incorporate_notices [0] 1 1 None u) (\<lambda>s. Some (0, s))"
    using n(3) none(1) push by (simp add: incorporateWnPacket_def chain_find.simps late_packet_def iv_def size_consts)
  ultimately obtain t where t: "incorporateWnPacket (Some late_packet) sample = Some (0, t)" "length (wns t) = 1"
    "w_diffAddress (wns t ! 0) = None" "p_startInterval (pageArray t 0) = None"
    by auto
  have "heap_frame sample t" by (rule heap_frame_packet [OF t(1)])
  then have "quiet t" "receptive t"
    using heap_frame_quiet sample_ok(11) sample_start(2) recv_frame_receptive [OF calm_recv [OF recv_frame_heap]] by simp_all
  with t show ?thesis by blast
qed

lemma late_packet_ok: "packet_ok sample late_packet" "packet_pages late_packet = [0]"
proof -
  show "packet_pages late_packet = [0]" by (simp add: packet_pages_def late_packet_def)
  then show "packet_ok sample late_packet"
    by (simp add: packet_ok_def sample_ok(5,6))
      (simp add: late_packet_def ts_ok_def zero_ts_def page_index_def list_all_length nth_update in32_def size_consts)
qed

lemma behind_state:
  "\<exists>s L W P. incorporateWnPacket (Some late_packet) sample = Some (0, s) \<and> mem_ok L W P s \<and> quiet s \<and> receptive s \<and>
    p_state (pageArray s 0) = INVALID \<and> vm s (page_addr 0) = Some (PROT_NONE, replicate PAGESIZE 0) \<and>
    p_startInterval (pageArray s 0) = None \<and> P 0 1 = [0] \<and> P 0 2 = [] \<and> P 0 0 = [] \<and> hostnum s = 3 \<and> myhostid s = 0 \<and>
    w_diffAddress (wns s ! 0) = None"
proof -
  have n: "(0::nat) < MAX_HOST_NUM" "(1::nat) < MAX_HOST_NUM" "(2::nat) < MAX_HOST_NUM" "(0::nat) < MAX_PAGE_NUM"
    by (simp_all add: size_consts)
  obtain s where s: "incorporateWnPacket (Some late_packet) sample = Some (0, s)" "length (wns s) = 1"
    "w_diffAddress (wns s ! 0) = None" "p_startInterval (pageArray s 0) = None" "quiet s" "receptive s"
    using behind_run by blast
  obtain L W P where ok: "mem_ok L W P s"
    "packet_effect late_packet (host_log first_L (\<lambda>_. []) sample) sample (host_log L W s) s"
    using incorporateWnPacket_ok [OF sample_ok(1) late_packet_ok(1)] s(1) by auto
  have lg: "host_log L W s 1 = [(zero_ts[1 := 1], [0])]" "host_log L W s 2 = []" "host_log L W s 0 = [(zero_ts, [])]"
    "p_state (pageArray s 0) = INVALID" "page_bytes s 0 = Some (replicate PAGESIZE 0)" "hostnum s = 3" "myhostid s = 0"
    using ok(2) n late_packet_ok(2) sample_ok(3,5,6,8,10)
    by (simp_all add: packet_effect_def late_packet_def merge_log_def invalidated_def known_pages_def host_log_def
        entry_of_def page_bytes_def empty_interval_def)
  have pg: "set (P 0 h) = {w. (\<exists>i\<in>set (L h). w \<in> set (W i)) \<and> w_pageIndex (wns s ! w) = 0}" if "h < MAX_HOST_NUM" for h
    using mem_ok_simps(2) [OF ok(1)] n(4) that by (simp add: links_ok_def page_lists_def)
  have "L 2 = []" using lg(2) by (simp add: host_log_def)
  moreover obtain i where "L 0 = [i]" "W i = []" using lg(3) by (auto simp: host_log_def entry_of_def)
  ultimately have "P 0 2 = []" "P 0 0 = []" using pg [OF n(3)] pg [OF n(1)] by simp_all
  moreover have "P 0 1 = [0]"
  proof -
    obtain v where v: "find (\<lambda>w. notice_ts s w = zero_ts[1 := 1]) (P 0 1) = Some v"
      using logged_notice [OF ok(1) n(2), of "zero_ts[1 := 1]" "[0]" 0] lg(1) n(4) by (auto simp: page_index_def)
    then have "v \<in> set (P 0 1)" by (auto simp: find_Some_iff)
    moreover have "w = 0" if "w \<in> set (P 0 1)" for w
      using notice_ts_ok(1) [OF ok(1) n(4,2) that] s(2) by simp
    moreover have "distinct (P 0 1)"
      using chain_distinct [OF links_chain_page [OF mem_ok_simps(2) [OF ok(1)] n(4,2)]] .
    ultimately show ?thesis by (cases "P 0 1"; cases "tl (P 0 1)") auto
  qed
  moreover have "vm s (page_addr 0) = Some (PROT_NONE, replicate PAGESIZE 0)"
    using mem_ok_simps(3) [OF ok(1) n(4)] lg(4,5) by (auto simp: page_ok_def mapped_def page_bytes_def Let_def)
  ultimately show ?thesis using s ok(1) lg(4,6,7) by blast
qed

theorem invalid_fault_witness:
  "\<exists>s m r. incorporateWnPacket (Some late_packet) sample = Some (0, s) \<and> p_state (pageArray s 0) = INVALID \<and>
    segv_handler (page_addr 0 + 7) [deliver 1 m] s = Some (Returned (Resumed r [])) \<and>
    vm r (page_addr 0) = Some (PROT_READ, patch (replicate PAGESIZE 0) (replicate PAGESIZE 5))"
proof -
  obtain s L W P where s: "incorporateWnPacket (Some late_packet) sample = Some (0, s)" "mem_ok L W P s" "quiet s" "receptive s"
    "p_state (pageArray s 0) = INVALID" "vm s (page_addr 0) = Some (PROT_NONE, replicate PAGESIZE 0)"
    "p_startInterval (pageArray s 0) = None" "P 0 1 = [0]" "P 0 2 = []" "P 0 0 = []" "hostnum s = 3" "myhostid s = 0"
    "w_diffAddress (wns s ! 0) = None"
    using behind_state by blast
  let ?d = "replicate PAGESIZE (5::byte)"
  let ?m = "packed 1 0 GRANT_DIFF no_ts (ints_bytes (notice_ts s 0) @ int_bytes (int 0) @ ?d)"
  have n: "[0..<3::nat] = [0, 1, 2]" by (simp add: upt_rec)
  have xs: "[(1, 0)] = missing_diffs P 0 s [0..<nat (hostnum s)]"
    using s(7-13) by (simp add: n missing_diffs_def wanted_def newer_def)
  have "\<forall>i<nat (hostnum s). inj_on (notice_ts s) (set (P 0 i))"
    using s(8-11) by (auto simp: less_Suc_eq numeral_3_eq_3 numeral_2_eq_2)
  moreover have "\<forall>x\<in>set [(1, 0)]. answers 0 s x ((\<lambda>_. ?m) (snd x)) ((\<lambda>_. ?d) (snd x))"
    by (simp add: answers_def packed_def)
  ultimately have "\<exists>r ds. segv_handler (page_addr 0 + int 7) (deliveries (\<lambda>_. ?m) [(1, 0)]) s = Some (Returned (Resumed r [])) \<and>
      vm r (page_addr 0) = Some (PROT_READ, foldl patch (replicate PAGESIZE 0) (map (\<lambda>x. ?d) [(1, 0)]))"
    using invalid_fault [OF s(2-4) _ s(5) _ s(6) _ _ xs, of 7 "\<lambda>_. ?m" "\<lambda>_. ?d"] s(7) by (auto simp: size_consts)
  then show ?thesis using s(1,5) by auto
qed

end
