(* ===== verification/Meeting.thy ===== *)
theory Meeting
  imports Startup
begin

text \<open>
  The barrier as a program sees it (\<open>mi_barrier\<close> of \<open>src/syn.c\<close>): a host reports its intervals, waits
  while the answers of host 0 come in one by one, and returns at \<open>EXIT_BARRIER\<close>. The shape of what host 0
  sends (which packets, in which messages, with which address) is worked out here, and it meets the
  handlers of the waiting host.
\<close>

section \<open>Messages of host 0 while a host waits\<close>

text \<open>The waiting host, with the abstract log \<open>lg\<close>, against its state \<open>s\<close> when it began to wait.\<close>

definition waits :: "mem_st \<Rightarrow> ptr \<Rightarrow> (nat \<Rightarrow> log_entry list) \<Rightarrow> mem_st \<Rightarrow> bool" where
  "waits s now lg v \<longleftrightarrow> (\<exists>L W P. mem_ok L W P v \<and> (\<forall>g<MAX_HOST_NUM. host_log L W v g = lg g)) \<and> intervalNow v = now \<and>
     page_bytes v = page_bytes s \<and> hostnum v = hostnum s \<and> myhostid v = myhostid s \<and> wire v = wire s \<and>
     waitFlag v = waitFlag s \<and> quiet v"

lemma waitsI:
  assumes "mem_ok L W P v" "\<And>g. g < MAX_HOST_NUM \<Longrightarrow> host_log L W v g = lg g" "intervalNow v = now"
    and "page_bytes v = page_bytes s" "hostnum v = hostnum s" "myhostid v = myhostid s" "wire v = wire s"
    "waitFlag v = waitFlag s" "quiet v"
  shows "waits s now lg v"
  unfolding waits_def using assms by blast

lemma waits_idle:
  assumes "waits s now lg u" "idle_frame u v"
  shows "waits s now lg v"
proof -
  note f = idle_frame_fields [OF assms(2)]
  have "page_bytes v = page_bytes u" by (rule page_bytes_vm) (use f(1) in \<open>simp add: same_mem_def\<close>)
  then show ?thesis
    using assms(1) f(2,3,5) mem_ok_same_mem [OF f(1)] host_log_same_mem [OF f(1)] f(1)
    unfolding waits_def by (simp add: same_mem_def)
qed

lemma waits_merge:
  assumes "waits s now lg u" "\<forall>pk\<in>set pks. packet_ok s pk"
  shows "\<exists>t. incorporate_all pks u = Some t \<and> waits s now (merge_packets pks lg) t"
proof -
  obtain L W P where u: "mem_ok L W P u" "\<forall>g<MAX_HOST_NUM. host_log L W u g = lg g"
    using assms(1) by (auto simp: waits_def)
  have "\<forall>pk\<in>set pks. packet_ok u pk" using assms by (simp add: waits_def packet_ok_def)
  from incorporate_all_ok [OF u(1) this] obtain t L' W' P' where t: "incorporate_all pks u = Some t" "mem_ok L' W' P' t"
    "\<forall>g<MAX_HOST_NUM. host_log L' W' t g = merge_packets pks (host_log L W u) g"
    "page_bytes t = page_bytes u" "hostnum t = hostnum u" "myhostid t = myhostid u" "intervalNow t = intervalNow u"
    by blast
  note h = heap_frame_fields [OF heap_frame_all [OF t(1)]] heap_frame_quiet [OF heap_frame_all [OF t(1)]]
  have "host_log L' W' t g = merge_packets pks lg g" if "g < MAX_HOST_NUM" for g
    using t(3) u(2) that by (simp add: merge_packets_def)
  then have "waits s now (merge_packets pks lg) t"
    using assms(1) t(2,4-7) h unfolding waits_def by auto
  then show ?thesis using t(1) by blast
qed

text \<open>One message, and the wait goes on.\<close>

lemma await_message:
  assumes "receptive u" "myhostid u \<noteq> 0" "m_from m = 0" "waitFlag u \<noteq> 0"
    and "\<And>v. idle_frame u v \<Longrightarrow> \<exists>t. dispatchMsg (Some m) v = Some t \<and> waits s now lg t"
  shows "\<exists>t. (\<forall>env. await waitFlag (deliver 0 m # env) u = await waitFlag env t) \<and> receptive t \<and> waits s now lg t"
proof -
  have "in_hosts (m_from m)" using assms(3) by (simp add: in_hosts_def)
  then obtain v where v: "idle_frame u v" "\<And>t. dispatchMsg (Some m) v = Some t \<Longrightarrow>
      sigio_handler (deliver 0 m) u = Some (settled t) \<and> receptive (settled t)"
    using sigio_deliver [OF assms(1), of 0 m] assms(2) by auto
  obtain t where t: "dispatchMsg (Some m) v = Some t" "waits s now lg t" using assms(5) [OF v(1)] by blast
  have "await waitFlag (deliver 0 m # env) u = await waitFlag env (settled t)" for env
    using v(2) [OF t(1)] assms(4) by simp
  then show ?thesis using v(2) [OF t(1)] waits_idle [OF t(2) idle_settled] by blast
qed

abbreviation answers_of :: "datagram list \<Rightarrow> arrivals list" where
  "answers_of \<equiv> map (\<lambda>(_, _, m). deliver 0 m)"

lemma await_more:
  assumes "list_all2 (carries 0 GRANT_EXIT_BARRIER_INFO) ds mls" "\<forall>m\<in>set mls. fst (snd m) = no_ts"
    and "waits s now lg u" "receptive u" "myhostid s \<noteq> 0" "waitFlag s \<noteq> 0"
    and "\<forall>pk\<in>set (concat (map (snd \<circ> snd) mls)). packet_ok s pk"
  shows "\<exists>t. (\<forall>env. await waitFlag (answers_of ds @ env) u = await waitFlag env t) \<and> receptive t \<and>
    waits s now (merge_packets (concat (map (snd \<circ> snd) mls)) lg) t"
  using assms(1-4,7)
proof (induction arbitrary: u lg rule: list_all2_induct)
  case Nil
  have "merge_packets [] lg = lg" by (simp add: fun_eq_iff)
  then show ?case using Nil by (intro exI [of _ u]) simp
next
  case (Cons d ds ml mls)
  obtain h port m to ts pks where dm: "d = (h, port, m)" "ml = (to, ts, pks)" by (cases d; cases ml) auto
  have m: "m_timestamp m ! 0 = - 1" "packets_of (m_data m) = Some pks" "m_from m = 0"
    "m_command m = cmd_code GRANT_EXIT_BARRIER_INFO"
    using Cons.hyps(1) Cons.prems(1) by (auto simp: carries_def dm no_ts_def simp del: cmd_code.simps)
  have pks: "\<forall>pk\<in>set pks. packet_ok s pk" using Cons.prems(4) by (simp add: dm)
  have run: "\<exists>t. dispatchMsg (Some m) v = Some t \<and> waits s now (merge_packets pks lg) t" if "idle_frame u v" for v
    using waits_merge [OF waits_idle [OF Cons.prems(2) that] pks] m(1,2)
    by (simp add: dispatch_cmd(13) [OF m(4)] handleGrantExitBarrierMsg_def)
  have u: "myhostid u \<noteq> 0" "waitFlag u \<noteq> 0" using Cons.prems(2) assms(5,6) by (simp_all add: waits_def)
  obtain t where t: "\<And>env. await waitFlag (deliver 0 m # env) u = await waitFlag env t" "receptive t"
    "waits s now (merge_packets pks lg) t"
    using await_message [OF Cons.prems(3) u(1) m(3) u(2) run] by blast
  have rest: "\<forall>m\<in>set mls. fst (snd m) = no_ts" "\<forall>pk\<in>set (concat (map (snd \<circ> snd) mls)). packet_ok s pk"
    using Cons.prems(1,4) by simp_all
  from Cons.IH [OF rest(1) t(3,2) rest(2)] obtain w where w:
    "\<And>env. await waitFlag (answers_of ds @ env) t = await waitFlag env w" "receptive w"
    "waits s now (merge_packets (concat (map (snd \<circ> snd) mls)) (merge_packets pks lg)) w"
    by blast
  have "merge_packets (concat (map (snd \<circ> snd) (ml # mls))) lg =
      merge_packets (concat (map (snd \<circ> snd) mls)) (merge_packets pks lg)"
    by (simp add: dm fun_eq_iff merge_packets_append)
  then have "waits s now (merge_packets (concat (map (snd \<circ> snd) (ml # mls))) lg) w" using w(3) by metis
  moreover have "await waitFlag (answers_of (d # ds) @ env) u = await waitFlag env w" for env
    using t(1) w(1) by (simp add: dm del: await.simps)
  ultimately show ?case using w(2) by blast
qed

text \<open>The first message also starts an interval.\<close>

definition opened :: "mem_st \<Rightarrow> timestamp \<Rightarrow> (nat \<Rightarrow> log_entry list) \<Rightarrow> nat \<Rightarrow> log_entry list" where
  "opened s ts lg g = (if g = me s then (ts, []) # lg g else lg g)"

lemma barrier_interval:
  assumes "waits s now lg u" "ts_ok ts"
  shows "\<exists>k t. pr_intervalList (procArray u (me s)) \<noteq> None \<and>
    push_interval (me s) (empty_interval\<lparr>i_timestamp := ts, i_isBarrier := 1\<rparr>) u = Some (k, t) \<and>
    waits s (Some (length (ivals u))) (opened s ts lg) (t\<lparr>intervalNow := Some k\<rparr>) \<and> k = length (ivals u)"
proof -
  obtain L W P where u: "mem_ok L W P u" "\<forall>g<MAX_HOST_NUM. host_log L W u g = lg g"
    using assms(1) by (auto simp: waits_def)
  let ?iv = "empty_interval\<lparr>i_timestamp := ts, i_isBarrier := 1\<rparr>"
  have me: "me u = me s" "me u < MAX_HOST_NUM"
    using assms(1) host_ok_me(1) [OF mem_ok_simps(1) [OF u(1)]] by (simp_all add: waits_def me_def)
  have iv: "i_notices ?iv = None" "i_prev ?iv = None" "ts_ok (i_timestamp ?iv)" "i_timestamp ?iv = ts"
    using assms(2) by (simp_all add: empty_interval_def)
  let ?n = "length (ivals u)" and ?L = "L(me u := length (ivals u) # L (me u))" and ?W = "W(length (ivals u) := [])"
  obtain t where t: "push_interval (me u) ?iv u = Some (?n, t)" "mem_ok ?L ?W P (t\<lparr>intervalNow := Some ?n\<rparr>)"
    "\<forall>g<MAX_HOST_NUM. host_log ?L ?W t g = (if g = me u then (ts, []) # host_log L W u g else host_log L W u g)"
    "hostnum t = hostnum u" "myhostid t = myhostid u" "vm t = vm u"
    using local_interval_ok [OF u(1) iv(1-3)] iv(4) by auto
  have fr: "t = u\<lparr>procArray := procArray t, ivals := ivals t\<rparr>" using push_interval_frame [OF t(1)] by blast
  have "wire t = wire u" "waitFlag t = waitFlag u" "quiet t = quiet u"
    using arg_cong [OF fr, of wire] arg_cong [OF fr, of waitFlag] arg_cong [OF fr, of quiet]
    by (simp_all add: quiet_def snd_ok_def)
  moreover have "page_bytes (t\<lparr>intervalNow := Some ?n\<rparr>) = page_bytes u" by (rule page_bytes_vm) (simp add: t(6))
  moreover have "host_log ?L ?W (t\<lparr>intervalNow := Some ?n\<rparr>) = host_log ?L ?W t"
    by (simp add: host_log_def entry_of_def fun_eq_iff)
  ultimately have "waits s (Some ?n) (opened s ts lg) (t\<lparr>intervalNow := Some ?n\<rparr>)"
    using assms(1) t(2-5) u(2) me(1)
    by (intro waitsI [OF t(2)]) (auto simp: opened_def waits_def quiet_def snd_ok_def)
  moreover have "pr_intervalList (procArray u (me s)) \<noteq> None"
    using links_chain_intervals [OF mem_ok_simps(2) [OF u(1)] me(2)] u(1) me(1) by (cases "L (me s)") (auto simp: mem_ok_def)
  ultimately show ?thesis using t(1) me(1) by auto
qed

text \<open>All the messages: the first opens the interval, the last one ends the wait.\<close>

lemma await_release:
  assumes "list_all2 (carries 0 GRANT_EXIT_BARRIER_INFO) ds ((to, ts, pks) # mls)" "\<forall>m\<in>set mls. fst (snd m) = no_ts"
    and "carries 0 EXIT_BARRIER x (to, no_ts, [])" "ts_ok ts" "ts ! 0 \<noteq> - 1"
    and "waits s now lg u" "receptive u" "myhostid s \<noteq> 0" "waitFlag s \<noteq> 0" "length (ivals u) = n"
    and "\<forall>pk\<in>set (pks @ concat (map (snd \<circ> snd) mls)). packet_ok s pk"
  shows "\<exists>t v. await waitFlag (answers_of ds) u = Some (Blocked v) \<and>
    await waitFlag (answers_of (ds @ [x])) u = Some (Returned (t, [])) \<and> waitFlag t = 0 \<and>
    waits (s\<lparr>waitFlag := 0\<rparr>) (Some n) (merge_packets (pks @ concat (map (snd \<circ> snd) mls)) (opened s ts lg)) t"
proof -
  let ?lg = "opened s ts lg" and ?now = "Some n"
  obtain h port m es where d: "ds = (h, port, m) # es" "carries 0 GRANT_EXIT_BARRIER_INFO (h, port, m) (to, ts, pks)"
    "list_all2 (carries 0 GRANT_EXIT_BARRIER_INFO) es mls"
    using assms(1) by (auto simp: list_all2_Cons2)
  have m: "m_timestamp m = ts" "packets_of (m_data m) = Some pks" "m_from m = 0" "m_command m = cmd_code GRANT_EXIT_BARRIER_INFO"
    using d(2) by (auto simp: carries_def simp del: cmd_code.simps)
  have pks: "\<forall>pk\<in>set pks. packet_ok s pk" and rest: "\<forall>pk\<in>set (concat (map (snd \<circ> snd) mls)). packet_ok s pk"
    using assms(11) by simp_all
  have run: "\<exists>t. dispatchMsg (Some m) v = Some t \<and> waits s ?now (merge_packets pks ?lg) t" if i: "idle_frame u v" for v
  proof -
    have v: "waits s now lg v" "length (ivals v) = n"
      using waits_idle [OF assms(6) i] idle_frame_fields(1) [OF i] assms(10) by (simp_all add: same_mem_def)
    obtain k t where t: "pr_intervalList (procArray v (me s)) \<noteq> None"
      "push_interval (me s) (empty_interval\<lparr>i_timestamp := ts, i_isBarrier := 1\<rparr>) v = Some (k, t)"
      "waits s ?now ?lg (t\<lparr>intervalNow := Some k\<rparr>)"
      using barrier_interval [OF v(1) assms(4)] v(2) by blast
    obtain L W P where L: "mem_ok L W P v" using v(1) by (auto simp: waits_def)
    have "aidx (myhostid v) MAX_HOST_NUM = Some (me s)"
      using host_ok_me(2) [OF mem_ok_simps(1) [OF L]] v(1) by (simp add: waits_def me_def)
    then show ?thesis
      using waits_merge [OF t(3) pks] t(1,2) m(1,2) assms(5)
      by (simp add: dispatch_cmd(13) [OF m(4)] handleGrantExitBarrierMsg_def)
  qed
  have u: "myhostid u \<noteq> 0" "waitFlag u \<noteq> 0" using assms(6,8,9) by (simp_all add: waits_def)
  obtain t1 where t1: "\<And>env. await waitFlag (deliver 0 m # env) u = await waitFlag env t1" "receptive t1"
    "waits s ?now (merge_packets pks ?lg) t1"
    using await_message [OF assms(7) u(1) m(3) u(2) run] by blast
  obtain t2 where t2: "\<And>env. await waitFlag (answers_of es @ env) t1 = await waitFlag env t2" "receptive t2"
    "waits s ?now (merge_packets (concat (map (snd \<circ> snd) mls)) (merge_packets pks ?lg)) t2"
    using await_more [OF d(3) assms(2) t1(3,2) assms(8,9) rest] by blast
  have two: "await waitFlag (answers_of ds @ env) u = await waitFlag env t2" for env
    using t1(1) t2(1) by (simp add: d(1) del: await.simps)
  have w2: "myhostid t2 \<noteq> 0" "waitFlag t2 \<noteq> 0" using t2(3) assms(8,9) by (simp_all add: waits_def)
  obtain h' port' y where x: "x = (h', port', y)" by (cases x)
  have y: "m_from y = 0" "m_command y = cmd_code EXIT_BARRIER"
    using assms(3) by (auto simp: carries_def x simp del: cmd_code.simps)
  let ?all = "merge_packets (pks @ concat (map (snd \<circ> snd) mls)) ?lg"
  have all: "?all = merge_packets (concat (map (snd \<circ> snd) mls)) (merge_packets pks ?lg)"
    by (simp add: fun_eq_iff merge_packets_append)
  have exit: "\<exists>t. dispatchMsg (Some y) v = Some t \<and> waits (s\<lparr>waitFlag := 0\<rparr>) ?now ?all t" if i: "idle_frame t2 v" for v
  proof -
    have "waits s ?now ?all v" unfolding all by (rule waits_idle [OF t2(3) i])
    then obtain L W P where v: "mem_ok L W P v" "\<And>g. g < MAX_HOST_NUM \<Longrightarrow> host_log L W v g = ?all g" "waits s ?now ?all v"
      by (auto simp: waits_def)
    have heap: "same_heap v (v\<lparr>waitFlag := 0\<rparr>)" by (simp add: same_heap_def)
    have "page_bytes (v\<lparr>waitFlag := 0\<rparr>) = page_bytes v" "page_bytes (s\<lparr>waitFlag := 0\<rparr>) = page_bytes s"
      by (rule page_bytes_vm, simp)+
    then have "waits (s\<lparr>waitFlag := 0\<rparr>) ?now ?all (v\<lparr>waitFlag := 0\<rparr>)"
      using v mem_ok_same_heap [OF heap] host_log_same_heap [OF heap]
      by (intro waitsI [of L W P]) (simp_all add: waits_def)
    then show ?thesis using y by (simp add: dispatch_cmd(5) [OF y(2)] handleExitBarrierMsg_def)
  qed
  obtain t3 where t3: "\<And>env. await waitFlag (deliver 0 y # env) t2 = await waitFlag env t3"
    "waits (s\<lparr>waitFlag := 0\<rparr>) ?now ?all t3"
    using await_message [OF t2(2) w2(1) y(1) w2(2) exit] by blast
  have "waitFlag t3 = 0" using t3(2) by (simp add: waits_def)
  moreover have "await waitFlag (answers_of (ds @ [x])) u = Some (Returned (t3, []))"
    using two [of "[deliver 0 y]"] t3(1) [of "[]"] calculation by (simp add: x del: await.simps(2))
  moreover have "await waitFlag (answers_of ds) u = Some (Blocked t2)" using two [of "[]"] w2(2) by simp
  ultimately show ?thesis using t3(2) by blast
qed

section \<open>What host 0 sends to a host\<close>

text \<open>All packets go to the host itself if no interval needs more than one of them.\<close>

lemma feed_single:
  assumes "length (snd e) \<le> MAX_WN_NUM"
  shows "feed_entry to to' (entry_packets j e) p = fold (feed to) (entry_packets j e) p"
  using assms by (cases "snd e = []") (simp_all add: entry_packets_def notice_packets_def page_chunks_short del: feed.simps)

lemma exit_mail_single:
  assumes "\<forall>x\<in>set (lacking n bts lg). length (snd (snd x)) \<le> MAX_WN_NUM"
  shows "exit_mail n rts bts lg i =
    mail_of (int i) (mail_ts (int n) rts) (wni_packets (lacking n bts lg))"
proof -
  have "feed_all i xs p = fold (feed (int i)) (wni_packets xs) p"
    if "\<forall>x\<in>set xs. length (snd (snd x)) \<le> MAX_WN_NUM" for xs p
    using that by (induction xs arbitrary: p) (auto simp: feed_all_def feed_single simp del: feed.simps)
  with assms show ?thesis by (simp add: exit_mail_def mail_of_def)
qed

text \<open>
  Each packet for host \<open>i\<close>, with the address that the next message gets if this packet fills one: host
  \<open>i\<close> for the first packet of an interval, host 0 for the packets left over (\<open>msg->to = 0\<close>).
\<close>

definition addressed :: "nat \<Rightarrow> (nat \<times> log_entry) list \<Rightarrow> (int \<times> wnPacket_t) list" where
  "addressed i es = concat (map (\<lambda>(j, e).
     zip (int i # replicate (length (entry_packets j e) - 1) 0) (entry_packets j e)) es)"

lemma addressed_packets: "map snd (addressed i es) = wni_packets es"
proof (induction es)
  case (Cons x es)
  have "map snd (zip (a # replicate (length pks - 1) 0) pks) = pks" for a and pks :: "wnPacket_t list"
    by (cases pks) simp_all
  then show ?case using Cons by (cases x) (simp add: addressed_def)
qed (simp add: addressed_def)

lemma feed_entry_addressed:
  "feed_entry a b pks p = fold (\<lambda>(a, pk). feed a pk) (zip (a # replicate (length pks - 1) b) pks) p"
proof -
  have "fold (feed b) pks p = fold (\<lambda>(a, pk). feed a pk) (zip (replicate (length pks) b) pks) p" for pks p
    by (induction pks arbitrary: p) simp_all
  then show ?thesis by (cases pks) simp_all
qed

lemma feed_all_addressed: "feed_all i es p = fold (\<lambda>(a, pk). feed a pk) (addressed i es) p"
  by (induction es arbitrary: p) (auto simp: feed_all_def addressed_def feed_entry_addressed)

text \<open>The \<open>q\<close>-th of the messages that carry the packets \<open>pts\<close>; only the first one has a timestamp.\<close>

definition mail_at :: "int \<Rightarrow> timestamp \<Rightarrow> (int \<times> wnPacket_t) list \<Rightarrow> nat \<Rightarrow> mail" where
  "mail_at to ts pts q = (if q = 0 then to else fst (pts ! (PER_MSG * q - 1)), if q = 0 then ts else no_ts,
     map snd (take PER_MSG (drop (PER_MSG * q) pts)))"

lemma mail_at_append: "PER_MSG * q + PER_MSG \<le> length pts \<Longrightarrow> mail_at to ts (pts @ xs) q = mail_at to ts pts q"
  by (cases q) (auto simp: mail_at_def nth_append PER_MSG_def)

lemma fst_mail_at: "fst (mail_at to ts pts q) = (if q = 0 then to else fst (pts ! (PER_MSG * q - 1)))"
  by (simp add: mail_at_def)

lemma feed_mails:
  "fold (\<lambda>(a, pk). feed a pk) pts ([], to, ts, []) =
    (map (mail_at to ts pts) [0..<length pts div PER_MSG], mail_at to ts pts (length pts div PER_MSG))"
proof (induction pts rule: rev_induct)
  case Nil
  then show ?case by (simp add: mail_at_def)
next
  case (snoc x pts)
  obtain a pk where x: "x = (a, pk)" by (cases x)
  define q r where "q = length pts div PER_MSG" and "r = length pts mod PER_MSG"
  then have len: "length pts = PER_MSG * q + r" "r < PER_MSG" by (simp_all add: PER_MSG_def)
  have old: "map (mail_at to ts (pts @ [x])) [0..<q] = map (mail_at to ts pts) [0..<q]"
  proof (intro map_cong refl mail_at_append)
    fix p assume "p \<in> set [0..<q]"
    then have "PER_MSG * Suc p \<le> PER_MSG * q" by (intro mult_le_mono2) simp
    then show "PER_MSG * p + PER_MSG \<le> length pts" using len(1) by simp
  qed
  obtain b t c where m: "mail_at to ts pts q = (b, t, c)" by (cases "mail_at to ts pts q") auto
  have last: "mail_at to ts (pts @ [x]) q = (b, t, c @ [pk])" "length c = r"
    using len m by (auto simp: mail_at_def x nth_append PER_MSG_def)
  note IH = snoc [folded q_def, unfolded m]
  show ?case
  proof (cases "r + 1 < PER_MSG")
    case True
    then have "length (pts @ [x]) div PER_MSG = q" using len by (simp add: PER_MSG_def)
    then show ?thesis using IH True last old by (simp add: x)
  next
    case False
    then have n: "length (pts @ [x]) = PER_MSG * Suc q" "PER_MSG * Suc q - 1 = length pts" using len by simp_all
    have "PER_MSG * Suc q div PER_MSG = Suc q"
      by (rule nonzero_mult_div_cancel_left) (simp add: PER_MSG_def)
    then have q: "length (pts @ [x]) div PER_MSG = Suc q" unfolding n(1) .
    have "mail_at to ts (pts @ [x]) (Suc q) = (a, no_ts, [])"
      using n(1) unfolding mail_at_def n(2) by (simp add: x)
    note q = q this
    show ?thesis unfolding q using IH False last old by (simp add: x)
  qed
qed

lemma exit_mail_shape:
  fixes n i :: nat and bts :: timestamp and lg :: "nat \<Rightarrow> log_entry list"
  defines "pts \<equiv> addressed i (lacking n bts lg)"
  shows "exit_mail n rts bts lg i = map (mail_at (int i) (mail_ts (int n) rts) pts)
    [0..<max 1 ((length pts + PER_MSG - 1) div PER_MSG)]"
proof -
  let ?pts = "addressed i (lacking n bts lg)"
  let ?m = "mail_at (int i) (mail_ts (int n) rts) ?pts"
  define q r where "q = length ?pts div PER_MSG" and "r = length ?pts mod PER_MSG"
  then have len: "length ?pts = PER_MSG * q + r" "r < PER_MSG" by (simp_all add: PER_MSG_def)
  then have cur: "snd (snd (?m q)) \<noteq> [] \<longleftrightarrow> r \<noteq> 0" by (auto simp: mail_at_def)
  have "max 1 ((length ?pts + PER_MSG - 1) div PER_MSG) = (if r \<noteq> 0 \<or> q = 0 then Suc q else q)"
    unfolding len(1) using len(2) by (cases "r = 0"; cases "q = 0") (auto simp: PER_MSG_def)
  moreover have "exit_mail n rts bts lg i = (if r \<noteq> 0 \<or> q = 0 then map ?m [0..<Suc q] else map ?m [0..<q])"
    unfolding exit_mail_def feed_all_addressed feed_mails q_def [symmetric] cur [symmetric] by (cases "?m q") auto
  ultimately show ?thesis by (simp add: pts_def)
qed

text \<open>So all packets are sent, in order, the first message goes to the host itself, and a later one with
  packets goes to host 0 exactly if a packet left over has filled the message before.\<close>

lemma exit_mail_facts:
  fixes n i :: nat and rts bts :: timestamp and lg :: "nat \<Rightarrow> log_entry list"
  assumes "0 < i"
  defines "pts \<equiv> addressed i (lacking n bts lg)" and "mails \<equiv> exit_mail n rts bts lg i"
  shows "concat (map (snd \<circ> snd) mails) = wni_packets (lacking n bts lg)"
    and "(\<exists>m\<in>set mails. fst m = 0) \<longleftrightarrow> (\<exists>q>0. PER_MSG * q < length pts \<and> fst (pts ! (PER_MSG * q - 1)) = 0)"
proof -
  show "concat (map (snd \<circ> snd) mails) = wni_packets (lacking n bts lg)"
  proof -
    have "parcel_packets (fold (\<lambda>(a, pk). feed a pk) xs p) = parcel_packets p @ map snd xs" for xs p
      by (induction xs arbitrary: p) (auto simp del: feed.simps)
    then show ?thesis
      unfolding mails_def exit_mail_def close_parcel_packets feed_all_addressed
      by (simp add: addressed_packets) (simp add: parcel_packets_def)
  qed
  let ?Q = "max 1 ((length pts + PER_MSG - 1) div PER_MSG)"
  have "q < ?Q \<longleftrightarrow> q = 0 \<or> PER_MSG * q < length pts" for q
  proof -
    have "Suc q \<le> (length pts + PER_MSG - 1) div PER_MSG \<longleftrightarrow> Suc q * PER_MSG \<le> length pts + PER_MSG - 1"
      by (rule less_eq_div_iff_mult_less_eq) (simp add: PER_MSG_def)
    also have "\<dots> \<longleftrightarrow> PER_MSG * q < length pts" by (auto simp: PER_MSG_def)
    finally show ?thesis by (auto simp: less_max_iff_disj Suc_le_eq)
  qed
  then have "(\<exists>m\<in>set mails. fst m = 0) \<longleftrightarrow> (\<exists>q. (q = 0 \<or> PER_MSG * q < length pts) \<and>
      fst (mail_at (int i) (mail_ts (int n) rts) pts q) = 0)"
    unfolding mails_def exit_mail_shape pts_def [symmetric] set_map set_upt bex_simps(7)
    by (simp only: Bex_def atLeastLessThan_iff le0 simp_thms)
  also have "\<dots> \<longleftrightarrow> (\<exists>q>0. PER_MSG * q < length pts \<and> fst (pts ! (PER_MSG * q - 1)) = 0)"
    unfolding fst_mail_at using assms(1) by auto
  finally show "(\<exists>m\<in>set mails. fst m = 0) \<longleftrightarrow> (\<exists>q>0. PER_MSG * q < length pts \<and> fst (pts ! (PER_MSG * q - 1)) = 0)" .
qed

section \<open>The call\<close>

lemma mail_ts_ok: "ts_ok t \<Longrightarrow> n \<le> int MAX_HOST_NUM \<Longrightarrow> ts_ok (mail_ts n t)"
  by (auto simp: ts_ok_def mail_ts_def list_all_iff in32_def dest!: in_set_takeD)

lemma mi_barrier_sends:
  assumes ok: "mem_ok L W P s" and lg: "log_ok (host_log L W s)" and q: "quiet s" and r: "receptive s" and me: "myhostid s \<noteq> 0"
    and L: "L (me s) = as @ k # bs" "i_isBarrier (ivals s ! k) = 1" "\<forall>j\<in>set as. i_isBarrier (ivals s ! j) \<noteq> 1"
    and now: "intervalNow s = Some i"
  shows "\<exists>t w. (\<forall>early env. mi_barrier early env s = await waitFlag env t) \<and>
    mailed (myhostid s) GRANT_ENTER_BARRIER_INFO (wire s) w
      (mail_of 0 (mail_ts (hostnum s) (i_timestamp (ivals s ! i)))
        (concat (map (entry_packets (me s)) (rev (map (entry_of W s) (as @ [k])))))) \<and>
    mailed (myhostid s) ENTER_BARRIER w (wire t) [(0, no_ts, [])] \<and>
    waits t (Some i) (host_log L W s) t \<and> receptive t \<and> waitFlag t = 1 \<and> same_mem s t"
proof -
  obtain u where u: "sendEnterBarrierInfo s = Some u" "quiet u" "net_frame s u"
    "mailed (myhostid s) GRANT_ENTER_BARRIER_INFO (wire s) (wire u) (mail_of 0 (mail_ts (hostnum s) (i_timestamp (ivals s ! i)))
        (concat (map (entry_packets (me s)) (rev (map (entry_of W s) (as @ [k]))))))"
    using sendEnterBarrierInfo_ok [OF ok lg q me L now] by blast
  note fu = net_frame_mem [OF u(3)]
  let ?u = "u\<lparr>waitFlag := 1\<rparr>"
  have h: "myhostid u = myhostid s" "in_hosts (myhostid s)" "in_hosts 0"
    using fu(1) in_hosts_me [OF mem_ok_simps(1) [OF ok]] by (simp_all add: same_mem_def in_hosts_def)
  obtain t where t: "sendMsg (Some (SndSlot (sndTail ?u))) (fill ?u (packed (myhostid ?u) 0 ENTER_BARRIER no_ts [])) = Some (0, t)"
    "quiet t" "net_frame ?u t" "sent (wire ?u) (wire t) [sent_msg ?u 0 ENTER_BARRIER no_ts []]"
    using send_fill [of ?u 0 "[]" ENTER_BARRIER no_ts] u(2) h by auto
  note ft = net_frame_mem [OF t(3)]
  have "mi_barrier early env s = await waitFlag env t" for early env
    using me u(1) t(1) h(1) by (simp add: mi_barrier_def new_msg_fill [OF u(2)] fill_flags)
  moreover have "packets_of (\<lambda>_. 0) = Some []"
    by (simp add: packets_of_def peek_int_def peek_def bytes_int_def upt_rec s32_def size_consts)
  then have "mailed (myhostid s) ENTER_BARRIER (wire u) (wire t) [(0, no_ts, [])]"
    unfolding mailed_def using t(4) h(1) by (auto simp: carries_def sent_msg_def simp del: cmd_code.simps)
  moreover have sm: "same_mem s t" using fu(1) ft(1) by (simp add: same_mem_def)
  moreover have "waits t (Some i) (host_log L W s) t"
    using ok now sm mem_ok_same_mem [OF sm] host_log_same_mem [OF sm] t(2)
    by (intro waitsI [of L W P]) (simp_all add: same_mem_def)
  moreover have "receptive ?u = receptive u" by (simp add: receptive_def recv_ok_def)
  then have "receptive t" using net_frame_receptive [OF t(3)] net_frame_receptive [OF u(3)] r by simp
  ultimately show ?thesis using u(4) ft(3) by auto
qed

lemma set_lacking: "(j, e) \<in> set (lacking n ts lg) \<longleftrightarrow> j < n \<and> e \<in> set (lg j) \<and> lacks n ts e"
  by (auto simp: lacking_def)

text \<open>A notice is among the packets for a host exactly if its interval is later than the host's timestamp.\<close>

lemma notice_passed_on:
  assumes "0 < i" "j < n" "e \<in> set (lg j)" "p \<in> set (snd e)"
  shows "(\<exists>m\<in>set (exit_mail n rts bts lg i). \<exists>pk\<in>set (snd (snd m)).
      k_hostid pk = int j \<and> k_timestamp pk = fst e \<and> p \<in> set (packet_pages pk)) \<longleftrightarrow> ts_after n (fst e) bts"
proof -
  have "(\<exists>m\<in>set (exit_mail n rts bts lg i). \<exists>pk\<in>set (snd (snd m)). Q pk) \<longleftrightarrow>
      (\<exists>pk\<in>set (wni_packets (lacking n bts lg)). Q pk)" for Q
    unfolding exit_mail_facts(1) [OF assms(1), where rts = rts and n = n and bts = bts and lg = lg, symmetric] by auto
  moreover have "(\<exists>pk\<in>set (wni_packets (lacking n bts lg)).
      k_hostid pk = int j \<and> k_timestamp pk = fst e \<and> p \<in> set (packet_pages pk)) \<longleftrightarrow> ts_after n (fst e) bts"
  proof
    assume "\<exists>pk\<in>set (wni_packets (lacking n bts lg)).
      k_hostid pk = int j \<and> k_timestamp pk = fst e \<and> p \<in> set (packet_pages pk)"
    then obtain j' e' c where "(j', e') \<in> set (lacking n bts lg)" "notice_packet (int j') (fst e') c = notice_packet (int j) (fst e) c"
      by (auto simp: wni_packets_def entry_packets_def notice_packets_def notice_packet_def)
    then show "ts_after n (fst e) bts" by (auto simp: set_lacking lacks_def notice_packet_def)
  next
    assume "ts_after n (fst e) bts"
    then have l: "(j, e) \<in> set (lacking n bts lg)" using assms by (auto simp: set_lacking lacks_def)
    obtain c where c: "c \<in> set (page_chunks (snd e))" "p \<in> set c"
      using assms(4) concat_page_chunks [of "snd e"] by (metis UN_E set_concat)
    then have "notice_packet (int j) (fst e) c \<in> set (wni_packets (lacking n bts lg))"
      using l by (force simp: wni_packets_def entry_packets_def notice_packets_def)
    moreover have "packet_pages (notice_packet (int j) (fst e) c) = c"
      using chunk_in [OF c(1)] by (simp add: packet_pages_def notice_packet_def)
    ultimately show "\<exists>pk\<in>set (wni_packets (lacking n bts lg)).
        k_hostid pk = int j \<and> k_timestamp pk = fst e \<and> p \<in> set (packet_pages pk)"
      using c(2) by (intro bexI [of _ "notice_packet (int j) (fst e) c"]) (simp_all add: notice_packet_def)
  qed
  ultimately show ?thesis by simp
qed

text \<open>C10: A whole barrier, for a host other than host 0. \<open>mi_barrier\<close> reports the intervals of the host since
  the last barrier to host 0, then that it has entered, and waits. It goes on waiting while the messages
  come in that host 0 sends to it at the release, and returns when \<open>EXIT_BARRIER\<close> follows them. By then
  a new interval with the timestamp of the barrier has been started, and the log of each other host has
  taken up the entries of the log of host 0 that were lacking, oldest first. The bytes of the pages and
  the invariant are kept.\<close>

theorem barrier_call:
  assumes "mem_ok L W P s" "log_ok (host_log L W s)" "quiet s" "receptive s" "myhostid s \<noteq> 0"
    and "L (me s) = as @ k # bs" "i_isBarrier (ivals s ! k) = 1" "\<forall>j\<in>set as. i_isBarrier (ivals s ! j) \<noteq> 1"
    and "intervalNow s = Some i"
    and "mem_ok L0 W0 P0 z" "log_ok (host_log L0 W0 z)" "hostnum z = hostnum s" "release_ts z ! 0 \<noteq> - 1"
  defines "n \<equiv> nat (hostnum s)"
    and "new \<equiv> \<lambda>g. filter (lacks (nat (hostnum s)) (barrierTimestamps z (me s))) (rev (host_log L0 W0 z g))"
  assumes "new (me s) = []" "\<forall>g<n. \<forall>e\<in>set (new g). length (snd e) \<le> MAX_WN_NUM"
    and "list_all2 (carries 0 GRANT_EXIT_BARRIER_INFO) ds
      (exit_mail n (release_ts z) (barrierTimestamps z (me s)) (host_log L0 W0 z) (me s))"
    and "carries 0 EXIT_BARRIER x (myhostid s, no_ts, [])"
  shows "\<exists>v w r L' W' P'. mi_barrier early (answers_of ds) s = Some (Blocked v) \<and>
    mi_barrier early (answers_of (ds @ [x])) s = Some (Returned (r, [])) \<and>
    mailed (myhostid s) GRANT_ENTER_BARRIER_INFO (wire s) w
      (mail_of 0 (mail_ts (hostnum s) (i_timestamp (ivals s ! i)))
        (concat (map (entry_packets (me s)) (rev (map (entry_of W s) (as @ [k])))))) \<and>
    mailed (myhostid s) ENTER_BARRIER w (wire r) [(0, no_ts, [])] \<and> waitFlag r = 0 \<and> quiet r \<and>
    mem_ok L' W' P' r \<and> intervalNow r = Some (length (ivals s)) \<and> page_bytes r = page_bytes s \<and>
    (\<forall>g<MAX_HOST_NUM. host_log L' W' r g =
      (if g = me s then (mail_ts (hostnum s) (release_ts z), []) # host_log L W s g
       else if g < n then fold merge_entry (new g) (host_log L W s g) else host_log L W s g))"
proof -
  note host = mem_ok_simps(1) [OF assms(1)]
  note h = host_ok_me [OF host]
  have hn: "int n = hostnum s" "n \<le> MAX_HOST_NUM" using host by (auto simp: host_ok_def n_def)
  let ?b = "barrierTimestamps z (me s)" and ?lz = "host_log L0 W0 z" and ?ts = "mail_ts (hostnum s) (release_ts z)"
  let ?pks = "wni_packets (lacking n ?b ?lz)"
  have fit: "\<forall>x\<in>set (lacking n ?b ?lz). length (snd (snd x)) \<le> MAX_WN_NUM"
    using assms(17) by (force simp: set_lacking new_def n_def)
  obtain pks mls where c: "mail_of (int (me s)) ?ts ?pks = (int (me s), ?ts, pks) # mls" "\<forall>m\<in>set mls. fst (snd m) = no_ts"
    using mail_of_cons by blast
  have ds: "list_all2 (carries 0 GRANT_EXIT_BARRIER_INFO) ds ((myhostid s, ?ts, pks) # mls)"
    using assms(18) c(1) unfolding exit_mail_single [OF fit] hn(1) h(3) by simp
  have all: "pks @ concat (map (snd \<circ> snd) mls) = ?pks"
    using mail_of(1) [of "int (me s)" ?ts ?pks] unfolding c(1) by simp
  obtain t w where t: "\<And>env. mi_barrier early env s = await waitFlag env t"
    "mailed (myhostid s) GRANT_ENTER_BARRIER_INFO (wire s) w (mail_of 0 (mail_ts (hostnum s) (i_timestamp (ivals s ! i)))
        (concat (map (entry_packets (me s)) (rev (map (entry_of W s) (as @ [k]))))))"
    "mailed (myhostid s) ENTER_BARRIER w (wire t) [(0, no_ts, [])]"
    "waits t (Some i) (host_log L W s) t" "receptive t" "waitFlag t = 1" "same_mem s t"
    using mi_barrier_sends [OF assms(1-9)] by blast
  have st: "myhostid t = myhostid s" "me t = me s" "length (ivals t) = length (ivals s)" "page_bytes t = page_bytes s"
    using t(7) page_bytes_vm [of t s] by (simp_all add: same_mem_def me_def)
  have ts: "ts_ok ?ts" "?ts ! 0 \<noteq> - 1"
    using mail_ts_ok [OF release_ts_ok] mail_ts_0 [of "hostnum s" "release_ts z"] release_ts_ok [of z] host assms(13)
    by (auto simp: ts_ok_def host_ok_def)
  have own: "own_known s ?b ?lz" using assms(16) by (auto simp: own_known_def new_def filter_empty_conv)
  have pok: "\<forall>pk\<in>set ?pks. packet_ok t pk"
    using lacking_packets_ok [OF assms(10,11,12) host own] st(1) assms(12) by (auto simp: n_def packet_ok_def)
  obtain r v where r: "await waitFlag (answers_of ds) t = Some (Blocked v)"
    "await waitFlag (answers_of (ds @ [x])) t = Some (Returned (r, []))" "waitFlag r = 0"
    "waits (t\<lparr>waitFlag := 0\<rparr>) (Some (length (ivals s))) (merge_packets ?pks (opened t ?ts (host_log L W s))) r"
    using await_release [OF ds c(2) assms(19) ts t(4,5) _ _ st(3), unfolded all, OF _ _ pok] assms(5) st(1) t(6) by auto
  obtain L' W' P' where L': "mem_ok L' W' P' r"
    "\<forall>g<MAX_HOST_NUM. host_log L' W' r g = merge_packets ?pks (opened t ?ts (host_log L W s)) g"
    using r(4) by (auto simp: waits_def)
  have "merge_packets ?pks (opened t ?ts (host_log L W s)) g =
      (if g = me s then (?ts, []) # host_log L W s g
       else if g < n then fold merge_entry (new g) (host_log L W s g) else host_log L W s g)" for g
    using assms(16) unfolding merge_lacking by (simp add: opened_def st(2) new_def n_def)
  then have "\<forall>g<MAX_HOST_NUM. host_log L' W' r g =
      (if g = me s then (?ts, []) # host_log L W s g
       else if g < n then fold merge_entry (new g) (host_log L W s g) else host_log L W s g)"
    using L'(2) by simp
  moreover have "wire r = wire t" "quiet r" "intervalNow r = Some (length (ivals s))" "page_bytes r = page_bytes s"
    using r(4) st(4) page_bytes_vm [of "t\<lparr>waitFlag := 0\<rparr>" t] by (simp_all add: waits_def)
  ultimately show ?thesis using t(1-3) r(1-3) L'(1) by metis
qed

text \<open>Host 1 after start-up, and host 0 that knows of a write to page 0 host 1 has not seen.\<close>

definition late_entry :: mem_st where
  "late_entry = entering\<lparr>barrierTimestamps := (\<lambda>_. zero_ts)(1 := no_ts)\<rparr>"

lemma late_entry_ok:
  "mem_ok first_L written_W written_P late_entry" "host_log first_L written_W late_entry = host_log first_L written_W entering"
  "log_ok (host_log first_L written_W late_entry)" "quiet late_entry" "rows_ok late_entry" "myhostid late_entry = 0"
  "hostnum late_entry = 3" "all_entered (late_entry\<lparr>barrierFlags := (barrierFlags late_entry)(2 := 1)\<rparr>)"
  "release_ts late_entry ! 0 \<noteq> - 1" "barrierTimestamps late_entry 1 = no_ts" "wire late_entry = []"
proof -
  have heap: "same_heap entering late_entry" by (simp add: same_heap_def late_entry_def)
  show "host_log first_L written_W late_entry = host_log first_L written_W entering" by (rule host_log_same_heap [OF heap])
  then show "mem_ok first_L written_W written_P late_entry" "log_ok (host_log first_L written_W late_entry)"
    using mem_ok_same_heap [OF heap] entering_ok(1,2) by simp_all
  show "rows_ok late_entry" by (simp add: rows_ok_def late_entry_def no_ts_def zero_ts_def)
  show "quiet late_entry" "myhostid late_entry = 0" "hostnum late_entry = 3"
    "all_entered (late_entry\<lparr>barrierFlags := (barrierFlags late_entry)(2 := 1)\<rparr>)" "barrierTimestamps late_entry 1 = no_ts"
    "wire late_entry = []"
    using entering_ok by (simp_all add: late_entry_def all_entered_def)
  show "release_ts late_entry ! 0 \<noteq> - 1"
    using entering_ok(6) by (simp add: release_ts_def late_entry_def zero_ts_def s32_def MAX_HOST_NUM_def)
qed

text \<open>C9: The release of the barrier, at the handler for a host that enters. While a host is missing
  only the flag is set. When all have entered, host 0 starts an interval that follows the one of every
  host and sends for each host \<open>i\<close> the packets of the intervals that are later than the timestamp \<open>i\<close>
  entered with, all of them and in order, \<open>PER_MSG\<close> to a message; then it lets the hosts go, forgets the
  timestamps, the flags and the last holders of the locks, and is released itself; invariant and pages
  are kept. The first message goes to host \<open>i\<close>. A later one goes to host \<open>i\<close> if the packet that filled
  the message before was the first of its interval, and to host 0 (\<open>msg->to = 0\<close>) if it was one left
  over from an interval with too many notices for a packet: host \<open>i\<close> never gets these packets. This does
  not happen when every interval fits into one packet; then all messages go to host \<open>i\<close>.\<close>

theorem barrier_release:
  assumes ok: "mem_ok L W P s" and lg: "log_ok (host_log L W s)" and q: "quiet s" and rows: "rows_ok s"
    and me: "myhostid s = 0" and m: "m_from m = int h" "int h < hostnum s"
  defines "s1 \<equiv> s\<lparr>barrierFlags := (barrierFlags s)(h := 1)\<rparr>" and "n \<equiv> length (ivals s)"
    and "hn \<equiv> nat (hostnum s)"
    and "lack \<equiv> \<lambda>i. lacking (nat (hostnum s)) (barrierTimestamps s i) (host_log L W s)"
    and "mails \<equiv> \<lambda>i. exit_mail (nat (hostnum s)) (release_ts s) (barrierTimestamps s i) (host_log L W s) i"
  shows "if all_entered s1 then
      \<exists>v w. handleEnterBarrierMsg m s = Some v \<and> waitFlag v = 0 \<and>
        mem_ok (L(0 := n # L 0)) (W(n := [])) P v \<and> quiet v \<and>
        mailed 0 GRANT_EXIT_BARRIER_INFO (wire s) w (concat (map mails [1..<hn])) \<and>
        (\<forall>i\<in>{1..<hn}. let pts = addressed i (lack i) in
           map snd pts = wni_packets (lack i) \<and> concat (map (snd \<circ> snd) (mails i)) = map snd pts \<and>
           mails i = map (mail_at (int i) (mail_ts (hostnum s) (release_ts s)) pts)
             [0..<max 1 ((length pts + PER_MSG - 1) div PER_MSG)] \<and>
           ((\<exists>m\<in>set (mails i). fst m = 0) \<longleftrightarrow>
             (\<exists>q>0. PER_MSG * q < length pts \<and> fst (pts ! (PER_MSG * q - 1)) = 0)) \<and>
           ((\<forall>(j, e)\<in>set (lack i). length (snd e) \<le> MAX_WN_NUM) \<longrightarrow> (\<forall>m\<in>set (mails i). fst m = int i))) \<and>
        mailed 0 EXIT_BARRIER w (wire v) (map (\<lambda>i. (int i, no_ts, [])) [1..<hn]) \<and>
        (\<forall>g<MAX_HOST_NUM. host_log (L(0 := n # L 0)) (W(n := [])) v g =
           (if g = 0 then (release_ts s, []) # host_log L W s g else host_log L W s g)) \<and>
        pageArray v = pageArray s \<and> vm v = vm s \<and> intervalNow v = Some n \<and> i_isBarrier (ivals v ! n) = 1 \<and>
        (\<forall>i<hn. barrierFlags v i = 0 \<and> (\<forall>j<hn. barrierTimestamps v i ! j = - 1)) \<and>
        (\<forall>k<LOCK_NUM. l_lasthostid (locks v k) = - 1)
    else handleEnterBarrierMsg m s = Some s1"
proof (cases "all_entered s1")
  case True
  have hn: "int hn = hostnum s" using m(2) by (simp add: hn_def)
  have mails: "concat (map mails [1..<hn]) = release_mail (host_log L W s) s"
    unfolding release_mail_def mails_def hn_def ..
  have each: "let pts = addressed i (lack i) in
      map snd pts = wni_packets (lack i) \<and> concat (map (snd \<circ> snd) (mails i)) = map snd pts \<and>
      mails i = map (mail_at (int i) (mail_ts (hostnum s) (release_ts s)) pts)
        [0..<max 1 ((length pts + PER_MSG - 1) div PER_MSG)] \<and>
      ((\<exists>m\<in>set (mails i). fst m = 0) \<longleftrightarrow>
        (\<exists>q>0. PER_MSG * q < length pts \<and> fst (pts ! (PER_MSG * q - 1)) = 0)) \<and>
      ((\<forall>(j, e)\<in>set (lack i). length (snd e) \<le> MAX_WN_NUM) \<longrightarrow> (\<forall>m\<in>set (mails i). fst m = int i))"
    if "i \<in> {1..<hn}" for i
  proof -
    have i: "0 < i" using that by simp
    have "\<forall>m\<in>set (mails i). fst m = int i" if "\<forall>(j, e)\<in>set (lack i). length (snd e) \<le> MAX_WN_NUM"
      unfolding mails_def using that exit_mail_single [of "nat (hostnum s)" "barrierTimestamps s i"] mail_of(2) [of "int i"]
      by (fastforce simp: lack_def list_all_iff)
    moreover note f = exit_mail_facts [OF i, where rts = "release_ts s" and n = hn and bts = "barrierTimestamps s i"
      and lg = "host_log L W s"] exit_mail_shape [where i = i and rts = "release_ts s" and n = hn
      and bts = "barrierTimestamps s i" and lg = "host_log L W s", unfolded hn]
    ultimately show ?thesis
      unfolding Let_def addressed_packets mails_def lack_def hn_def [symmetric] by (intro conjI refl f) blast
  qed
  show ?thesis
    unfolding mails if_P [OF True] using handleEnterBarrierMsg_ok [OF assms(1-7)] True each
    unfolding s1_def n_def hn_def by auto
next
  case False
  then show ?thesis using handleEnterBarrierMsg_ok [OF assms(1-7)] by (simp add: s1_def)
qed

theorem barrier_release_witness:
  "\<exists>v. handleEnterBarrierMsg (zero_msg\<lparr>m_from := 2\<rparr>) late_entry = Some v \<and> waitFlag v = 0 \<and> barrierFlags v 2 = 0 \<and>
    concat (map (snd \<circ> snd) (exit_mail 3 (release_ts late_entry) no_ts (host_log first_L written_W late_entry) 1)) =
      wni_packets (lacking 3 no_ts (host_log first_L written_W late_entry))"
  using barrier_release [OF late_entry_ok(1,3-6), of "zero_msg\<lparr>m_from := 2\<rparr>" 2] late_entry_ok(7,8,10)
  by (auto simp: Let_def dest: bspec [of _ _ 1])

text \<open>C40: Write notices get lost at the barrier. When the last host has entered, the notice of a page that
  the logs of host 0 have in some interval is in the messages sent for host \<open>i\<close> if and only if that interval
  is strictly later than the timestamp \<open>i\<close> entered with. The notices of concurrent intervals, and those of
  intervals with the same timestamp, are in no message for \<open>i\<close>, also when other intervals of the same log
  are. A host that enters a barrier still in the interval the barrier before started, which has one
  timestamp on every host, is told of no write that another host made in that interval.\<close>

theorem barrier_skips_concurrent:
  assumes "mem_ok L W P s" "log_ok (host_log L W s)" "quiet s" "rows_ok s" "myhostid s = 0"
    and "m_from m = int h" "int h < hostnum s"
    and "all_entered (s\<lparr>barrierFlags := (barrierFlags s)(h := 1)\<rparr>)"
  defines "hn \<equiv> nat (hostnum s)"
    and "mails \<equiv> \<lambda>i. exit_mail (nat (hostnum s)) (release_ts s) (barrierTimestamps s i) (host_log L W s) i"
  shows "\<exists>v w. handleEnterBarrierMsg m s = Some v \<and>
    mailed 0 GRANT_EXIT_BARRIER_INFO (wire s) w (concat (map mails [1..<hn])) \<and>
    mailed 0 EXIT_BARRIER w (wire v) (map (\<lambda>i. (int i, no_ts, [])) [1..<hn]) \<and>
    (\<forall>i\<in>{1..<hn}. \<forall>j<hn. \<forall>e\<in>set (host_log L W s j). \<forall>p\<in>set (snd e).
      (\<exists>m\<in>set (mails i). \<exists>pk\<in>set (snd (snd m)).
        k_hostid pk = int j \<and> k_timestamp pk = fst e \<and> p \<in> set (packet_pages pk)) \<longleftrightarrow>
      ts_after hn (fst e) (barrierTimestamps s i))"
proof -
  have "concat (map mails [1..<hn]) = release_mail (host_log L W s) s"
    unfolding release_mail_def mails_def hn_def ..
  moreover have "(\<exists>m\<in>set (mails i). \<exists>pk\<in>set (snd (snd m)).
        k_hostid pk = int j \<and> k_timestamp pk = fst e \<and> p \<in> set (packet_pages pk)) \<longleftrightarrow>
      ts_after hn (fst e) (barrierTimestamps s i)"
    if "i \<in> {1..<hn}" "j < hn" "e \<in> set (host_log L W s j)" "p \<in> set (snd e)" for i j e p
    unfolding mails_def hn_def by (rule notice_passed_on) (use that in \<open>simp_all add: hn_def\<close>)
  ultimately show ?thesis
    using handleEnterBarrierMsg_ok [OF assms(1-7)] assms(8) unfolding hn_def by auto
qed

theorem barrier_skips_concurrent_witness:
  "\<exists>v. handleEnterBarrierMsg (zero_msg\<lparr>m_from := 2\<rparr>) late_entry = Some v \<and>
    (zero_ts, [0]) \<in> set (host_log first_L written_W late_entry 0) \<and>
    (\<exists>m\<in>set (exit_mail 3 (release_ts late_entry) no_ts (host_log first_L written_W late_entry) 1).
      \<exists>pk\<in>set (snd (snd m)). k_hostid pk = 0 \<and> k_timestamp pk = zero_ts \<and> 0 \<in> set (packet_pages pk)) \<and>
    \<not> (\<exists>m\<in>set (exit_mail 3 (release_ts late_entry) zero_ts (host_log first_L written_W late_entry) 2).
      \<exists>pk\<in>set (snd (snd m)). k_hostid pk = 0 \<and> k_timestamp pk = zero_ts \<and> 0 \<in> set (packet_pages pk))"
proof -
  let ?lg = "host_log first_L written_W late_entry"
  have e: "(zero_ts, [0]) \<in> set (?lg 0)"
    unfolding late_entry_ok(2) using entering_ok(9) [of 0] by (simp add: MAX_HOST_NUM_def)
  have ts: "ts_after 3 zero_ts no_ts" "\<not> ts_after 3 zero_ts zero_ts" "barrierTimestamps late_entry 2 = zero_ts"
    by (auto simp: ts_after_def zero_ts_def no_ts_def MAX_HOST_NUM_def late_entry_def intro: exI [of _ 0])
  obtain v where v: "handleEnterBarrierMsg (zero_msg\<lparr>m_from := 2\<rparr>) late_entry = Some v"
    "\<forall>i\<in>{1..<3}. \<forall>j<3. \<forall>e\<in>set (?lg j). \<forall>p\<in>set (snd e).
      (\<exists>m\<in>set (exit_mail 3 (release_ts late_entry) (barrierTimestamps late_entry i) ?lg i). \<exists>pk\<in>set (snd (snd m)).
        k_hostid pk = int j \<and> k_timestamp pk = fst e \<and> p \<in> set (packet_pages pk)) \<longleftrightarrow>
      ts_after 3 (fst e) (barrierTimestamps late_entry i)"
    using barrier_skips_concurrent [OF late_entry_ok(1,3-6) _ _ late_entry_ok(8), of "zero_msg\<lparr>m_from := 2\<rparr>"]
      late_entry_ok(7) by auto
  from v(2) [rule_format, of 1 0 "(zero_ts, [0])" 0] v(2) [rule_format, of 2 0 "(zero_ts, [0])" 0] v(1) e ts show ?thesis
    by (simp add: late_entry_ok(10) [unfolded One_nat_def])
qed

lemma late_release:
  "\<exists>v ds x. handleEnterBarrierMsg (zero_msg\<lparr>m_from := 2\<rparr>) late_entry = Some v \<and> set (ds @ [x]) \<subseteq> set (wire v) \<and>
    list_all2 (carries 0 GRANT_EXIT_BARRIER_INFO) ds (exit_mail 3 (release_ts late_entry) no_ts
      (host_log first_L written_W late_entry) 1) \<and> carries 0 EXIT_BARRIER x (1, no_ts, [])"
proof -
  let ?lg = "host_log first_L written_W late_entry" and ?rts = "release_ts late_entry"
  have hosts: "[1..<nat (hostnum late_entry)] = [1, 2]" by (simp add: late_entry_ok(7) upt_rec numeral_3_eq_3)
  obtain v w where v: "handleEnterBarrierMsg (zero_msg\<lparr>m_from := 2\<rparr>) late_entry = Some v"
    "mailed 0 GRANT_EXIT_BARRIER_INFO (wire late_entry) w (release_mail ?lg late_entry)"
    "mailed 0 EXIT_BARRIER w (wire v) (map (\<lambda>i. (int i, no_ts, [])) [1..<nat (hostnum late_entry)])"
    using handleEnterBarrierMsg_ok [OF late_entry_ok(1,3-6), of "zero_msg\<lparr>m_from := 2\<rparr>" 2] late_entry_ok(7,8) by auto
  obtain ds es where ds: "sent (wire late_entry) w (ds @ es)"
    "list_all2 (carries 0 GRANT_EXIT_BARRIER_INFO) ds (exit_mail 3 ?rts no_ts ?lg 1)"
    using v(2) late_entry_ok(7,10) unfolding mailed_def release_mail_def hosts by (auto simp: list_all2_append2)
  obtain x xs where x: "sent w (wire v) (x # xs)" "carries 0 EXIT_BARRIER x (1, no_ts, [])"
    using v(3) unfolding mailed_def hosts by (auto simp: list_all2_Cons2)
  have "set (ds @ [x]) \<subseteq> set (wire v)" using sent_prefix [OF ds(1)] sent_prefix [OF x(1)] by auto
  then show ?thesis using v(1) ds(2) x(2) by blast
qed

theorem barrier_call_witness:
  "\<exists>v ds x r L W P. handleEnterBarrierMsg (zero_msg\<lparr>m_from := 2\<rparr>) late_entry = Some v \<and> set (ds @ [x]) \<subseteq> set (wire v) \<and>
    mi_barrier [] (answers_of (ds @ [x])) (boot 1 3) = Some (Returned (r, [])) \<and> mem_ok L W P r \<and>
    host_log L W r 0 = [(zero_ts, [0])]"
proof -
  let ?s = "boot 1 3" and ?L = "\<lambda>g. if g = nat 1 then [0] else []"
  have hn: "(3::int) \<le> int MAX_HOST_NUM" "(0::nat) < MAX_HOST_NUM" "(1::nat) < MAX_HOST_NUM"
    "(0::int) \<le> 1" "(1::int) < 3"
    by (simp_all add: MAX_HOST_NUM_def)
  note s = boot_ok [OF hn(4,5,1)]
  have me: "me ?s = 1" "myhostid ?s \<noteq> 0" "hostnum late_entry = hostnum ?s" using s(3,4,8) hn late_entry_ok(7) by simp_all
  have lg: "log_ok (host_log ?L (\<lambda>_. []) ?s)" by (auto simp: log_ok_def host_log_def entry_of_def)
  have rcv: "receptive ?s"
    using boot_fields(6,7) [of 1 3] s(4) hn by (simp add: receptive_def recv_ok_def in_hosts_def)
  have own: "?L (me ?s) = [] @ 0 # []" "i_isBarrier (ivals ?s ! 0) = 1" using s(5) hn by (simp_all add: me(1))
  let ?new = "\<lambda>g. filter (lacks (nat (hostnum ?s)) (barrierTimestamps late_entry (me ?s)))
    (rev (host_log first_L written_W late_entry g))"
  have "ts_after 3 zero_ts no_ts" by (auto simp: ts_after_def zero_ts_def no_ts_def MAX_HOST_NUM_def intro: exI [of _ 0])
  then have new: "?new g = (if g = 0 then [(zero_ts, [0])] else [])" if "g < MAX_HOST_NUM" for g
    using late_entry_ok(10) s(3) hn unfolding late_entry_ok(2) me(1) entering_ok(9) [OF that]
    by (simp add: lacks_def)
  have short: "\<forall>g<nat (hostnum ?s). \<forall>e\<in>set (?new g). length (snd e) \<le> MAX_WN_NUM"
  proof (intro allI impI)
    fix g assume "g < nat (hostnum ?s)"
    then have "g < MAX_HOST_NUM" using s(3) hn by (simp add: MAX_HOST_NUM_def)
    then show "\<forall>e\<in>set (?new g). length (snd e) \<le> MAX_WN_NUM" unfolding new [OF \<open>g < MAX_HOST_NUM\<close>] by (simp add: MAX_WN_NUM_def)
  qed
  have none: "?new (me ?s) = []" using new [OF hn(3)] unfolding me(1) by simp
  obtain v ds x where v: "handleEnterBarrierMsg (zero_msg\<lparr>m_from := 2\<rparr>) late_entry = Some v" "set (ds @ [x]) \<subseteq> set (wire v)"
    "list_all2 (carries 0 GRANT_EXIT_BARRIER_INFO) ds (exit_mail 3 (release_ts late_entry) no_ts
      (host_log first_L written_W late_entry) 1)" "carries 0 EXIT_BARRIER x (1, no_ts, [])"
    using late_release by blast
  have ds: "list_all2 (carries 0 GRANT_EXIT_BARRIER_INFO) ds (exit_mail (nat (hostnum ?s)) (release_ts late_entry)
      (barrierTimestamps late_entry (me ?s)) (host_log first_L written_W late_entry) (me ?s))"
    using v(3) s(3) hn late_entry_ok(10) unfolding me(1) by simp
  have x: "carries 0 EXIT_BARRIER x (myhostid ?s, no_ts, [])" using v(4) s(4) hn by simp
  obtain r L W P where r: "mi_barrier [] (answers_of (ds @ [x])) ?s = Some (Returned (r, []))" "mem_ok L W P r"
    "\<forall>g<MAX_HOST_NUM. host_log L W r g =
      (if g = me ?s then (mail_ts (hostnum ?s) (release_ts late_entry), []) # host_log ?L (\<lambda>_. []) ?s g
       else if g < nat (hostnum ?s) then fold merge_entry (?new g) (host_log ?L (\<lambda>_. []) ?s g) else host_log ?L (\<lambda>_. []) ?s g)"
    using barrier_call [OF s(1) lg s(10) rcv me(2) own _ s(7) late_entry_ok(1,3) me(3) late_entry_ok(9) none short ds x, of "[]"] by auto
  have "host_log L W r 0 = fold merge_entry [(zero_ts, [0])] []"
    using r(3) hn(2) new [OF hn(2)] s(3) hn(1) by (simp add: me(1) host_log_def)
  then have "host_log L W r 0 = [(zero_ts, [0])]" by (simp add: merge_entry_def merge_log_def add_pages_def)
  then show ?thesis using v(1,2) r(1,2) by blast
qed

end
