(* ===== verification/Manager.thy ===== *)
theory Manager
  imports Meeting
begin

text \<open>
  The barrier at host 0 (\<open>mi_barrier\<close> of \<open>src/syn.c\<close>): the call returns at once if all others have
  entered, otherwise it waits for the last of them, unless that one is handled too early.
\<close>

section \<open>The release\<close>

text \<open>What has happened when the barrier that host 0 left in the state \<open>s\<close> is over.\<close>

definition let_go ::
    "(nat \<Rightarrow> nat list) \<Rightarrow> (nat \<Rightarrow> nat list) \<Rightarrow> (nat \<Rightarrow> nat \<Rightarrow> nat list) \<Rightarrow> mem_st \<Rightarrow> mem_st \<Rightarrow> bool" where
  "let_go L W P s v \<longleftrightarrow> (let n = length (ivals s); L' = L(0 := n # L 0); W' = W(n := []); lg = host_log L W s in
     mem_ok L' W' P v \<and> quiet v \<and> intervalNow v = Some n \<and>
     (\<exists>w. mailed 0 GRANT_EXIT_BARRIER_INFO (wire s) w (release_mail lg s) \<and>
       mailed 0 EXIT_BARRIER w (wire v) (map (\<lambda>i. (int i, no_ts, [])) [1..<nat (hostnum s)])) \<and>
     (\<forall>g<MAX_HOST_NUM. host_log L' W' v g = (if g = 0 then (release_ts s, []) # lg g else lg g)) \<and>
     (\<forall>i<nat (hostnum s). barrierFlags v i = 0))"

lemma let_go_same:
  assumes "let_go L W P s v" "same_heap v v'" "quiet v' = quiet v" "wire v' = wire v" "barrierFlags v' = barrierFlags v"
  shows "let_go L W P s v'"
  using assms mem_ok_same_heap [OF assms(2)] host_log_same_heap [OF assms(2)]
  unfolding let_go_def Let_def by (simp add: same_heap_def)

lemma let_go_from:
  assumes "let_go L W P s v" "same_heap s s'" "barrierTimestamps s' = barrierTimestamps s" "wire s' = wire s"
  shows "let_go L W P s' v"
proof -
  have eqs: "hostnum s' = hostnum s" "ivals s' = ivals s" "host_log L W s' = host_log L W s"
    using assms(2) host_log_same_heap [OF assms(2)] by (simp_all add: same_heap_def)
  have "release_ts s' = release_ts s" using eqs(1) assms(3) by (simp add: release_ts_def cong: if_cong)
  moreover from this have "release_mail lg s' = release_mail lg s" for lg
    using eqs(1) assms(3) by (simp add: release_mail_def)
  ultimately show ?thesis using assms(1,4) eqs unfolding let_go_def Let_def by metis
qed

lemma receptive_barrier:
  "receptive (s\<lparr>waitFlag := x\<rparr>) = receptive s" "receptive (s\<lparr>barrierFlags := f\<rparr>) = receptive s"
  "receptive (s\<lparr>barrierTimestamps := b\<rparr>) = receptive s" "quiet (s\<lparr>barrierTimestamps := b\<rparr>) = quiet s"
  by (simp_all add: receptive_def recv_ok_def quiet_def snd_ok_def)

text \<open>What host 0 needs to know of its state.\<close>

definition convenes :: "(nat \<Rightarrow> nat list) \<Rightarrow> (nat \<Rightarrow> nat list) \<Rightarrow> (nat \<Rightarrow> nat \<Rightarrow> nat list) \<Rightarrow> mem_st \<Rightarrow> bool" where
  "convenes L W P s \<longleftrightarrow> mem_ok L W P s \<and> log_ok (host_log L W s) \<and> quiet s \<and> rows_ok s \<and> receptive s \<and> myhostid s = 0"

lemma convenes_same:
  assumes "convenes L W P s" "same_heap s t" "barrierTimestamps t = barrierTimestamps s" "quiet t" "receptive t"
  shows "convenes L W P t"
  using assms mem_ok_same_heap [OF assms(2)] host_log_same_heap [OF assms(2)]
  unfolding convenes_def rows_ok_def by (simp add: same_heap_def)

lemma last_check:
  assumes "convenes L W P s" "all_entered s"
  shows "\<exists>v. checkBarrierFlags s = Some (0, v) \<and> let_go L W P s v"
proof -
  note s = assms(1) [unfolded convenes_def]
  from checkBarrierFlags_ok [of L W P s] s assms(2) obtain v w where "checkBarrierFlags s = Some (0, v)"
    "mem_ok (L(0 := length (ivals s) # L 0)) (W(length (ivals s) := [])) P v" "quiet v"
    "mailed 0 GRANT_EXIT_BARRIER_INFO (wire s) w (release_mail (host_log L W s) s)"
    "mailed 0 EXIT_BARRIER w (wire v) (map (\<lambda>i. (int i, no_ts, [])) [1..<nat (hostnum s)])"
    "\<forall>g<MAX_HOST_NUM. host_log (L(0 := length (ivals s) # L 0)) (W(length (ivals s) := [])) v g =
       (if g = 0 then (release_ts s, []) # host_log L W s g else host_log L W s g)"
    "released s v" "\<forall>i<nat (hostnum s). barrierFlags v i = 0"
    by blast
  then show ?thesis by (intro exI [of _ v]) (auto simp: let_go_def Let_def released_def)
qed

text \<open>The message of the last host that enters, delivered to host 0.\<close>

lemma last_delivered:
  assumes "convenes L W P s" "all_entered (s\<lparr>barrierFlags := (barrierFlags s)(h := 1)\<rparr>)"
    and m: "m_command m = cmd_code ENTER_BARRIER" "m_from m = int h" "0 < h" "int h < hostnum s"
  shows "\<exists>v. sigio_handler (deliver h m) s = Some v \<and> let_go L W P s v \<and> waitFlag v = 0"
proof -
  note s = assms(1) [unfolded convenes_def]
  have h: "h < MAX_HOST_NUM" "int h \<noteq> myhostid s" "in_hosts (m_from m)"
    using s m by (auto simp: mem_ok_def host_ok_def in_hosts_def)
  obtain u where u: "idle_frame s u" "\<And>t. dispatchMsg (Some m) u = Some t \<Longrightarrow>
      sigio_handler (deliver h m) s = Some (settled t) \<and> receptive (settled t)"
    using sigio_deliver [of s h m] s h by blast
  note f = idle_frame_fields [OF u(1)]
  have heap: "same_heap s u" and rows: "barrierTimestamps u = barrierTimestamps s"
    using f(1) by (simp_all add: same_mem_def same_heap_def)
  have c: "mem_ok L W P u" "log_ok (host_log L W u)" "quiet u" "rows_ok u" "myhostid u = 0" "int h < hostnum u"
    "all_entered (u\<lparr>barrierFlags := (barrierFlags u)(h := 1)\<rparr>)"
    using s assms(2) m(4) f mem_ok_same_heap [OF heap] host_log_same_heap [OF heap]
    by (simp_all add: same_mem_def rows_ok_def all_entered_def)
  from handleEnterBarrierMsg_ok [OF c(1-5) m(2) c(6)] c(7) obtain v where v: "handleEnterBarrierMsg m u = Some v" "waitFlag v = 0"
    "let_go L W P u v"
    unfolding let_go_def Let_def by auto
  note g = idle_frame_fields [OF idle_settled [of v]]
  have "same_heap v (settled v)" using g(1) by (simp add: same_mem_def same_heap_def)
  from let_go_same [OF v(3) this g(2,3,8)] have "let_go L W P u (settled v)" .
  moreover have "same_heap u s" using heap by (simp add: same_heap_def)
  ultimately have "let_go L W P s (settled v)" using let_go_from rows f(3) by metis
  then show ?thesis using u(2) [of v] v(1,2) dispatch_cmd(4) [OF m(1)] g(5) by simp
qed

section \<open>The call\<close>

text \<open>Host 0 has entered its own timestamp and set its own flag.\<close>

definition entered :: "mem_st \<Rightarrow> mem_st" where
  "entered s = s\<lparr>barrierFlags := (barrierFlags s)(0 := 1), barrierTimestamps := (barrierTimestamps s)(0 :=
     take (nat (hostnum s)) (i_timestamp (ivals s ! the (intervalNow s))) @ drop (nat (hostnum s)) (barrierTimestamps s 0))\<rparr>"

lemma mi_barrier_enters:
  assumes "convenes L W P s"
  shows "mi_barrier early env s = Option.bind (checkBarrierFlags (entered s)) (\<lambda>(result, s).
      if result = 0 then Some (Returned (s, env))
      else Option.bind (interrupts early s) (\<lambda>s. await waitFlag env (s\<lparr>waitFlag := 1\<rparr>)))"
    and "convenes L W P (entered s)"
proof -
  note s = assms [unfolded convenes_def]
  obtain c where c: "c \<in> set (L (me s))" "intervalNow s = Some c" using s by (auto simp: mem_ok_def)
  have hn: "nat (hostnum s) \<le> MAX_HOST_NUM" "me s < MAX_HOST_NUM" "hostnum s \<le> int MAX_HOST_NUM"
    using s host_ok_me(1) by (auto simp: mem_ok_def host_ok_def)
  have cl: "c < length (ivals s)" using links_interval_alloc [where L = L and h = "me s" and i = c] hn(2) c(1) s unfolding mem_ok_def by metis
  then have "ts_ok (i_timestamp (ivals s ! c))" using s by (auto simp: mem_ok_def)
  then have len: "length (i_timestamp (ivals s ! c)) = MAX_HOST_NUM" "length (barrierTimestamps s 0) = MAX_HOST_NUM"
    using s by (simp_all add: ts_ok_def rows_ok_def)
  then show "mi_barrier early env s = Option.bind (checkBarrierFlags (entered s)) (\<lambda>(result, s).
      if result = 0 then Some (Returned (s, env))
      else Option.bind (interrupts early s) (\<lambda>s. await waitFlag env (s\<lparr>waitFlag := 1\<rparr>)))"
    using s hn(1,3) len cl c(2) by (simp add: mi_barrier_def entered_def iv_get_def set_ts_def)
  have heap: "same_heap s (entered s)" by (simp add: same_heap_def entered_def)
  have "rows_ok (entered s)" "quiet (entered s)" "receptive (entered s)" "myhostid (entered s) = 0"
    using s len hn(1) c(2) by (simp_all add: rows_ok_def entered_def receptive_barrier)
  then show "convenes L W P (entered s)"
    using s mem_ok_same_heap [OF heap] host_log_same_heap [OF heap] by (simp add: convenes_def)
qed

lemma checkBarrierFlags_entered:
  "convenes L W P s \<Longrightarrow> \<not> all_entered s \<Longrightarrow> checkBarrierFlags s = Some (- 1, s)"
  by (rule checkBarrierFlags_wait) (auto simp: convenes_def mem_ok_def)

text \<open>C11: A barrier at host 0. If all others have entered before, \<open>mi_barrier\<close> lets them go and returns
  at once: it starts the interval of the barrier, sends each host what it lacks and \<open>EXIT_BARRIER\<close>, and
  resets the flags. Otherwise it waits. If the host that is still missing enters while it waits, the
  handler lets the others go and the call returns. If its message is handled after the flags have been
  checked and before \<open>waitFlag\<close> is set, the others are let go as well, and host 0 waits for ever.\<close>

theorem barrier_manager:
  assumes "convenes L W P s" "m_command m = cmd_code ENTER_BARRIER" "m_from m = int h" "0 < h" "int h < hostnum s"
  shows "if all_entered (entered s) then \<exists>r. mi_barrier early env s = Some (Returned (r, env)) \<and> let_go L W P (entered s) r
    else (\<exists>b. mi_barrier [] [] s = Some (Blocked b)) \<and>
      (all_entered ((entered s)\<lparr>barrierFlags := (barrierFlags (entered s))(h := 1)\<rparr>) \<longrightarrow>
        (\<exists>r. mi_barrier [] [deliver h m] s = Some (Returned (r, [])) \<and> let_go L W P (entered s) r) \<and>
        (\<exists>b. mi_barrier [deliver h m] [] s = Some (Blocked b) \<and> let_go L W P (entered s) b))"
proof (cases "all_entered (entered s)")
  case True
  obtain r where "checkBarrierFlags (entered s) = Some (0, r)" "let_go L W P (entered s) r"
    using last_check [OF mi_barrier_enters(2) [OF assms(1)] True] by blast
  with True show ?thesis by (simp add: mi_barrier_enters(1) [OF assms(1)])
next
  case False
  let ?s = "entered s" and ?w = "(entered s)\<lparr>waitFlag := 1\<rparr>"
  note c = mi_barrier_enters(2) [OF assms(1)]
  have run: "mi_barrier early env s = Option.bind (interrupts early ?s) (\<lambda>s. await waitFlag env (s\<lparr>waitFlag := 1\<rparr>))"
    for early env
    by (simp add: mi_barrier_enters(1) [OF assms(1)] checkBarrierFlags_entered [OF c False])
  have heap: "same_heap ?w ?s" "same_heap ?s ?w" by (simp_all add: same_heap_def)
  have cw: "convenes L W P ?w"
    using c by (intro convenes_same [OF c heap(2)]) (simp_all add: convenes_def receptive_barrier)
  have hs: "int h < hostnum ?s" "int h < hostnum ?w" using assms(5) by (simp_all add: entered_def)
  have "(\<exists>r. mi_barrier [] [deliver h m] s = Some (Returned (r, [])) \<and> let_go L W P ?s r) \<and>
      (\<exists>b. mi_barrier [deliver h m] [] s = Some (Blocked b) \<and> let_go L W P ?s b)"
    if all: "all_entered (?s\<lparr>barrierFlags := (barrierFlags ?s)(h := 1)\<rparr>)"
  proof (intro conjI)
    have "all_entered (?w\<lparr>barrierFlags := (barrierFlags ?w)(h := 1)\<rparr>)" using all by (simp add: all_entered_def)
    from last_delivered [OF cw this assms(2-4) hs(2)] obtain r where r: "sigio_handler (deliver h m) ?w = Some r"
      "let_go L W P ?w r" "waitFlag r = 0"
      by blast
    have "let_go L W P ?s r" by (rule let_go_from [OF r(2) heap(1)]) simp_all
    moreover have "mi_barrier [] [deliver h m] s = Some (Returned (r, []))" unfolding run using r(1,3) by simp
    ultimately show "\<exists>r. mi_barrier [] [deliver h m] s = Some (Returned (r, [])) \<and> let_go L W P ?s r" by blast
    obtain v where v: "sigio_handler (deliver h m) ?s = Some v" "let_go L W P ?s v"
      using last_delivered [OF c all assms(2-4) hs(1)] by blast
    have "let_go L W P ?s (v\<lparr>waitFlag := 1\<rparr>)" by (rule let_go_same [OF v(2)]) (simp_all add: same_heap_def)
    moreover have "mi_barrier [deliver h m] [] s = Some (Blocked (v\<lparr>waitFlag := 1\<rparr>))" unfolding run using v(1) by simp
    ultimately show "\<exists>b. mi_barrier [deliver h m] [] s = Some (Blocked b) \<and> let_go L W P ?s b" by blast
  qed
  moreover have "mi_barrier [] [] s = Some (Blocked ?w)" unfolding run by simp
  ultimately show ?thesis using False by simp
qed

text \<open>Host 0 after start-up; host 1 has entered, host 2 is the last.\<close>

definition gathering :: mem_st where
  "gathering = (boot 0 3)\<lparr>barrierFlags := (\<lambda>_. 0)(1 := 1)\<rparr>"

theorem barrier_manager_witness:
  "\<exists>m b r b'. mi_barrier [] [] gathering = Some (Blocked b) \<and>
    mi_barrier [] [deliver 2 m] gathering = Some (Returned (r, [])) \<and> barrierFlags r 1 = 0 \<and>
    mi_barrier [deliver 2 m] [] gathering = Some (Blocked b') \<and> barrierFlags b' 1 = 0"
proof -
  have hn: "(0::int) \<le> 0" "(0::int) < 3" "(3::int) \<le> int MAX_HOST_NUM" by (simp_all add: MAX_HOST_NUM_def)
  note s = boot_ok [OF hn]
  let ?L = "\<lambda>g. if g = nat 0 then [0] else []" and ?m = "zero_msg\<lparr>m_command := cmd_code ENTER_BARRIER, m_from := int 2\<rparr>"
  have lg: "log_ok (host_log ?L (\<lambda>_. []) (boot 0 3))" by (auto simp: log_ok_def host_log_def entry_of_def)
  have b: "rows_ok (boot 0 3)" "receptive (boot 0 3)"
    using boot_fields [OF hn] s(4) by (simp_all add: rows_ok_def receptive_def recv_ok_def in_hosts_def)
  have "convenes ?L (\<lambda>_. []) (\<lambda>_ _. []) (boot 0 3)" using s(1,4,10) lg b by (simp add: convenes_def)
  then have c: "convenes ?L (\<lambda>_. []) (\<lambda>_ _. []) gathering"
    by (rule convenes_same) (use s(10) b(2) in \<open>simp_all add: gathering_def same_heap_def receptive_barrier\<close>)
  have h: "hostnum gathering = 3" using s(3) by (simp add: gathering_def)
  have e: "\<not> all_entered (entered gathering)"
    "all_entered ((entered gathering)\<lparr>barrierFlags := (barrierFlags (entered gathering))(2 := 1)\<rparr>)"
    using h by (auto simp: all_entered_def entered_def gathering_def less_Suc_eq numeral_3_eq_3 numeral_2_eq_2)
  have f: "barrierFlags r 1 = 0" if "let_go ?L (\<lambda>_. []) (\<lambda>_ _. []) (entered gathering) r" for r
  proof -
    have "\<forall>i<nat (hostnum (entered gathering)). barrierFlags r i = 0"
      using that unfolding let_go_def Let_def by blast
    moreover have "hostnum (entered gathering) = 3" using h by (simp add: entered_def)
    ultimately show ?thesis by simp
  qed
  have m: "m_command ?m = cmd_code ENTER_BARRIER" "m_from ?m = int 2" "(0::nat) < 2" "int 2 < hostnum gathering"
    using h by simp_all
  show ?thesis using barrier_manager [OF c m, of "[]" "[]"] e f by auto
qed

end
