(* ===== verification/Spec2Isabelle.thy ===== *)
theory Spec2Isabelle
  imports Refresh Manager
begin

text \<open>
  MiDSM, a page based distributed shared memory with lazy release consistency
  (\<open>src/src/{init,net,syn,mem,util}.c\<close> and their headers).

  \<^bold>\<open>The program.\<close> Up to 20 hosts run the same program on a shared region of 32768 pages. Three modules
  share global state. \<open>init.c\<close> reads the table of the hosts and finds the own id. \<open>net.c\<close> sends messages
  over UDP, each retransmitted until its sequence number is acknowledged; it receives them in the
  handler of SIGIO, which queues, acknowledges and dispatches them. \<open>syn.c\<close> keeps the locks (lock
  \<open>k\<close> is managed by host \<open>k mod hostnum\<close>) and the barrier (managed by host 0). \<open>mem.c\<close> keeps the pages.
  Access is checked by page protection: a fault on a missing page fetches the page, on an invalid one it
  fetches the diffs of the writers, on a readable one it makes a twin and a write notice. Time on a
  host is cut into intervals with vector timestamps. Acquiring a lock and leaving a barrier bring the
  write notices of intervals a host has not seen and invalidate the pages they name.
  A call that needs an answer sets a flag and waits until the handler of the answer clears it.

  \<^bold>\<open>Conventions\<close> (Prelude). The global variables are the fields of records that extend each
  other as the modules do: \<open>init_st\<close>, \<open>net_st\<close>, \<open>syn_st\<close>, \<open>mem_st\<close>. Every function is a function from
  the state to the state after it. The type \<open>option\<close> around a result stands for undefined behaviour: \<open>None\<close>
  is a NULL dereference, an index out of range, an overrun buffer. An error code is a value
  within \<open>Some\<close>. A C \<open>int\<close> is an \<open>int\<close>; \<open>s32\<close> is the wrap-around, written where the code computes a value that can
  leave the range; the bytes of pages and messages are words of 8 bits, the time of \<open>util.c\<close> words of 64.
  Heap objects (intervals, write notices) live in lists indexed by pointers, so that aliasing is that of the code.

  \<^bold>\<open>Definitions and the code they model.\<close>
    \<^item> Init: \<open>readHosts\<close>, \<open>findHostIdByName\<close>, \<open>readSegFromStr\<close>, \<open>startNodePrograms\<close> (\<open>init.c\<close>).
    \<^item> Net: messages, the two circular queues, the ports, \<open>apendMsgData\<close>, \<open>sendMsg\<close> (\<open>net.c\<close>).
    \<^item> Locks: the lock table, \<open>initsyn\<close>, \<open>graspLock\<close>, \<open>freeLock\<close>; Sync: \<open>grantLock\<close> and the handlers of lock
      messages (\<open>syn.c\<close>).
    \<^item> Memory: \<open>initmem\<close>, \<open>mi_alloc\<close>, twins, diffs; Timestamps: \<open>isAfterInterval\<close>; Intervals: \<open>addNewInterval\<close>,
      \<open>createWriteNotice\<close>, \<open>write_fault\<close>, \<open>incorporateWnPacket\<close>; Protocol: the replies \<open>grantPage\<close>, \<open>grantDiff\<close>, \<open>grantWNI\<close> and the handlers
      of answers (\<open>mem.c\<close>).
    \<^item> Barrier: the messages with write notices to and from host 0 (\<open>mem.c\<close>), the flags of the hosts (\<open>syn.c\<close>).
    \<^item> Dispatch: \<open>dispatchMsg\<close>, \<open>sigio_handler\<close> (\<open>net.c\<close>); Waiting: \<open>fetchPage\<close>, \<open>fetchDiff\<close>,
      \<open>fetchWritenoticeAndInterval\<close>, \<open>segv_handler\<close> (\<open>mem.c\<close>); Api: \<open>mi_lock\<close>, \<open>mi_unlock\<close>, \<open>mi_barrier\<close>, \<open>mi_init\<close>,
      \<open>initLocalEnv\<close> and \<open>current_time\<close> (\<open>util.c\<close>).

  \<^bold>\<open>Signals and waiting.\<close> What a SIGIO handler finds on the sockets is an argument: the datagrams that have
  arrived. A function that waits takes a list of such deliveries; \<open>await\<close> consumes them while
  the flag is set. Its result is \<open>Returned\<close>, with the deliveries left, or \<open>Blocked\<close> when all are used up and
  the flag is still set. Properties that a call returns name the deliveries that make it return. The
  list \<open>early\<close> of \<open>mi_lock\<close> and \<open>mi_barrier\<close> holds deliveries that come in before the flag is set.

  \<^bold>\<open>Bounds.\<close> No fuel is used but the one of the code: \<open>sendMsg\<close> tries each message at most
  \<open>MAX_RETRY_NUM\<close> times (64), with the acknowledgements of each try in the state; that it sends all of a full
  queue is \<open>sendMsg_drains\<close>. Loops along pointers are \<open>partial_function (option)\<close>;
  on the chains of the invariant they are proved to return.

  \<^bold>\<open>Lemmas, by part of the program.\<close>
    \<^item> Queues refines the circular queues to lists (locale \<open>bounded_fifo\<close>, interpreted on both queues).
      Sending: the retransmission loop and the draining of the queue; Messages: what is sent, with content.
    \<^item> Locks: each operation on the table on every branch, whatever the queue holds, and the service in order (locale \<open>lock_manager\<close>, interpreted
      on the table). Sync, Delivery: the effect of a lock message at its receiver.
    \<^item> Pages: the invariant of a single page, and the algebra of diffs (locale \<open>diff_scheme\<close>, interpreted on byte lists).
      Timestamps: the order (locale \<open>timestamp_order\<close>, interpreted on \<open>ts_after\<close>). Links: the pointer lists of intervals
      and notices; \<open>mem_ok\<close> collects the invariant of the memory module. Frames: what an operation leaves alone.
      Alloc establishes the invariant and shows how allocation keeps it; Writes: write faults and new intervals.
    \<^item> Incorporate refines \<open>incorporateWnPacket\<close> to an abstract log: each host's intervals with their pages.
      Granting and Notices: what \<open>grantWNI\<close> packs and how the one who asked merges it. Parcels, Release,
      Rendezvous, BarrierProps: the same for the two directions of the barrier; the walk along \<open>prev\<close> that the
      three functions share is the locale \<open>prev_walk\<close>, interpreted on each of them.
      Meeting: what host 0 sends for each host at the release, message by message and with its address
      (left over packets can go to host 0, and only intervals later than the timestamp of the host are passed on), and a
      whole call of \<open>mi_barrier\<close> with these answers; Manager is the same call at host 0.
    \<^item> Exchange, Delivery, Faults, Refresh: requests and answers from end to end, up to the fault handler
      that fetches a page or all diffs of a page. Addresses: which addresses it serves and which end the program.
    \<^item> Locking, Wakeup: \<open>mi_lock\<close> and \<open>mi_unlock\<close> on one host, and the races of the code.
    \<^item> LockProtocol states the protocol of one lock on a cluster of hosts and proves its invariant and a
      measure that decreases (locales \<open>simulation\<close> and \<open>progress\<close>). LockSteps and Cluster show that the hosts, each with
      its full state, calling \<open>mi_lock\<close> and \<open>mi_unlock\<close> and handling lock messages by
      \<open>dispatchMsg\<close> in any interleaving, simulate it; Mutex interprets the locales on the cluster: mutual exclusion,
      and every request is served within seven steps per host.
    \<^item> Startup: after \<open>initLocalEnv\<close> all these invariants hold.

  \<^bold>\<open>Assumptions of the cluster.\<close> A message is handled once, and those of one host to another in the order
  of sending. Both are what the code relies on: the counters of received messages are never
  compared (\<open>duplicate_grant\<close> and \<open>duplicate_diff\<close> show what a duplicate does). A host waits with its flag
  set when its messages come in, that is, a manager is not interrupted between \<open>graspLock\<close> and \<open>waitFlag = 1\<close> (\<open>lost_wakeup\<close>
  shows what happens otherwise), and the local processing of a step is not interleaved with other steps.

  \<^bold>\<open>Not modelled.\<close> \<open>showDataStructures\<close> and \<open>testCommand\<close> print. A SIGIO that interrupts \<open>sendMsg\<close> itself:
  handlers run between the statements that wait. \<open>malloc\<close>, \<open>mmap\<close> and the system calls on sockets do not
  fail. The contents of the stack are the field \<open>junk\<close>. The programs in \<open>src/experiments\<close> and
  \<open>src/tests\<close> are not part of the library. One group of assertions of the tests, mem81.21 to mem81.31 of
  \<open>mem-test.c\<close>, expects a second write notice for a page a known interval has already; the code has a loop
  against it, and \<open>incorporate_refines_log\<close> and \<open>incorporate_idempotent\<close> follow the code.
\<close>

end
